(* ===== verification/XPrelude.thy ===== *)
theory XPrelude
  imports Main "HOL-Library.Word"
begin

text \<open>
  Shared vocabulary of the development: the machine integer types of the C sources, the
  signed 64-bit range, and the facts about 32-bit and 64-bit words that the limb arithmetic,
  the MessagePack wire format and the bit sets of the JIT all use.

  Unsigned C integers are words (they wrap). A signed \<open>int64_t\<close> is an \<open>int\<close>; an operation
  on it that C leaves undefined when it overflows goes through one of the checked operations
  below, whose \<open>None\<close> is "undefined behaviour".
\<close>

unbundle bit_operations_syntax

type_synonym u8 = "8 word"
type_synonym u16 = "16 word"
type_synonym u32 = "32 word"
type_synonym u64 = "64 word"

named_theorems limb_simps \<open>value equations of the limb loops\<close>
named_theorems wf_intros \<open>well-formedness of the results of operations\<close>

section \<open>Signed 64-bit integers\<close>

definition INT64_MAX :: int where
  "INT64_MAX = 9223372036854775807"

definition INT64_MIN :: int where
  "INT64_MIN = -9223372036854775808"

definition in_i64 :: "int \<Rightarrow> bool" where
  "in_i64 x \<longleftrightarrow> INT64_MIN \<le> x \<and> x \<le> INT64_MAX"

lemmas i64_defs = in_i64_def INT64_MAX_def INT64_MIN_def

text \<open>The value of a signed 64-bit operation, or \<open>None\<close> where C leaves it undefined.\<close>

definition i64_chk :: "int \<Rightarrow> int option" where
  "i64_chk x = (if in_i64 x then Some x else None)"

lemma i64_chk_Some [simp]: "in_i64 x \<Longrightarrow> i64_chk x = Some x"
  by (simp add: i64_chk_def)

lemma i64_chk_eq_Some_iff: "i64_chk x = Some y \<longleftrightarrow> y = x \<and> in_i64 x"
  by (auto simp: i64_chk_def)

text \<open>C's division and remainder: truncation towards zero.\<close>

definition c_div :: "int \<Rightarrow> int \<Rightarrow> int" where
  "c_div a b = sgn a * sgn b * (\<bar>a\<bar> div \<bar>b\<bar>)"

definition c_mod :: "int \<Rightarrow> int \<Rightarrow> int" where
  "c_mod a b = a - c_div a b * b"

section \<open>Words as numbers\<close>

abbreviation B32 :: nat where
  "B32 \<equiv> 4294967296"

lemma unat_u32_bound: "unat (x::u32) < B32"
  using unsigned_less [of x, where ?'a = nat] by simp

lemma unat_u64_bound: "unat (x::u64) < 18446744073709551616"
  using unsigned_less [of x, where ?'a = nat] by simp

lemma unat_ucast_32_64 [simp]: "unat (ucast (x::u32) :: u64) = unat x"
  by (simp add: unsigned_ucast_eq take_bit_nat_eq_self unat_u32_bound order_less_trans [OF unat_u32_bound])

lemma unat_ucast_64_32: "unat (ucast (x::u64) :: u32) = unat x mod B32"
  by (simp add: unsigned_ucast_eq take_bit_eq_mod)

lemma unat_drop_bit_32: "unat (drop_bit 32 (x::u64)) = unat x div B32"
  by (subst unat_drop_bit_eq) (simp add: drop_bit_eq_div)

lemma unat_add_u64: "unat x + unat y < 18446744073709551616 \<Longrightarrow> unat (x + y :: u64) = unat x + unat y"
  by (simp add: unat_word_ariths)

lemma unat_mult_u64: "unat x * unat y < 18446744073709551616 \<Longrightarrow> unat (x * y :: u64) = unat x * unat y"
  by (simp add: unat_word_ariths)

lemma and_mask32: "(x::u64) AND 0xFFFFFFFF = take_bit 32 x"
proof -
  have "(0xFFFFFFFF::u64) = mask 32"
    by (simp add: mask_eq_exp_minus_1)
  then show ?thesis
    by (simp only: take_bit_eq_mask)
qed

lemma ucast_and_mask32: "ucast ((x::u64) AND 0xFFFFFFFF) = (ucast x :: u32)"
  unfolding and_mask32 by (simp add: bit_eq_iff bit_simps)

end
