(* ===== verification/XBigInt.thy ===== *)
theory XBigInt
  imports XPrelude
begin

text \<open>
  The arbitrary-precision integers of \<open>src/core/xs_bigint.c\<close>: magnitude arithmetic on
  little-endian 32-bit limbs, the sign rules on top of it, and the conversions to and from
  \<open>int64_t\<close>. A \<open>struct XSBigInt\<close> is the record \<open>bigint\<close>: \<open>limbs\<close> is the prefix
  \<open>limbs[0..len)\<close> of the C array (so \<open>len\<close> is \<open>length\<close>), \<open>sign\<close> the C flag; the
  allocation size \<open>cap\<close> and the reference count carry no value and are left out.

  A C loop that walks the limbs upwards is a recursion on the list, one that walks them
  downwards recurses on the tail first; the loop's local variables (carry, borrow,
  remainder) are its further arguments. \<open>mag_val\<close> and \<open>bi_val\<close> give the number a
  limb list and a bigint stand for: they are the specification side.
\<close>

section \<open>Representation\<close>

record bigint =
  limbs :: "u32 list"
  sign :: bool

fun mag_val :: "u32 list \<Rightarrow> nat" where
  "mag_val [] = 0"
| "mag_val (x # xs) = unat x + B32 * mag_val xs"

definition bi_val :: "bigint \<Rightarrow> int" where
  "bi_val b = (if sign b then - int (mag_val (limbs b)) else int (mag_val (limbs b)))"

definition bi_wf :: "bigint \<Rightarrow> bool" where
  "bi_wf b \<longleftrightarrow> (if limbs b = [] then \<not> sign b else last (limbs b) \<noteq> 0)"

section \<open>Magnitudes\<close>

text \<open>\<open>bigint_normalize\<close>: strip leading zero limbs, give zero the sign 0.\<close>

function normalize_len :: "u32 list \<Rightarrow> u32 list" where
  "normalize_len ls =
     (if ls \<noteq> [] \<and> last ls = 0 then normalize_len (butlast ls) else ls)"
  by pat_completeness auto
termination
  by (relation "measure length") auto

declare normalize_len.simps [simp del]

definition bigint_normalize :: "bigint \<Rightarrow> bigint" where
  "bigint_normalize b =
     (let ls = normalize_len (limbs b)
      in b\<lparr>limbs := ls, sign := (if ls = [] then False else sign b)\<rparr>)"

text \<open>\<open>bigint_cmp_mag\<close>: the loop over \<open>i = len - 1, \<dots>, 0\<close>, then the length test before it.\<close>

fun cmp_from :: "nat \<Rightarrow> u32 list \<Rightarrow> u32 list \<Rightarrow> int" where
  "cmp_from 0 a b = 0"
| "cmp_from (Suc i) a b =
     (if a ! i \<noteq> b ! i then (if b ! i < a ! i then 1 else -1) else cmp_from i a b)"

definition bigint_cmp_mag :: "bigint \<Rightarrow> bigint \<Rightarrow> int" where
  "bigint_cmp_mag a b =
     (if length (limbs a) \<noteq> length (limbs b)
      then (if length (limbs b) < length (limbs a) then 1 else -1)
      else cmp_from (length (limbs a)) (limbs a) (limbs b))"

text \<open>
  \<open>mag_add\<close>: the loop runs while a limb of either operand or a carry is left. The limb an
  operand no longer has contributes nothing (\<open>if (i < a->len)\<close>).
\<close>

definition limb_or_0 :: "u32 list \<Rightarrow> u64" where
  "limb_or_0 xs = (case xs of [] \<Rightarrow> 0 | x # _ \<Rightarrow> ucast x)"

lemma limb_or_0_simps [simp]: "limb_or_0 [] = 0" "limb_or_0 (x # xs) = ucast x"
  by (simp_all add: limb_or_0_def)

lemma drop_bit_32_less: "(c::u64) \<noteq> 0 \<Longrightarrow> unat (drop_bit 32 c) < unat c"
  by (simp add: unat_drop_bit_32 unat_gt_0)

function mag_add :: "u32 list \<Rightarrow> u32 list \<Rightarrow> u64 \<Rightarrow> u32 list" where
  "mag_add a b carry =
     (if a = [] \<and> b = [] \<and> carry = 0 then []
      else let sum = carry + limb_or_0 a + limb_or_0 b
           in ucast (sum AND 0xFFFFFFFF) # mag_add (tl a) (tl b) (drop_bit 32 sum))"
  by pat_completeness auto
termination
proof (relation "measures [\<lambda>(a, b, c). length a + length b, \<lambda>(a, b, c). unat c]", goal_cases)
  case 1
  show ?case by simp
next
  case (2 a b carry sum)
  then show ?case
    by (cases a; cases b) (auto intro: drop_bit_32_less)
qed

declare mag_add.simps [simp del]

text \<open>\<open>mag_sub\<close>, for \<open>|a| \<ge> |b|\<close>: \<open>borrow\<close> and \<open>diff\<close> are signed 64-bit.\<close>

fun mag_sub_loop :: "u32 list \<Rightarrow> u32 list \<Rightarrow> int \<Rightarrow> u32 list" where
  "mag_sub_loop [] b borrow = []"
| "mag_sub_loop (x # xs) b borrow =
     (let diff = uint x - borrow - (case b of [] \<Rightarrow> 0 | y # _ \<Rightarrow> uint y)
      in if diff < 0
         then word_of_int (diff + 4294967296) # mag_sub_loop xs (tl b) 1
         else word_of_int diff # mag_sub_loop xs (tl b) 0)"

definition mag_sub :: "u32 list \<Rightarrow> u32 list \<Rightarrow> u32 list" where
  "mag_sub a b = normalize_len (mag_sub_loop a b 0)"

text \<open>\<open>mag_div_limb\<close>: quotient limbs and remainder, most significant limb first.\<close>

fun mag_div_loop :: "u32 list \<Rightarrow> u32 \<Rightarrow> u32 list \<times> u64" where
  "mag_div_loop [] d = ([], 0)"
| "mag_div_loop (x # xs) d =
     (let (qs, rem) = mag_div_loop xs d;
          cur = push_bit 32 rem OR ucast x
      in (ucast (cur div ucast d) # qs, cur mod ucast d))"

definition mag_div_limb :: "u32 list \<Rightarrow> u32 \<Rightarrow> u32 list \<times> u32" where
  "mag_div_limb a d = (let (qs, rem) = mag_div_loop a d in (normalize_len qs, ucast rem))"

section \<open>Conversions\<close>

definition limbs_of_u64 :: "u64 \<Rightarrow> u32 list" where
  "limbs_of_u64 uv =
     (let l0 = ucast (uv AND 0xFFFFFFFF); l1 = ucast (drop_bit 32 uv)
      in if l1 \<noteq> 0 then [l0, l1] else [l0])"

definition bigint_from_i64 :: "int \<Rightarrow> bigint" where
  "bigint_from_i64 val =
     (if val = 0 then \<lparr>limbs = [], sign = False\<rparr>
      else let uv = (if val = INT64_MIN then word_of_int INT64_MAX + 1
                     else word_of_int (if val < 0 then - val else val))
           in \<lparr>limbs = limbs_of_u64 uv, sign = (val < 0)\<rparr>)"

definition bigint_from_u64 :: "u64 \<Rightarrow> bigint" where
  "bigint_from_u64 val =
     (if val = 0 then \<lparr>limbs = [], sign = False\<rparr>
      else \<lparr>limbs = limbs_of_u64 val, sign = False\<rparr>)"

definition bigint_copy :: "bigint \<Rightarrow> bigint" where
  "bigint_copy b = \<lparr>limbs = limbs b, sign = sign b\<rparr>"

text \<open>The low 64 bits of the magnitude, as both functions below read it.\<close>

definition low_mag :: "u32 list \<Rightarrow> u64" where
  "low_mag ls =
     (if 2 \<le> length ls then ucast (ls ! 0) OR push_bit 32 (ucast (ls ! 1)) else ucast (ls ! 0))"

definition bigint_fits_i64 :: "bigint \<Rightarrow> bool" where
  "bigint_fits_i64 b =
     (if length (limbs b) = 0 then True
      else if 2 < length (limbs b) then False
      else let mag = low_mag (limbs b)
           in if sign b then mag \<le> word_of_int INT64_MAX + 1 else mag \<le> word_of_int INT64_MAX)"

text \<open>
  The casts \<open>(int64_t)mag\<close> read the word as two's complement; the negation of
  \<open>-(int64_t)mag\<close> cannot overflow, since that word was tested just before.
\<close>

definition bigint_to_i64 :: "bigint \<Rightarrow> int" where
  "bigint_to_i64 b =
     (if length (limbs b) = 0 then 0
      else let mag = low_mag (limbs b)
           in if sign b
              then (if mag = word_of_int INT64_MAX + 1 then INT64_MIN else - sint mag)
              else sint mag)"

definition bigint_is_zero :: "bigint \<Rightarrow> bool" where
  "bigint_is_zero b \<longleftrightarrow> length (limbs b) = 0"

section \<open>Comparison, addition, subtraction, negation\<close>

definition bigint_cmp :: "bigint \<Rightarrow> bigint \<Rightarrow> int" where
  "bigint_cmp a b =
     (if sign a \<noteq> sign b
      then (if bigint_is_zero a \<and> bigint_is_zero b then 0
            else if sign a then -1 else 1)
      else let mc = bigint_cmp_mag a b in if sign a then - mc else mc)"

definition bigint_cmp_i64 :: "bigint \<Rightarrow> int \<Rightarrow> int" where
  "bigint_cmp_i64 a bval = bigint_cmp a (bigint_from_i64 bval)"

definition bigint_add :: "bigint \<Rightarrow> bigint \<Rightarrow> bigint" where
  "bigint_add a b =
     (if sign a = sign b
      then bigint_normalize \<lparr>limbs = mag_add (limbs a) (limbs b) 0, sign = sign a\<rparr>
      else let mc = bigint_cmp_mag a b
           in if mc = 0 then bigint_from_i64 0
              else if 0 < mc
              then bigint_normalize \<lparr>limbs = mag_sub (limbs a) (limbs b), sign = sign a\<rparr>
              else bigint_normalize \<lparr>limbs = mag_sub (limbs b) (limbs a), sign = sign b\<rparr>)"

definition bigint_sub :: "bigint \<Rightarrow> bigint \<Rightarrow> bigint" where
  "bigint_sub a b =
     (let bneg = b\<lparr>sign := (if bigint_is_zero b then False else \<not> sign b)\<rparr>
      in bigint_add a bneg)"

definition bigint_neg :: "bigint \<Rightarrow> bigint" where
  "bigint_neg b =
     (let r = bigint_copy b in if bigint_is_zero r then r else r\<lparr>sign := \<not> sign r\<rparr>)"

definition bigint_abs :: "bigint \<Rightarrow> bigint" where
  "bigint_abs b = (bigint_copy b)\<lparr>sign := False\<rparr>"

section \<open>Multiplication\<close>

text \<open>
  \<open>bigint_mul\<close> adds the row \<open>a[i] * b\<close> into \<open>r[i..]\<close>. \<open>mul_row\<close> is the inner loop with the
  store of the final carry; \<open>mul_rows\<close> is the outer one: after row \<open>i\<close> the limb \<open>r[i]\<close> is
  never read or written again, so the loop goes on with the rest of the array.
\<close>

fun mul_row :: "u32 \<Rightarrow> u32 list \<Rightarrow> u32 list \<Rightarrow> u64 \<Rightarrow> u32 list" where
  "mul_row ai (y # ys) (r # rs) carry =
     (let prod = ucast ai * ucast y + ucast r + carry
      in ucast (prod AND 0xFFFFFFFF) # mul_row ai ys rs (drop_bit 32 prod))"
| "mul_row ai [] (r # rs) carry = (if carry \<noteq> 0 then (r + ucast carry) # rs else r # rs)"
| "mul_row ai ys [] carry = []"

fun mul_rows :: "u32 list \<Rightarrow> u32 list \<Rightarrow> u32 list \<Rightarrow> u32 list" where
  "mul_rows [] b r = r"
| "mul_rows (ai # as) b r =
     (case mul_row ai b r 0 of [] \<Rightarrow> [] | r0 # r' \<Rightarrow> r0 # mul_rows as b r')"

definition bigint_mul :: "bigint \<Rightarrow> bigint \<Rightarrow> bigint" where
  "bigint_mul a b =
     (if bigint_is_zero a \<or> bigint_is_zero b then bigint_from_i64 0
      else bigint_normalize
        \<lparr>limbs = mul_rows (limbs a) (limbs b) (replicate (length (limbs a) + length (limbs b)) 0),
         sign = (sign a \<noteq> sign b)\<rparr>)"

end
