(* ===== verification/XBigIntArith.thy ===== *)
theory XBigIntArith
  imports XBigInt
begin

text \<open>
  What the operations of \<open>XBigInt\<close> compute: each loop is related to the number its limbs
  stand for, and each operation to the integer operation it implements; well-formedness
  (no leading zero limb, no negative zero) is kept by all of them.
\<close>

section \<open>Limb lists as numbers\<close>

lemma mag_val_append: "mag_val (xs @ ys) = mag_val xs + B32 ^ length xs * mag_val ys"
  by (induction xs) (simp_all add: algebra_simps)

lemma mag_val_bound: "mag_val xs < B32 ^ length xs"
proof (induction xs)
  case Nil
  then show ?case by simp
next
  case (Cons x xs)
  have "mag_val xs + 1 \<le> B32 ^ length xs" using Cons by simp
  then have "B32 * (mag_val xs + 1) \<le> B32 * B32 ^ length xs" by (rule mult_le_mono2)
  then show ?case using unat_u32_bound [of x] by simp
qed

lemma mag_val_replicate_0 [simp]: "mag_val (replicate n 0) = 0"
  by (induction n) simp_all

lemma mag_val_last_nonzero:
  assumes "xs \<noteq> []" and "last xs \<noteq> 0"
  shows "B32 ^ (length xs - 1) \<le> mag_val xs"
proof -
  obtain ys y where xs: "xs = ys @ [y]" using assms(1) by (metis append_butlast_last_id)
  then have "1 \<le> unat y" using assms(2) by (simp add: unat_gt_0 Suc_le_eq)
  then have "B32 ^ length ys * 1 \<le> B32 ^ length ys * unat y" by (rule mult_le_mono2)
  then show ?thesis unfolding xs mag_val_append by (simp add: trans_le_add2)
qed

lemma mag_val_eq_0_iff:
  assumes "xs = [] \<or> last xs \<noteq> 0"
  shows "mag_val xs = 0 \<longleftrightarrow> xs = []"
proof (cases "xs = []")
  case False
  then have "0 < B32 ^ (length xs - 1)" "B32 ^ (length xs - 1) \<le> mag_val xs"
    using mag_val_last_nonzero [of xs] assms by simp_all
  with False show ?thesis by linarith
qed simp

lemma normalize_len_last: "normalize_len ls \<noteq> [] \<Longrightarrow> last (normalize_len ls) \<noteq> 0"
  by (induction ls rule: normalize_len.induct) (subst (asm) (2) normalize_len.simps, subst normalize_len.simps, auto split: if_splits)

lemma mag_val_normalize_len [simp]: "mag_val (normalize_len ls) = mag_val ls"
proof (induction ls rule: normalize_len.induct)
  case (1 ls)
  show ?case
  proof (cases "ls \<noteq> [] \<and> last ls = 0")
    case True
    then have "mag_val ls = mag_val (butlast ls @ [0])"
      by (metis append_butlast_last_id)
    with True "1" show ?thesis by (subst normalize_len.simps) (simp add: mag_val_append)
  next
    case False
    then show ?thesis by (subst normalize_len.simps) (simp only: if_False)
  qed
qed

lemma normalize_len_id: "ls = [] \<or> last ls \<noteq> 0 \<Longrightarrow> normalize_len ls = ls"
  by (subst normalize_len.simps) auto

lemma bi_wf_normalize [simp, wf_intros]: "bi_wf (bigint_normalize b)"
  using normalize_len_last [of "limbs b"] by (auto simp: bi_wf_def bigint_normalize_def Let_def)

lemma bi_val_normalize [simp]: "bi_val (bigint_normalize b) = bi_val b"
proof (cases "normalize_len (limbs b) = []")
  case True
  then have "mag_val (limbs b) = 0" using mag_val_normalize_len [of "limbs b"] by simp
  with True show ?thesis by (simp add: bi_val_def bigint_normalize_def)
qed (simp add: bi_val_def bigint_normalize_def)

lemma bi_val_simps [simp]:
  "bi_val \<lparr>limbs = ls, sign = s\<rparr> = (if s then - int (mag_val ls) else int (mag_val ls))"
  by (simp add: bi_val_def)

lemma bi_wf_limbs: "bi_wf b \<Longrightarrow> limbs b = [] \<or> last (limbs b) \<noteq> 0"
  by (auto simp: bi_wf_def split: if_splits)

lemma bi_val_eq_0_iff: "bi_wf b \<Longrightarrow> bi_val b = 0 \<longleftrightarrow> limbs b = []"
  using mag_val_eq_0_iff [OF bi_wf_limbs, of b] by (auto simp: bi_val_def)

lemma bi_wf_sign: "bi_wf b \<Longrightarrow> sign b \<longleftrightarrow> bi_val b < 0"
  using mag_val_eq_0_iff [OF bi_wf_limbs, of b] by (auto simp: bi_val_def bi_wf_def split: if_splits)

lemma abs_bi_val: "\<bar>bi_val b\<bar> = int (mag_val (limbs b))"
  by (simp add: bi_val_def)

section \<open>Comparing magnitudes\<close>

lemma cmp_from_correct:
  "i \<le> length a \<Longrightarrow> i \<le> length b \<Longrightarrow>
     cmp_from i a b = sgn (int (mag_val (take i a)) - int (mag_val (take i b)))"
proof (induction i)
  case 0
  then show ?case by simp
next
  case (Suc i)
  let ?A = "mag_val (take i a)" and ?B = "mag_val (take i b)"
  have ab: "mag_val (take (Suc i) a) = ?A + B32 ^ i * unat (a ! i)"
    "mag_val (take (Suc i) b) = ?B + B32 ^ i * unat (b ! i)"
    using Suc.prems by (simp_all add: take_Suc_conv_app_nth mag_val_append)
  have bnd: "?A < B32 ^ i" "?B < B32 ^ i"
    using mag_val_bound [of "take i a"] mag_val_bound [of "take i b"] Suc.prems by simp_all
  have less: "p + B32 ^ i * m < q + B32 ^ i * n" if "p < B32 ^ i" "m < n" for p q m n :: nat
  proof -
    have "p + B32 ^ i * m < B32 ^ i * (m + 1)" using that by simp
    also have "\<dots> \<le> B32 ^ i * n" using that by (intro mult_le_mono2) simp
    finally show ?thesis by simp
  qed
  consider "a ! i = b ! i" | "b ! i < a ! i" | "a ! i < b ! i" by fastforce
  then show ?case
  proof cases
    case 1
    then show ?thesis using Suc ab by simp
  next
    case 2
    then have "unat (b ! i) < unat (a ! i)" by (simp add: word_less_nat_alt)
    from less [OF bnd(2) this, of ?A] ab
    have "mag_val (take (Suc i) b) < mag_val (take (Suc i) a)" by simp
    with 2 show ?thesis by auto
  next
    case 3
    then have "unat (a ! i) < unat (b ! i)" by (simp add: word_less_nat_alt)
    from less [OF bnd(1) this, of ?B] ab
    have "mag_val (take (Suc i) a) < mag_val (take (Suc i) b)" by simp
    with 3 show ?thesis by auto
  qed
qed

lemma mag_val_less_length:
  assumes "length a < length b" and "b = [] \<or> last b \<noteq> 0"
  shows "mag_val a < mag_val b"
proof -
  have "mag_val a < B32 ^ length a" by (rule mag_val_bound)
  also have "\<dots> \<le> B32 ^ (length b - 1)" using assms(1) by (intro power_increasing) auto
  also have "\<dots> \<le> mag_val b" using assms by (intro mag_val_last_nonzero) auto
  finally show ?thesis .
qed

lemma bigint_cmp_mag_correct:
  assumes "bi_wf a" and "bi_wf b"
  shows "bigint_cmp_mag a b = sgn (\<bar>bi_val a\<bar> - \<bar>bi_val b\<bar>)"
proof (cases "length (limbs a) = length (limbs b)")
  case True
  then show ?thesis by (simp add: bigint_cmp_mag_def cmp_from_correct abs_bi_val)
next
  case False
  then show ?thesis
    using mag_val_less_length [of "limbs a" "limbs b"] mag_val_less_length [of "limbs b" "limbs a"]
      bi_wf_limbs [OF assms(1)] bi_wf_limbs [OF assms(2)]
    by (auto simp: bigint_cmp_mag_def abs_bi_val not_less_iff_gr_or_eq)
qed

lemma bigint_cmp_correct:
  assumes "bi_wf a" and "bi_wf b"
  shows "bigint_cmp a b = sgn (bi_val a - bi_val b)"
proof (cases "sign a = sign b")
  case True
  then show ?thesis
    using bigint_cmp_mag_correct [OF assms]
    by (auto simp: bigint_cmp_def Let_def bi_val_def sgn_if)
next
  case False
  then show ?thesis
    using bi_wf_sign [OF assms(1)] bi_wf_sign [OF assms(2)]
      bi_val_eq_0_iff [OF assms(1)] bi_val_eq_0_iff [OF assms(2)]
    by (auto simp: bigint_cmp_def bigint_is_zero_def)
qed

section \<open>Adding and subtracting magnitudes\<close>

lemma limb_or_0_bound: "unat (limb_or_0 xs) < B32"
  by (cases xs) (simp_all add: unat_u32_bound)

lemma mag_val_unfold: "mag_val xs = unat (limb_or_0 xs) + B32 * mag_val (tl xs)"
  by (cases xs) simp_all

lemma mag_add_correct:
  "unat carry \<le> 1 \<Longrightarrow> mag_val (mag_add a b carry) = mag_val a + mag_val b + unat carry"
proof (induction a b carry rule: mag_add.induct)
  case (1 a b carry)
  show ?case
  proof (cases "a = [] \<and> b = [] \<and> carry = 0")
    case True
    then show ?thesis by (subst mag_add.simps) simp
  next
    case False
    define sum where "sum = carry + limb_or_0 a + limb_or_0 b"
    have usum: "unat sum = unat carry + unat (limb_or_0 a) + unat (limb_or_0 b)"
      using limb_or_0_bound [of a] limb_or_0_bound [of b] "1.prems"
      by (simp add: sum_def unat_add_u64)
    then have c': "unat (drop_bit 32 sum) \<le> 1"
      using limb_or_0_bound [of a] limb_or_0_bound [of b] "1.prems"
      by (simp add: unat_drop_bit_32)
    have "mag_val (mag_add a b carry) =
        unat sum mod B32 + B32 * (mag_val (tl a) + mag_val (tl b) + unat sum div B32)"
      using "1.IH" [OF False sum_def c']
      by (subst mag_add.simps)
        (simp only: False if_False Let_def sum_def [symmetric] ucast_and_mask32 unat_ucast_64_32
          unat_drop_bit_32 mag_val.simps)
    also have "\<dots> = unat sum + B32 * (mag_val (tl a) + mag_val (tl b))"
      using div_mult_mod_eq [of "unat sum" B32] by (simp add: algebra_simps)
    finally show ?thesis
      using usum mag_val_unfold [of a] mag_val_unfold [of b] by (simp add: algebra_simps)
  qed
qed

text \<open>The result fits the \<open>maxlen + 1\<close> limbs \<open>bigint_ensure\<close> provides.\<close>

lemma mag_add_length:
  "unat carry \<le> 1 \<Longrightarrow> length (mag_add a b carry) \<le> max (length a) (length b) + 1"
proof (induction a b carry rule: mag_add.induct)
  case (1 a b carry)
  show ?case
  proof (cases "a = [] \<and> b = [] \<and> carry = 0")
    case True
    then show ?thesis by (subst mag_add.simps) simp
  next
    case False
    define sum where "sum = carry + limb_or_0 a + limb_or_0 b"
    have usum: "unat sum = unat carry + unat (limb_or_0 a) + unat (limb_or_0 b)"
      using limb_or_0_bound [of a] limb_or_0_bound [of b] "1.prems"
      by (simp add: sum_def unat_add_u64)
    then have c': "unat (drop_bit 32 sum) \<le> 1"
      using limb_or_0_bound [of a] limb_or_0_bound [of b] "1.prems"
      by (simp add: unat_drop_bit_32)
    show ?thesis
    proof (cases "a = [] \<and> b = []")
      case True
      then have "unat sum \<le> 1" using usum "1.prems" by simp
      then have "drop_bit 32 sum = 0" by (simp add: unat_eq_zero [symmetric] unat_drop_bit_32 del: unat_eq_zero)
      moreover have "mag_add [] [] 0 = []" by (subst mag_add.simps) simp
      moreover have "mag_add a b carry = ucast (sum AND 0xFFFFFFFF) # mag_add (tl a) (tl b) (drop_bit 32 sum)"
        by (subst mag_add.simps) (simp only: False if_False Let_def sum_def [symmetric])
      ultimately show ?thesis using True by simp
    next
      case ne: False
      then have "max (length (tl a)) (length (tl b)) + 1 \<le> max (length a) (length b)"
        by (cases a; cases b) auto
      with False ne "1.IH" [OF False sum_def c'] show ?thesis
        by (subst mag_add.simps) (simp add: sum_def [symmetric])
    qed
  qed
qed

lemma uint_word_of_int_32: "0 \<le> k \<Longrightarrow> k < 4294967296 \<Longrightarrow> uint (word_of_int k :: u32) = k"
  by (simp add: uint_word_of_int)

lemma int_unat_u32: "int (unat (x::u32)) = uint x"
  by simp

lemma int_mag_val_Cons: "int (mag_val (x # xs)) = uint x + 4294967296 * int (mag_val xs)"
  by simp

lemma uint_u32_range: "0 \<le> uint (x::u32) \<and> uint x < 4294967296"
  using uint_lt2p [of x] by simp

lemma mag_sub_loop_correct:
  "length b \<le> length a \<Longrightarrow> 0 \<le> borrow \<Longrightarrow> borrow \<le> 1 \<Longrightarrow>
   int (mag_val b) + borrow \<le> int (mag_val a) \<Longrightarrow>
   int (mag_val (mag_sub_loop a b borrow)) = int (mag_val a) - int (mag_val b) - borrow"
proof (induction a b borrow rule: mag_sub_loop.induct)
  case (1 b borrow)
  then show ?case by simp
next
  case (2 x xs b borrow)
  define y where "y = (case b of [] \<Rightarrow> 0 | y # _ \<Rightarrow> uint y)"
  define diff where "diff = uint x - borrow - y"
  have y: "0 \<le> y" "y < 4294967296" "int (mag_val b) = y + 4294967296 * int (mag_val (tl b))"
    using uint_u32_range by (auto simp: y_def split: list.splits)
  note x = uint_u32_range [of x, THEN conjunct1] uint_u32_range [of x, THEN conjunct2]
  have len: "length (tl b) \<le> length xs" using "2.prems"(1) by simp
  have tot: "y + 4294967296 * int (mag_val (tl b)) + borrow \<le> uint x + 4294967296 * int (mag_val xs)"
    using "2.prems"(4) y(3) by simp
  show ?case
  proof (cases "diff < 0")
    case True
    then have d: "0 \<le> diff + 4294967296" "diff + 4294967296 < 4294967296"
      using x y(1,2) "2.prems"(2,3) unfolding diff_def by linarith+
    have "int (mag_val (tl b)) + 1 \<le> int (mag_val xs)"
      using tot True x y unfolding diff_def by linarith
    then have IH: "int (mag_val (mag_sub_loop xs (tl b) 1)) = int (mag_val xs) - int (mag_val (tl b)) - 1"
      using "2.IH"(1) [OF diff_def [unfolded y_def] True len] by simp
    have "mag_sub_loop (x # xs) b borrow = word_of_int (diff + 4294967296) # mag_sub_loop xs (tl b) 1"
      using True by (simp add: diff_def y_def)
    then show ?thesis
      using y(3) IH uint_word_of_int_32 [OF d] by (simp only: int_mag_val_Cons) (simp add: diff_def)
  next
    case False
    then have d: "0 \<le> diff" "diff < 4294967296"
      using x y(1,2) "2.prems"(2,3) unfolding diff_def by linarith+
    have "int (mag_val (tl b)) \<le> int (mag_val xs)"
      using tot x y "2.prems"(2) by linarith
    then have IH: "int (mag_val (mag_sub_loop xs (tl b) 0)) = int (mag_val xs) - int (mag_val (tl b))"
      using "2.IH"(2) [OF diff_def [unfolded y_def] False len] by simp
    have "mag_sub_loop (x # xs) b borrow = word_of_int diff # mag_sub_loop xs (tl b) 0"
      using False by (simp add: diff_def y_def)
    then show ?thesis
      using y(3) IH uint_word_of_int_32 [OF d] by (simp only: int_mag_val_Cons) (simp add: diff_def)
  qed
qed


lemma length_mag_sub_loop [simp]: "length (mag_sub_loop a b borrow) = length a"
  by (induction a b borrow rule: mag_sub_loop.induct) (simp_all add: Let_def)

lemma mag_sub_correct:
  assumes "mag_val b \<le> mag_val a" and "length b \<le> length a"
  shows "mag_val (mag_sub a b) = mag_val a - mag_val b"
proof -
  have "int (mag_val (mag_sub_loop a b 0)) = int (mag_val a) - int (mag_val b)"
    using mag_sub_loop_correct [of b a 0] assms by simp
  then have "mag_val (mag_sub_loop a b 0) = mag_val a - mag_val b" by linarith
  then show ?thesis by (simp add: mag_sub_def)
qed

section \<open>Signed addition\<close>

lemma bi_wf_from_i64_0 [simp, wf_intros]: "bi_wf (bigint_from_i64 0)"
  by (simp add: bigint_from_i64_def bi_wf_def)

lemma bi_wf_add [simp, wf_intros]: "bi_wf (bigint_add a b)"
  by (auto simp: bigint_add_def Let_def)

lemma mag_add_val: "mag_val (mag_add a b 0) = mag_val a + mag_val b"
  using mag_add_correct [of 0 a b] by simp

lemma bi_wf_length_le:
  assumes "mag_val (limbs b) \<le> mag_val (limbs a)" and "bi_wf b"
  shows "length (limbs b) \<le> length (limbs a)"
  using mag_val_less_length [of "limbs a" "limbs b"] bi_wf_limbs [OF assms(2)] assms(1) by fastforce

lemma bigint_add_correct [limb_simps]:
  assumes "bi_wf a" and "bi_wf b"
  shows "bi_val (bigint_add a b) = bi_val a + bi_val b"
proof (cases "sign a = sign b")
  case True
  then show ?thesis by (simp add: bigint_add_def mag_add_val) (simp add: bi_val_def)
next
  case False
  have mc: "bigint_cmp_mag a b = sgn (int (mag_val (limbs a)) - int (mag_val (limbs b)))"
    using bigint_cmp_mag_correct [OF assms] by (simp add: abs_bi_val)
  consider (eq) "mag_val (limbs a) = mag_val (limbs b)"
    | (gt) "mag_val (limbs b) < mag_val (limbs a)" | (lt) "mag_val (limbs a) < mag_val (limbs b)"
    by linarith
  then show ?thesis
  proof cases
    case eq
    with False mc show ?thesis by (simp add: bigint_add_def bigint_from_i64_def) (simp add: bi_val_def)
  next
    case gt
    then have "length (limbs b) \<le> length (limbs a)" using bi_wf_length_le [of b a] assms(2) by simp
    with False gt mc show ?thesis
      by (simp add: bigint_add_def mag_sub_correct of_nat_diff) (auto simp: bi_val_def)
  next
    case lt
    then have "length (limbs a) \<le> length (limbs b)" using bi_wf_length_le [of a b] assms(1) by simp
    with False lt mc show ?thesis
      by (simp add: bigint_add_def mag_sub_correct of_nat_diff) (auto simp: bi_val_def)
  qed
qed

lemma bi_wf_copy [simp]: "bi_wf (bigint_copy b) = bi_wf b" "bi_val (bigint_copy b) = bi_val b"
  by (simp_all add: bigint_copy_def bi_wf_def bi_val_def)

lemma bi_wf_neg [wf_intros]: "bi_wf b \<Longrightarrow> bi_wf (bigint_neg b)"
  by (auto simp: bigint_neg_def bigint_copy_def bi_wf_def bigint_is_zero_def Let_def)

lemma bigint_neg_correct [limb_simps]: "bi_val (bigint_neg b) = - bi_val b"
  by (auto simp: bigint_neg_def bigint_copy_def bi_val_def bigint_is_zero_def Let_def)

lemma bi_wf_abs [wf_intros]: "bi_wf b \<Longrightarrow> bi_wf (bigint_abs b)"
  by (auto simp: bigint_abs_def bigint_copy_def bi_wf_def split: if_splits)

lemma bigint_abs_correct [limb_simps]: "bi_val (bigint_abs b) = \<bar>bi_val b\<bar>"
  by (simp add: bigint_abs_def bigint_copy_def bi_val_def)

lemma bi_wf_sub [simp, wf_intros]: "bi_wf (bigint_sub a b)"
  by (simp add: bigint_sub_def Let_def)

lemma bigint_sub_correct [limb_simps]:
  assumes "bi_wf a" and "bi_wf b"
  shows "bi_val (bigint_sub a b) = bi_val a - bi_val b"
proof -
  have "bigint_sub a b = bigint_add a (bigint_neg b)"
    using assms(2) by (cases b) (auto simp: bigint_sub_def bigint_neg_def bigint_copy_def
        bigint_is_zero_def bi_wf_def Let_def)
  then show ?thesis
    using bigint_add_correct [OF assms(1) bi_wf_neg [OF assms(2)]] by (simp add: bigint_neg_correct)
qed

section \<open>Multiplication\<close>

lemma mul_step_bounds:
  fixes x y r :: u32 and c :: u64
  assumes "unat c < B32"
  defines "pr \<equiv> ucast x * ucast y + ucast r + c"
  shows "unat pr = unat x * unat y + unat r + unat c" and "unat (drop_bit 32 pr) < B32"
proof -
  have "unat x * unat y \<le> (B32 - 1) * (B32 - 1)"
    using unat_u32_bound [of x] unat_u32_bound [of y] by (intro mult_le_mono) simp_all
  then have xy: "unat x * unat y \<le> 18446744065119617025" by simp
  show p: "unat pr = unat x * unat y + unat r + unat c"
    using xy unat_u32_bound [of r] assms(1) by (simp add: pr_def unat_add_u64 unat_mult_u64)
  show "unat (drop_bit 32 pr) < B32"
    using p xy unat_u32_bound [of r] assms(1) by (simp add: unat_drop_bit_32)
qed

text \<open>
  One row: the rest of the array is \<open>|b|\<close> limbs of the partial product, a zero limb the carry
  goes to, and limbs not reached yet.
\<close>

lemma mul_row_correct:
  "unat c < B32 \<Longrightarrow> length lo = length b \<Longrightarrow>
   \<exists>lo'. mul_row x b (lo @ 0 # hi) c = lo' @ hi \<and> length lo' = Suc (length b) \<and>
     mag_val lo' = mag_val lo + unat x * mag_val b + unat c"
proof (induction b arbitrary: lo c)
  case Nil
  have "unat (ucast c :: u32) = unat c" using Nil.prems by (simp add: unat_ucast_64_32)
  with Nil show ?case by (intro exI [of _ "[ucast c]"]) auto
next
  case (Cons y ys)
  then obtain r lo2 where lo: "lo = r # lo2" "length lo2 = length ys" by (cases lo) auto
  define pr where "pr = ucast x * ucast y + ucast r + c"
  note b = mul_step_bounds [OF Cons.prems(1), of x y r, folded pr_def]
  obtain lo' where IH: "mul_row x ys (lo2 @ 0 # hi) (drop_bit 32 pr) = lo' @ hi"
    "length lo' = Suc (length ys)"
    "mag_val lo' = mag_val lo2 + unat x * mag_val ys + unat pr div B32"
    using Cons.IH [OF b(2) lo(2)] by (auto simp: unat_drop_bit_32)
  show ?case
  proof (intro exI conjI)
    show "mul_row x (y # ys) (lo @ 0 # hi) c = (ucast (pr AND 0xFFFFFFFF) # lo') @ hi"
      using IH(1) lo by (simp add: Let_def pr_def)
    have "unat pr mod B32 + B32 * (unat pr div B32) = unat pr" by simp
    then show "mag_val (ucast (pr AND 0xFFFFFFFF) # lo') =
        mag_val lo + unat x * mag_val (y # ys) + unat c"
      using IH(3) lo b(1)
      by (simp only: mag_val.simps ucast_and_mask32 unat_ucast_64_32) (simp add: algebra_simps)
  qed (simp add: IH(2))
qed

lemma mul_rows_correct:
  "length lo = length b \<Longrightarrow>
     mag_val (mul_rows a b (lo @ replicate (length a) 0)) = mag_val lo + mag_val a * mag_val b"
proof (induction a arbitrary: lo)
  case Nil
  then show ?case by simp
next
  case (Cons x xs)
  obtain lo' where r: "mul_row x b (lo @ 0 # replicate (length xs) 0) 0 = lo' @ replicate (length xs) 0"
    "length lo' = Suc (length b)" "mag_val lo' = mag_val lo + unat x * mag_val b"
    using mul_row_correct [of 0 lo b x] Cons.prems by auto
  then obtain r0 lo2 where lo': "lo' = r0 # lo2" "length lo2 = length b" by (cases lo') auto
  have "mag_val (mul_rows (x # xs) b (lo @ replicate (length (x # xs)) 0))
      = unat r0 + B32 * (mag_val lo2 + mag_val xs * mag_val b)"
    using r lo' Cons.IH [OF lo'(2)] by simp
  also have "\<dots> = mag_val lo' + B32 * (mag_val xs * mag_val b)"
    using lo' by (simp add: algebra_simps)
  finally show ?case using r(3) by (simp add: algebra_simps)
qed

lemma bi_wf_mul [simp, wf_intros]: "bi_wf (bigint_mul a b)"
  by (simp add: bigint_mul_def)

lemma bigint_mul_correct [limb_simps]: "bi_val (bigint_mul a b) = bi_val a * bi_val b"
proof (cases "bigint_is_zero a \<or> bigint_is_zero b")
  case True
  then show ?thesis by (auto simp: bigint_mul_def bigint_is_zero_def bigint_from_i64_def bi_val_def)
next
  case False
  have "replicate (length (limbs a) + length (limbs b)) (0::u32) =
      replicate (length (limbs b)) 0 @ replicate (length (limbs a)) 0"
    by (simp add: replicate_add [symmetric] add.commute)
  then have "mag_val (mul_rows (limbs a) (limbs b) (replicate (length (limbs a) + length (limbs b)) 0))
      = mag_val (limbs a) * mag_val (limbs b)"
    using mul_rows_correct [of "replicate (length (limbs b)) 0" "limbs b" "limbs a"] by simp
  with False show ?thesis by (simp add: bigint_mul_def) (auto simp: bi_val_def)
qed

section \<open>Division by a limb\<close>

lemma or_shift_eq_add:
  fixes h l :: u64
  assumes "unat l < 2 ^ s"
  shows "push_bit s h OR l = push_bit s h + l"
proof (rule disjunctive_add_eq_or [symmetric])
  show "push_bit s h AND l = 0"
  proof (rule bit_eqI)
    fix n assume "possible_bit TYPE(64 word) n"
    have "\<not> bit l n" if "s \<le> n"
    proof -
      have "unat l < 2 ^ n" using assms that by (meson order_less_le_trans power_increasing one_le_numeral)
      then have "\<not> bit (unat l) n" by (simp add: bit_iff_odd)
      then show ?thesis by (simp add: bit_unsigned_iff)
    qed
    then show "bit (push_bit s h AND l) n = bit 0 n" by (auto simp: bit_simps)
  qed
qed

lemma unat_push_bit_u64: "unat h * 2 ^ s < 18446744073709551616 \<Longrightarrow> unat (push_bit s h :: u64) = unat h * 2 ^ s"
  by (subst unsigned_push_bit_eq) (simp add: push_bit_eq_mult take_bit_nat_eq_self)

lemma unat_shift_or:
  assumes "unat (l::u64) < 2 ^ s" and "unat h * 2 ^ s + unat l < 18446744073709551616"
  shows "unat (push_bit s h OR l) = unat h * 2 ^ s + unat l"
  using assms by (simp add: or_shift_eq_add unat_add_u64 unat_push_bit_u64)

lemma unat_hi_lo:
  assumes "unat (r::u64) < B32"
  shows "unat (push_bit 32 r OR ucast (x::u32)) = unat r * B32 + unat x"
  using assms unat_u32_bound [of x] by (subst unat_shift_or) simp_all

lemma unat_ucast_lt [simp]: "unat (c::u64) < B32 \<Longrightarrow> unat (ucast c :: u32) = unat c"
  by (simp add: unat_ucast_64_32)

lemma mag_div_loop_correct:
  assumes "d \<noteq> 0" and "mag_div_loop xs d = (qs, rem)"
  shows "mag_val qs * unat d + unat rem = mag_val xs \<and> unat rem < unat d \<and> length qs = length xs"
  using assms(2)
proof (induction xs arbitrary: qs rem)
  case Nil
  then show ?case using assms(1) by (simp add: unat_gt_0)
next
  case (Cons x xs)
  obtain qs' rem' where l: "mag_div_loop xs d = (qs', rem')" by fastforce
  define cur where "cur = push_bit 32 rem' OR ucast x"
  have IH: "mag_val qs' * unat d + unat rem' = mag_val xs" "unat rem' < unat d" "length qs' = length xs"
    using Cons.IH [OF l] by auto
  have d: "0 < unat d" using assms(1) by (simp add: unat_gt_0)
  have cur: "unat cur = unat rem' * B32 + unat x"
    using IH(2) unat_u32_bound [of d] by (simp add: cur_def unat_hi_lo)
  have qs: "qs = ucast (cur div ucast d) # qs'" "rem = cur mod ucast d"
    using Cons.prems l by (simp_all add: cur_def Let_def)
  have "unat rem' + 1 \<le> unat d" using IH(2) by simp
  then have "(unat rem' + 1) * B32 \<le> unat d * B32" by (rule mult_le_mono1)
  then have "unat cur < unat d * B32" using cur unat_u32_bound [of x] by simp
  then have "unat cur div unat d < B32" by (simp add: less_mult_imp_div_less mult.commute)
  then have q: "unat (ucast (cur div ucast d) :: u32) = unat cur div unat d"
    by (simp add: unat_div)
  have "mag_val qs * unat d + unat rem
      = unat cur div unat d * unat d + unat cur mod unat d + B32 * (mag_val qs' * unat d)"
    by (simp add: qs q unat_mod algebra_simps)
  also have "\<dots> = unat x + B32 * (unat rem' + mag_val qs' * unat d)"
    using cur by (simp add: algebra_simps)
  finally show ?case using IH d by (simp add: qs unat_mod algebra_simps)
qed

lemma mag_div_limb_correct:
  assumes "d \<noteq> 0" and "mag_div_limb a d = (qs, rem)"
  shows "mag_val qs = mag_val a div unat d" and "unat rem = mag_val a mod unat d"
    and "qs = [] \<or> last qs \<noteq> 0"
proof -
  obtain qs' rem' where l: "mag_div_loop a d = (qs', rem')" by fastforce
  then have q: "qs = normalize_len qs'" "rem = ucast rem'"
    using assms(2) by (simp_all add: mag_div_limb_def)
  have c: "mag_val qs' * unat d + unat rem' = mag_val a" "unat rem' < unat d"
    using mag_div_loop_correct [OF assms(1) l] by auto
  have "unat rem = unat rem'" using c(2) unat_u32_bound [of d] by (simp add: q)
  then have m: "mag_val a = unat rem + unat d * mag_val qs" "unat rem < unat d"
    using c by (simp_all add: q mult.commute)
  show "mag_val qs = mag_val a div unat d" "unat rem = mag_val a mod unat d"
    using m by simp_all
  show "qs = [] \<or> last qs \<noteq> 0" using normalize_len_last [of qs'] by (auto simp: q)
qed

section \<open>Machine integers in and out\<close>

lemma limbs_of_u64_correct:
  assumes "uv \<noteq> 0"
  shows "mag_val (limbs_of_u64 uv) = unat uv" and "limbs_of_u64 uv \<noteq> []" and "last (limbs_of_u64 uv) \<noteq> 0"
proof -
  let ?h = "ucast (drop_bit 32 uv) :: u32" and ?l = "ucast (uv AND 0xFFFFFFFF) :: u32"
  have h: "unat ?h = unat uv div B32" using unat_u64_bound [of uv] by (simp add: unat_drop_bit_32)
  have l: "unat ?l = unat uv mod B32" by (simp add: ucast_and_mask32 unat_ucast_64_32)
  show "limbs_of_u64 uv \<noteq> []" by (simp add: limbs_of_u64_def Let_def)
  show "mag_val (limbs_of_u64 uv) = unat uv"
    using h l by (auto simp: limbs_of_u64_def Let_def)
  have "?l \<noteq> 0" if "?h = 0"
  proof -
    have "unat uv div B32 = 0" using h that by simp
    then have "unat ?l = unat uv" using l by simp
    then show ?thesis using assms by (metis unat_eq_zero unat_0)
  qed
  then show "last (limbs_of_u64 uv) \<noteq> 0" by (auto simp: limbs_of_u64_def Let_def)
qed

lemma bigint_from_u64_correct:
  "bi_val (bigint_from_u64 v) = int (unat v)" "bi_wf (bigint_from_u64 v)"
  using limbs_of_u64_correct [of v] by (auto simp: bigint_from_u64_def bi_wf_def)

lemma bigint_from_i64_correct:
  assumes "in_i64 v"
  shows "bi_val (bigint_from_i64 v) = v" "bi_wf (bigint_from_i64 v)"
proof -
  define uv :: u64 where
    "uv = (if v = INT64_MIN then word_of_int INT64_MAX + 1 else word_of_int (if v < 0 then - v else v))"
  have uv: "uint uv = \<bar>v\<bar>"
    using assms by (auto simp: uv_def i64_defs uint_word_of_int)
  have b: "bigint_from_i64 v =
      (if v = 0 then \<lparr>limbs = [], sign = False\<rparr> else \<lparr>limbs = limbs_of_u64 uv, sign = (v < 0)\<rparr>)"
    by (simp add: bigint_from_i64_def uv_def Let_def)
  have "uv \<noteq> 0" if "v \<noteq> 0" using uv that by auto
  then show "bi_val (bigint_from_i64 v) = v" "bi_wf (bigint_from_i64 v)"
    using uv limbs_of_u64_correct [of uv] by (auto simp: b bi_wf_def)
qed

lemma low_mag_correct:
  assumes "ls \<noteq> []" and "length ls \<le> 2"
  shows "unat (low_mag ls) = mag_val ls"
proof (cases "length ls = 2")
  case True
  then obtain x y where ls: "ls = [x, y]" by (auto simp: length_Suc_conv numeral_2_eq_2)
  have "ucast x OR push_bit 32 (ucast y) = push_bit 32 (ucast y) OR (ucast x :: u64)"
    by (rule or.commute)
  then show ?thesis using unat_u32_bound [of x] unat_u32_bound [of y]
    by (simp add: ls low_mag_def unat_hi_lo)
next
  case False
  with assms obtain x where "ls = [x]" by (cases ls) (auto simp: le_Suc_eq)
  then show ?thesis by (simp add: low_mag_def)
qed

lemma i64_word_consts:
  "unat (word_of_int INT64_MAX + 1 :: u64) = 9223372036854775808"
  "unat (word_of_int INT64_MAX :: u64) = 9223372036854775807"
  by (simp_all add: INT64_MAX_def)

text \<open>A number of more than two limbs is at least \<open>2^64\<close>.\<close>

lemma mag_val_long: "2 < length ls \<Longrightarrow> last ls \<noteq> 0 \<Longrightarrow> B32 * B32 \<le> mag_val ls"
proof -
  assume a: "2 < length ls" "last ls \<noteq> 0"
  have "B32 ^ 2 \<le> B32 ^ (length ls - 1)" using a(1) by (intro power_increasing) simp_all
  also have "\<dots> \<le> mag_val ls" using a by (intro mag_val_last_nonzero) auto
  finally show ?thesis by (simp add: power2_eq_square)
qed

lemma bigint_fits_i64_correct:
  assumes "bi_wf b"
  shows "bigint_fits_i64 b \<longleftrightarrow> in_i64 (bi_val b)"
proof (cases "2 < length (limbs b)")
  case True
  then have "B32 * B32 \<le> mag_val (limbs b)"
    using bi_wf_limbs [OF assms] by (intro mag_val_long) auto
  with True show ?thesis by (auto simp: bigint_fits_i64_def bi_val_def i64_defs)
next
  case False
  show ?thesis
  proof (cases "limbs b = []")
    case True
    then show ?thesis by (simp add: bigint_fits_i64_def bi_val_def i64_defs)
  next
    case ne: False
    then have "unat (low_mag (limbs b)) = mag_val (limbs b)" using False by (simp add: low_mag_correct)
    with False ne show ?thesis
      by (auto simp: bigint_fits_i64_def bi_val_def i64_defs Let_def word_le_nat_alt i64_word_consts
          simp del: word_of_int_numeral)
  qed
qed

lemma sint_u64_small:
  assumes "unat (w::u64) < 9223372036854775808"
  shows "sint w = int (unat w)"
proof -
  have "int (unat w) < 9223372036854775808" using assms by linarith
  then have "uint w < 9223372036854775808" by simp
  moreover have "- (2 ^ 63) \<le> uint w" by (rule order_trans [of _ 0]) simp_all
  ultimately have "signed_take_bit 63 (uint w) = uint w" by (intro signed_take_bit_int_eq_self) simp_all
  then show ?thesis by (simp add: sint_uint)
qed

lemma bigint_to_i64_correct:
  assumes "bi_wf b" and "in_i64 (bi_val b)"
  shows "bigint_to_i64 b = bi_val b"
proof (cases "limbs b = []")
  case True
  then show ?thesis by (simp add: bigint_to_i64_def bi_val_def)
next
  case False
  have "bigint_fits_i64 b" using assms bigint_fits_i64_correct by simp
  then have len: "length (limbs b) \<le> 2" by (auto simp: bigint_fits_i64_def split: if_splits)
  have low: "unat (low_mag (limbs b)) = mag_val (limbs b)" using False len by (simp add: low_mag_correct)
  show ?thesis
  proof (cases "mag_val (limbs b) = 9223372036854775808")
    case True
    then have "sign b" using assms(2) by (auto simp: bi_val_def i64_defs split: if_splits)
    moreover have "low_mag (limbs b) = word_of_int INT64_MAX + 1"
      using low True i64_word_consts(1) by (metis unsigned_word_eqI)
    ultimately show ?thesis using False True by (simp add: bigint_to_i64_def bi_val_def INT64_MIN_def)
  next
    case ne: False
    then have m: "mag_val (limbs b) < 9223372036854775808"
      using assms(2) by (auto simp: bi_val_def i64_defs split: if_splits)
    then have "low_mag (limbs b) \<noteq> word_of_int INT64_MAX + 1"
      using low i64_word_consts(1) by (metis less_irrefl)
    with False m low show ?thesis
      by (simp add: bigint_to_i64_def bi_val_def Let_def sint_u64_small)
  qed
qed

lemma bigint_cmp_i64_correct:
  assumes "bi_wf a" and "in_i64 v"
  shows "bigint_cmp_i64 a v = sgn (bi_val a - v)"
  using assms by (simp add: bigint_cmp_i64_def bigint_cmp_correct bigint_from_i64_correct)

end
