(* ===== verification/XBigIntOps.thy ===== *)
theory XBigIntOps
  imports XBigIntArith
begin

text \<open>
  The second half of \<open>src/core/xs_bigint.c\<close>: strings in any base, schoolbook long division
  with quotient digit estimation, powers, the bitwise operations and the shifts. Where the C
  code has no defined result (a loop that never ends, a shift count that overflows \<open>int\<close>,
  the negation of \<open>INT64_MIN\<close>) the model's result is \<open>None\<close>.
\<close>

section \<open>Strings\<close>

text \<open>The digit a character stands for in \<open>bigint_from_str\<close>: \<open>0-9\<close>, \<open>a-f\<close>, \<open>A-F\<close>.\<close>

definition str_digit :: "char \<Rightarrow> nat option" where
  "str_digit c =
     (let k = of_char c :: nat
      in if 48 \<le> k \<and> k \<le> 57 then Some (k - 48)
         else if 97 \<le> k \<and> k \<le> 102 then Some (k - 97 + 10)
         else if 65 \<le> k \<and> k \<le> 70 then Some (k - 65 + 10)
         else None)"

definition skip_radix_prefix :: "int \<Rightarrow> string \<Rightarrow> int \<times> string" where
  "skip_radix_prefix base s =
     (case s of
        c0 # c1 # r \<Rightarrow>
          if base = 0 then
            (if c0 = CHR ''0'' \<and> (c1 = CHR ''x'' \<or> c1 = CHR ''X'') then (16, r)
             else if c0 = CHR ''0'' \<and> (c1 = CHR ''b'' \<or> c1 = CHR ''B'') then (2, r)
             else if c0 = CHR ''0'' \<and> (c1 = CHR ''o'' \<or> c1 = CHR ''O'') then (8, r)
             else (10, s))
          else if base = 16 \<and> c0 = CHR ''0'' \<and> (c1 = CHR ''x'' \<or> c1 = CHR ''X'') then (base, r)
          else if base = 2 \<and> c0 = CHR ''0'' \<and> (c1 = CHR ''b'' \<or> c1 = CHR ''B'') then (base, r)
          else if base = 8 \<and> c0 = CHR ''0'' \<and> (c1 = CHR ''o'' \<or> c1 = CHR ''O'') then (base, r)
          else (base, s)
      | _ \<Rightarrow> (if base = 0 then 10 else base, s))"

fun from_str_loop :: "int \<Rightarrow> bigint \<Rightarrow> bigint \<Rightarrow> string \<Rightarrow> bigint" where
  "from_str_loop base bbase result [] = result"
| "from_str_loop base bbase result (c # cs) =
     (if c = CHR ''_'' then from_str_loop base bbase result cs
      else case str_digit c of
        None \<Rightarrow> result
      | Some digit \<Rightarrow>
          if base \<le> int digit then result
          else from_str_loop base bbase
                 (bigint_add (bigint_mul result bbase) (bigint_from_i64 (int digit))) cs)"

definition bigint_from_str :: "string \<Rightarrow> int \<Rightarrow> bigint" where
  "bigint_from_str s base =
     (if s = [] then bigint_from_i64 0
      else let sg = (hd s = CHR ''-'');
               s1 = (if hd s = CHR ''-'' \<or> hd s = CHR ''+'' then tl s else s);
               (base1, s2) = skip_radix_prefix base s1;
               result = from_str_loop base1 (bigint_from_i64 base1) (bigint_from_i64 0) s2
           in result\<lparr>sign := (if bigint_is_zero result then False else sg)\<rparr>)"

definition digit_chars :: string where
  "digit_chars = ''0123456789abcdefghijklmnopqrstuvwxyz''"

text \<open>
  The digit loop of \<open>bigint_to_str\<close>, least significant digit first. The caller has made the
  base at least 2, which is what the loop's termination needs.
\<close>

function to_str_loop :: "u32 list \<Rightarrow> u32 \<Rightarrow> string" where
  "to_str_loop ls base =
     (if ls = [] \<or> base < 2 then []
      else let (q, rem) = mag_div_limb ls base
           in digit_chars ! unat rem # to_str_loop q base)"
  by pat_completeness auto
termination
proof (relation "measures [\<lambda>(ls, base). mag_val ls, \<lambda>(ls, base). length ls]", goal_cases)
  case 1
  show ?case by simp
next
  case (2 ls base x q rem)
  have b: "base \<noteq> 0" "2 \<le> unat base" using 2 by (auto simp: word_le_nat_alt not_less)
  have q: "mag_val q = mag_val ls div unat base" "q = [] \<or> last q \<noteq> 0"
    using mag_div_limb_correct [OF b(1)] 2 by metis+
  show ?case
  proof (cases "mag_val ls = 0")
    case True
    then have "q = []" using q mag_val_eq_0_iff [OF q(2)] by simp
    with True 2 show ?thesis by simp
  next
    case False
    then have "mag_val ls div unat base < mag_val ls" using b(2) by simp
    with q show ?thesis by simp
  qed
qed

declare to_str_loop.simps [simp del]

definition bigint_to_str :: "bigint \<Rightarrow> int \<Rightarrow> string" where
  "bigint_to_str b base =
     (let base = (if base < 2 \<or> 36 < base then 10 else base)
      in if length (limbs b) = 0 then ''0''
         else let buf = to_str_loop (limbs b) (word_of_int base)
              in rev (if sign b then buf @ ''-'' else buf))"

section \<open>Long division\<close>

text \<open>The normalising shift: \<open>while (!(top & 0x80000000u))\<close>, which never ends on 0.\<close>

partial_function (option) div_shift :: "u32 \<Rightarrow> nat \<Rightarrow> nat option" where
  "div_shift t shift =
     (if t AND 0x80000000 = 0 then div_shift (push_bit 1 t) (shift + 1) else Some shift)"

fun shl_loop :: "nat \<Rightarrow> u32 list \<Rightarrow> u64 \<Rightarrow> u32 list \<times> u64" where
  "shl_loop s [] carry = ([], carry)"
| "shl_loop s (x # xs) carry =
     (let val = push_bit s (ucast x) OR carry;
          (rs, c) = shl_loop s xs (drop_bit 32 val)
      in (ucast (val AND 0xFFFFFFFF) # rs, c))"

text \<open>The refinement of the estimated quotient digit, with its \<open>break\<close>.\<close>

function refine_qhat :: "u64 \<Rightarrow> u64 \<Rightarrow> u32 \<Rightarrow> u32 \<Rightarrow> u32 \<Rightarrow> u64" where
  "refine_qhat q_hat r_hat vn1 vn2 u2 =
     (if 0x100000000 \<le> q_hat \<or> push_bit 32 r_hat + ucast u2 < q_hat * ucast vn2
      then let q' = q_hat - 1; r' = r_hat + ucast vn1
           in if 0x100000000 \<le> r' then q' else refine_qhat q' r' vn1 vn2 u2
      else q_hat)"
  by pat_completeness auto
termination
proof (relation "measure (\<lambda>(q, r, v1, v2, u). unat q)", goal_cases)
  case 1
  show ?case by simp
next
  case (2 q_hat r_hat vn1 vn2 u2 q' r')
  then have "q_hat \<noteq> 0" by auto
  with 2 show ?case by (simp add: unat_minus_one unat_gt_0)
qed

declare refine_qhat.simps [simp del]

text \<open>
  Multiply and subtract; \<open>diff\<close> and \<open>borrow_s\<close> are signed, \<open>>>\<close> on them is arithmetic.
\<close>

fun mulsub :: "u64 \<Rightarrow> u32 list \<Rightarrow> u32 list \<Rightarrow> int \<Rightarrow> u32 list \<times> int" where
  "mulsub q_hat (v # vs) (u # us) borrow =
     (let pr = q_hat * ucast v;
          diff = uint u - uint (pr AND 0xFFFFFFFF) + borrow;
          (rs, b) = mulsub q_hat vs us (drop_bit 32 diff - uint (drop_bit 32 pr))
      in (word_of_int diff # rs, b))"
| "mulsub q_hat vs us borrow = ([], borrow)"

fun addback :: "u32 list \<Rightarrow> u32 list \<Rightarrow> u64 \<Rightarrow> u32 list \<times> u64" where
  "addback (v # vs) (u # us) carry =
     (let sum = ucast u + ucast v + carry;
          (rs, c) = addback vs us (drop_bit 32 sum)
      in (ucast (sum AND 0xFFFFFFFF) # rs, c))"
| "addback vs us carry = ([], carry)"

text \<open>One round of the loop over \<open>j\<close>: the quotient limb and the new \<open>u\<close>.\<close>

definition div_step :: "u32 list \<Rightarrow> nat \<Rightarrow> u32 list \<Rightarrow> u32 \<times> u32 list" where
  "div_step v j u =
     (let n = length v; vn1 = v ! (n - 1); vn2 = v ! (n - 2);
          u_hi = push_bit 32 (ucast (u ! (j + n))) OR ucast (u ! (j + n - 1)) :: u64;
          q_hat = refine_qhat (u_hi div ucast vn1) (u_hi mod ucast vn1) vn1 vn2 (u ! (j + n - 2));
          (w, borrow_s) = mulsub q_hat v (take n (drop j u)) 0;
          diff = uint (u ! (j + n)) + borrow_s;
          utop = word_of_int diff
      in if diff < 0
         then let (w', carry) = addback v w 0
              in (ucast q_hat - 1, take j u @ w' @ [utop + ucast carry] @ drop (j + n + 1) u)
         else (ucast q_hat, take j u @ w @ [utop] @ drop (j + n + 1) u))"

text \<open>The loop \<open>j = m, \<dots>, 0\<close>; its first argument is the number of rounds left, \<open>j + 1\<close>.\<close>

fun div_loop :: "nat \<Rightarrow> u32 list \<Rightarrow> u32 list \<Rightarrow> u32 list \<times> u32 list" where
  "div_loop 0 v u = ([], u)"
| "div_loop (Suc j) v u =
     (let (qj, u') = div_step v j u; (qs, u'') = div_loop j v u'
      in (qs @ [qj], u''))"

fun shr_loop :: "nat \<Rightarrow> u32 list \<Rightarrow> u32 list \<times> u32" where
  "shr_loop s [] = ([], 0)"
| "shr_loop s (x # xs) =
     (let (rs, carry) = shr_loop s xs;
          val = push_bit 32 (ucast carry) OR ucast x :: u64
      in (ucast (drop_bit s val) # rs, ucast (val AND ucast (push_bit s (1::u32) - 1))))"

definition bigint_long_div :: "bigint \<Rightarrow> bigint \<Rightarrow> (bigint \<times> bigint) option" where
  "bigint_long_div a b =
     (let n = length (limbs b); m = length (limbs a) - n
      in case div_shift (limbs b ! (n - 1)) 0 of
           None \<Rightarrow> None
         | Some shift \<Rightarrow>
             let u = (if 0 < shift then (let (us, carry) = shl_loop shift (limbs a) 0 in us @ [ucast carry])
                      else limbs a @ [0]);
                 v = (if 0 < shift then fst (shl_loop shift (limbs b) 0) else limbs b);
                 (qs, u') = div_loop (m + 1) v u;
                 r = (if 0 < shift then fst (shr_loop shift (take n u')) else take n u')
             in Some (bigint_normalize \<lparr>limbs = qs, sign = (sign a \<noteq> sign b)\<rparr>,
                      bigint_normalize \<lparr>limbs = r, sign = sign a\<rparr>))"

definition bigint_divmod :: "bigint \<Rightarrow> bigint \<Rightarrow> (bigint \<times> bigint) option" where
  "bigint_divmod a b =
     (if bigint_is_zero b then Some (bigint_from_i64 0, bigint_from_i64 0)
      else let mc = bigint_cmp_mag a b
           in if mc < 0 then Some (bigint_from_i64 0, bigint_copy a)
              else if mc = 0
              then Some ((bigint_from_i64 1)\<lparr>sign := (sign a \<noteq> sign b)\<rparr>, bigint_from_i64 0)
              else if length (limbs b) = 1
              then let (qs, rem) = mag_div_limb (limbs a) (limbs b ! 0);
                       q = \<lparr>limbs = qs, sign = (if qs = [] then False else sign a \<noteq> sign b)\<rparr>;
                       r = bigint_from_u64 (ucast rem)
                   in Some (q, r\<lparr>sign := (if bigint_is_zero r then False else sign a)\<rparr>)
              else bigint_long_div a b)"

definition bigint_div :: "bigint \<Rightarrow> bigint \<Rightarrow> bigint option" where
  "bigint_div a b = map_option fst (bigint_divmod a b)"

definition bigint_mod :: "bigint \<Rightarrow> bigint \<Rightarrow> bigint option" where
  "bigint_mod a b = map_option snd (bigint_divmod a b)"

section \<open>Powers\<close>

text \<open>The square-and-multiply loop on \<open>e\<close>; the last squaring is skipped.\<close>

function pow_loop :: "bigint \<Rightarrow> bigint \<Rightarrow> nat \<Rightarrow> bigint" where
  "pow_loop result b e =
     (if e = 0 then result
      else let result' = (if odd e then bigint_mul result b else result);
               e' = e div 2;
               b' = (if 0 < e' then bigint_mul b b else b)
           in pow_loop result' b' e')"
  by pat_completeness auto
termination
  by (relation "measure (\<lambda>(r, b, e). e)") auto

declare pow_loop.simps [simp del]

definition bigint_pow :: "bigint \<Rightarrow> int \<Rightarrow> bigint" where
  "bigint_pow base exp =
     (if exp < 0
      then if length (limbs base) = 1 \<and> limbs base ! 0 = 1
           then if sign base \<and> odd exp then bigint_from_i64 (-1) else bigint_from_i64 1
           else bigint_from_i64 0
      else if exp = 0 then bigint_from_i64 1
      else let result = pow_loop (bigint_from_i64 1) ((bigint_copy base)\<lparr>sign := False\<rparr>) (nat exp)
           in if sign base \<and> odd exp then result\<lparr>sign := True\<rparr> else result)"

section \<open>Bitwise operations\<close>

text \<open>The loop to the longer operand's length, a missing limb read as 0.\<close>

fun zip_limbs :: "(u32 \<Rightarrow> u32 \<Rightarrow> u32) \<Rightarrow> u32 list \<Rightarrow> u32 list \<Rightarrow> u32 list" where
  "zip_limbs f [] [] = []"
| "zip_limbs f (x # xs) [] = f x 0 # zip_limbs f xs []"
| "zip_limbs f [] (y # ys) = f 0 y # zip_limbs f [] ys"
| "zip_limbs f (x # xs) (y # ys) = f x y # zip_limbs f xs ys"

definition bigint_and :: "bigint \<Rightarrow> bigint \<Rightarrow> bigint" where
  "bigint_and a b =
     (if sign a \<or> sign b then bigint_from_i64 0
      else let len = min (length (limbs a)) (length (limbs b))
           in if len = 0 then bigint_from_i64 0
              else bigint_normalize
                \<lparr>limbs = map2 (AND) (take len (limbs a)) (take len (limbs b)), sign = False\<rparr>)"

definition bigint_or :: "bigint \<Rightarrow> bigint \<Rightarrow> bigint" where
  "bigint_or a b =
     (if sign a \<or> sign b then bigint_from_i64 0
      else if max (length (limbs a)) (length (limbs b)) = 0 then bigint_from_i64 0
      else bigint_normalize \<lparr>limbs = zip_limbs (OR) (limbs a) (limbs b), sign = False\<rparr>)"

definition bigint_xor :: "bigint \<Rightarrow> bigint \<Rightarrow> bigint" where
  "bigint_xor a b =
     (if sign a \<or> sign b then bigint_from_i64 0
      else if max (length (limbs a)) (length (limbs b)) = 0 then bigint_from_i64 0
      else bigint_normalize \<lparr>limbs = zip_limbs (XOR) (limbs a) (limbs b), sign = False\<rparr>)"

section \<open>Shifts\<close>

text \<open>
  The limb count of a shift is cast to \<open>int\<close>: \<open>(int)(shift / LIMB_BITS)\<close> keeps the low 32
  bits. A negative count then indexes outside the arrays, and a length past \<open>INT_MAX\<close>
  overflows: \<open>None\<close>. The two functions call each other on a negative shift, where the
  negation of \<open>INT64_MIN\<close> overflows.
\<close>

definition c_int :: "int \<Rightarrow> int" where
  "c_int x = (x + 2147483648) mod 4294967296 - 2147483648"

definition shl_nonneg :: "bigint \<Rightarrow> int \<Rightarrow> bigint option" where
  "shl_nonneg a shift =
     (if bigint_is_zero a \<or> shift = 0 then Some (bigint_copy a)
      else let limb_shift = c_int (shift div 32);
               bit_shift = nat (shift mod 32);
               (rs, carry) = shl_loop bit_shift (limbs a) 0
           in if limb_shift < 0 \<or> 2147483647 < int (length (limbs a)) + limb_shift + 1 then None
              else Some (bigint_normalize
                \<lparr>limbs = replicate (nat limb_shift) 0 @ rs @ [if carry \<noteq> 0 then ucast carry else 0],
                 sign = sign a\<rparr>))"

fun shr_limbs :: "nat \<Rightarrow> u32 list \<Rightarrow> u32 list" where
  "shr_limbs s [] = []"
| "shr_limbs s (x # xs) =
     (drop_bit s x OR (case xs of [] \<Rightarrow> 0 | y # _ \<Rightarrow> push_bit (32 - s) y)) # shr_limbs s xs"

definition shr_nonneg :: "bigint \<Rightarrow> int \<Rightarrow> bigint option" where
  "shr_nonneg a shift =
     (if bigint_is_zero a \<or> shift = 0 then Some (bigint_copy a)
      else let limb_shift = c_int (shift div 32);
               bit_shift = nat (shift mod 32)
           in if int (length (limbs a)) \<le> limb_shift
              then Some (if sign a then bigint_from_i64 (-1) else bigint_from_i64 0)
              else if limb_shift < 0 then None
              else let ls = nat limb_shift;
                       src = drop ls (limbs a);
                       r = bigint_normalize
                         \<lparr>limbs = (if bit_shift = 0 then src else shr_limbs bit_shift src), sign = sign a\<rparr>;
                       lost = (list_ex (\<lambda>x. x \<noteq> 0) (take ls (limbs a)) \<or>
                               0 < bit_shift \<and> limbs a ! ls AND (push_bit bit_shift 1 - 1) \<noteq> 0)
                   in if sign a \<and> \<not> bigint_is_zero r \<and> lost
                      then Some ((bigint_add (r\<lparr>sign := False\<rparr>) (bigint_from_i64 1))\<lparr>sign := True\<rparr>)
                      else Some r)"

definition bigint_shl :: "bigint \<Rightarrow> int \<Rightarrow> bigint option" where
  "bigint_shl a shift =
     (if shift < 0 then if shift = INT64_MIN then None else shr_nonneg a (- shift)
      else shl_nonneg a shift)"

definition bigint_shr :: "bigint \<Rightarrow> int \<Rightarrow> bigint option" where
  "bigint_shr a shift =
     (if shift < 0 then if shift = INT64_MIN then None else shl_nonneg a (- shift)
      else shr_nonneg a shift)"

end
