(* ===== verification/XBigIntDiv.thy ===== *)
theory XBigIntDiv
  imports XBigIntOps
begin

text \<open>
  Correctness of the long division of \<open>XBigIntOps\<close>: the estimated quotient digit is the true
  digit or one more, multiply-subtract and add-back leave the remainder, and the whole
  division is C's truncated division on the represented integers.
\<close>

section \<open>The loops of the division\<close>

lemma bit31_iff: "(t::u32) AND 0x80000000 = 0 \<longleftrightarrow> unat t < 2147483648"
proof -
  have "(0x80000000::u32) = 2 ^ 31" by simp
  then have "t AND 0x80000000 = 0 \<longleftrightarrow> \<not> bit t 31"
    by (simp only: and_exp_eq_0_iff_not_bit)
  also have "\<dots> \<longleftrightarrow> unat t < 2147483648"
  proof -
    have "bit t 31 \<longleftrightarrow> bit (unat t) 31"
      by (subst bit_unsigned_iff) simp
    then have "bit t 31 \<longleftrightarrow> odd (unat t div 2147483648)"
      by (simp add: bit_iff_odd [of "unat t"])
    moreover have "unat t div 2147483648 \<le> 1" using unat_u32_bound [of t] by simp
    ultimately show ?thesis
      by (cases "unat t div 2147483648") auto
  qed
  finally show ?thesis .
qed

lemma div_shift_correct:
  "t \<noteq> 0 \<Longrightarrow> \<exists>k. div_shift t s = Some (s + k) \<and> unat t * 2 ^ k < B32"
proof (induction "B32 - unat t" arbitrary: t s rule: less_induct)
  case less
  show ?case
  proof (cases "unat t < 2147483648")
    case False
    then show ?thesis
      using unat_u32_bound [of t] by (subst div_shift.simps) (simp add: bit31_iff exI [of _ 0])
  next
    case True
    have two: "unat (push_bit 1 t) = unat t * 2"
      using True by (subst unsigned_push_bit_eq) (simp add: push_bit_eq_mult take_bit_nat_eq_self)
    have "0 < unat t" using less.prems by (simp add: unat_gt_0)
    then have "push_bit 1 t \<noteq> 0" "B32 - unat (push_bit 1 t) < B32 - unat t"
      using two True by (auto simp: unat_gt_0 [symmetric])
    then obtain k where k: "div_shift (push_bit 1 t) (s + 1) = Some (s + 1 + k)"
        "unat (push_bit 1 t) * 2 ^ k < B32"
      using less.hyps by blast
    have "div_shift t s = Some (s + Suc k)"
      using k(1) True by (subst div_shift.simps) (simp add: bit31_iff)
    then show ?thesis using k(2) two by (intro exI [of _ "Suc k"]) simp
  qed
qed

lemma pow2_32: "(2::nat) ^ 32 = B32"
  by simp

lemma unat_lo_hi: "unat (ucast (val AND 0xFFFFFFFF) :: u32) + B32 * unat (drop_bit 32 (val::u64)) = unat val"
  by (simp add: ucast_and_mask32 unat_ucast_64_32 unat_drop_bit_32)

lemma shl_loop_correct:
  "s < 32 \<Longrightarrow> unat carry < 2 ^ s \<Longrightarrow> shl_loop s xs carry = (rs, c) \<Longrightarrow>
     mag_val rs + B32 ^ length xs * unat c = mag_val xs * 2 ^ s + unat carry \<and>
     length rs = length xs \<and> unat c < 2 ^ s"
proof (induction xs arbitrary: carry rs)
  case Nil
  then show ?case by simp
next
  case (Cons x xs)
  define val where "val = push_bit s (ucast x) OR carry"
  obtain rs' where rs: "shl_loop s xs (drop_bit 32 val) = (rs', c)" "rs = ucast (val AND 0xFFFFFFFF) # rs'"
    using Cons.prems(3) by (auto simp: Let_def val_def split: prod.splits)
  have p: "(2::nat) ^ s \<le> 2 ^ 31" using Cons.prems(1) by (intro power_increasing) simp_all
  have "(unat x + 1) * 2 ^ s \<le> B32 * 2 ^ s" using unat_u32_bound [of x] by (intro mult_le_mono1) simp
  then have b: "unat x * 2 ^ s + unat carry < B32 * 2 ^ s"
    using Cons.prems(2) unfolding add_mult_distrib by linarith
  also have "\<dots> \<le> B32 * 2 ^ 31" using p by simp
  finally have val: "unat val = unat x * 2 ^ s + unat carry"
    using Cons.prems(2) by (simp add: val_def unat_shift_or)
  then have "unat (drop_bit 32 val) < 2 ^ s"
    using b by (simp add: unat_drop_bit_32 less_mult_imp_div_less mult.commute)
  then have IH: "mag_val rs' + B32 ^ length xs * unat c = mag_val xs * 2 ^ s + unat (drop_bit 32 val)"
    "length rs' = length xs" "unat c < 2 ^ s"
    using Cons.IH [OF Cons.prems(1) _ rs(1)] by auto
  have "mag_val rs + B32 ^ length (x # xs) * unat c =
      unat (ucast (val AND 0xFFFFFFFF) :: u32) + B32 * (mag_val rs' + B32 ^ length xs * unat c)"
    by (simp add: rs(2) algebra_simps)
  also have "\<dots> = unat val + B32 * (mag_val xs * 2 ^ s)"
    unfolding IH(1) using unat_lo_hi [of val] by (simp add: algebra_simps)
  finally show ?case using IH val by (simp add: rs(2) algebra_simps)
qed

lemma shr_loop_correct:
  "s < 32 \<Longrightarrow> shr_loop s xs = (rs, c) \<Longrightarrow>
     mag_val rs = mag_val xs div 2 ^ s \<and> unat c = mag_val xs mod 2 ^ s \<and> length rs = length xs"
proof (induction xs arbitrary: rs c)
  case Nil
  then show ?case by simp
next
  case (Cons x xs)
  obtain rs' c' where l: "shr_loop s xs = (rs', c')" by fastforce
  define val :: u64 where "val = push_bit 32 (ucast c') OR ucast x"
  have rs: "rs = ucast (drop_bit s val) # rs'" "c = ucast (val AND ucast (push_bit s (1::u32) - 1))"
    using Cons.prems(2) l by (simp_all add: val_def Let_def)
  have IH: "mag_val rs' = mag_val xs div 2 ^ s" "unat c' = mag_val xs mod 2 ^ s" "length rs' = length xs"
    using Cons.IH [OF Cons.prems(1) l] by auto
  have val: "unat val = unat c' * B32 + unat x"
    using unat_u32_bound [of c'] by (simp add: val_def unat_hi_lo)
  have c's: "unat c' + 1 \<le> 2 ^ s" using IH(2) by (simp add: Suc_le_eq)
  then have "(unat c' + 1) * B32 \<le> 2 ^ s * B32" by (rule mult_le_mono1)
  then have "unat val < 2 ^ s * B32" using val unat_u32_bound [of x] by simp
  then have "unat val div 2 ^ s < B32"
    by (simp add: less_mult_imp_div_less mult.commute)
  moreover have "unat (drop_bit s val) = unat val div 2 ^ s"
    by (subst unat_drop_bit_eq) (simp add: drop_bit_eq_div)
  ultimately have h: "unat (ucast (drop_bit s val) :: u32) = unat val div 2 ^ s"
    by (metis unat_ucast_lt)
  have "push_bit s (1::u32) - 1 = mask s" by (simp add: mask_eq_exp_minus_1 push_bit_eq_mult)
  moreover have "ucast (mask s :: u32) = (mask s :: u64)"
    using Cons.prems(1) by (intro bit_word_eqI) (auto simp: bit_simps)
  ultimately have "val AND ucast (push_bit s (1::u32) - 1) = take_bit s val"
    by (simp add: take_bit_eq_mask)
  moreover have "(2::nat) ^ s \<le> 2 ^ 31" using Cons.prems(1) by (intro power_increasing) simp_all
  then have "(2::nat) ^ s < B32" by simp
  then have "unat val mod 2 ^ s < B32"
    by (rule less_trans [rotated]) simp
  moreover have "unat (take_bit s val) = unat val mod 2 ^ s"
    by (subst unsigned_take_bit_eq) (simp add: take_bit_eq_mod)
  ultimately have c: "unat c = unat val mod 2 ^ s"
    by (simp only: rs(2) unat_ucast_64_32) simp
  have tot: "mag_val (x # xs) = unat val + 2 ^ s * (B32 * mag_val rs')"
  proof -
    have X: "mag_val xs = mag_val rs' * 2 ^ s + unat c'" by (simp only: IH div_mult_mod_eq)
    show ?thesis unfolding mag_val.simps X val by (simp add: algebra_simps)
  qed
  have "mag_val (x # xs) div 2 ^ s = unat val div 2 ^ s + B32 * mag_val rs'"
    unfolding tot by (subst div_mult_self2) simp_all
  moreover have "mag_val (x # xs) mod 2 ^ s = unat val mod 2 ^ s"
    unfolding tot by (rule mod_mult_self2)
  ultimately show ?case using h c IH(3) by (simp add: rs(1))
qed

lemma mulsub_correct:
  "unat q < B32 \<Longrightarrow> length us = length vs \<Longrightarrow> mulsub q vs us b = (rs, bo) \<Longrightarrow>
     int (mag_val rs) + int (B32 ^ length vs) * bo = int (mag_val us) + b - int (unat q) * int (mag_val vs) \<and>
     length rs = length vs"
proof (induction q vs us b arbitrary: rs bo rule: mulsub.induct)
  case (1 q v vs u us b)
  define pr where "pr = q * ucast v"
  define diff where "diff = uint u - uint (pr AND 0xFFFFFFFF) + b"
  obtain rs' where rs: "mulsub q vs us (drop_bit 32 diff - uint (drop_bit 32 pr)) = (rs', bo)"
      "rs = word_of_int diff # rs'"
    using "1.prems"(3) by (auto simp: Let_def pr_def diff_def split: prod.splits)
  have "unat q * unat v \<le> (B32 - 1) * (B32 - 1)"
    using "1.prems"(1) unat_u32_bound [of v] by (intro mult_le_mono) simp_all
  then have pr: "unat pr = unat q * unat v" by (simp add: pr_def unat_mult_u64)
  have lo: "uint (pr AND 0xFFFFFFFF) = uint pr mod 4294967296"
    unfolding and_mask32 by (subst unsigned_take_bit_eq) (simp add: take_bit_eq_mod)
  have hi: "uint (drop_bit 32 pr) = uint pr div 4294967296"
    using arg_cong [OF unat_drop_bit_32 [of pr], of int] by (simp add: zdiv_int)
  have d: "uint (word_of_int diff :: u32) = diff mod 4294967296" "drop_bit 32 diff = diff div 4294967296"
    by (simp_all add: uint_word_of_int drop_bit_eq_div)
  have IH: "int (mag_val rs') + int (B32 ^ length vs) * bo =
      int (mag_val us) + (diff div 4294967296 - uint pr div 4294967296) - int (unat q) * int (mag_val vs)"
      "length rs' = length vs"
    using "1.IH" [OF pr_def diff_def "1.prems"(1) _ rs(1)] "1.prems"(2) d hi by auto
  have ipr: "uint pr = int (unat q) * uint v"
    using arg_cong [OF pr, of int] by simp
  have "int (mag_val rs) + int (B32 ^ length (v # vs)) * bo =
      diff mod 4294967296 + 4294967296 * (int (mag_val rs') + int (B32 ^ length vs) * bo)"
    by (simp add: rs(2) d algebra_simps)
  also have "\<dots> = diff + 4294967296 * (int (mag_val us) - uint pr div 4294967296 - int (unat q) * int (mag_val vs))"
    unfolding IH(1) ring_distribs using minus_mod_eq_mult_div [of diff 4294967296] by linarith
  also have "\<dots> = uint u + b - uint pr + 4294967296 * (int (mag_val us) - int (unat q) * int (mag_val vs))"
    unfolding diff_def lo ring_distribs using minus_mod_eq_mult_div [of "uint pr" 4294967296] by linarith
  finally show ?case using IH(2) ipr by (simp add: rs(2) algebra_simps)
qed simp_all

lemma addback_correct:
  "length us = length vs \<Longrightarrow> unat c \<le> 1 \<Longrightarrow> addback vs us c = (rs, co) \<Longrightarrow>
     mag_val rs + B32 ^ length vs * unat co = mag_val us + mag_val vs + unat c \<and>
     length rs = length vs \<and> unat co \<le> 1"
proof (induction vs us c arbitrary: rs co rule: addback.induct)
  case (1 v vs u us c)
  define sum where "sum = ucast u + ucast v + c"
  obtain rs' where rs: "addback vs us (drop_bit 32 sum) = (rs', co)" "rs = ucast (sum AND 0xFFFFFFFF) # rs'"
    using "1.prems"(3) by (auto simp: Let_def sum_def split: prod.splits)
  have s: "unat sum = unat u + unat v + unat c"
    using unat_u32_bound [of u] unat_u32_bound [of v] "1.prems"(2) by (simp add: sum_def unat_add_u64)
  then have "unat (drop_bit 32 sum) \<le> 1"
    using unat_u32_bound [of u] unat_u32_bound [of v] "1.prems"(2) by (simp add: unat_drop_bit_32)
  then have IH: "mag_val rs' + B32 ^ length vs * unat co = mag_val us + mag_val vs + unat (drop_bit 32 sum)"
      "length rs' = length vs" "unat co \<le> 1"
    using "1.IH" [OF sum_def _ _ rs(1)] "1.prems"(1) by auto
  have "mag_val rs + B32 ^ length (v # vs) * unat co =
      unat (ucast (sum AND 0xFFFFFFFF) :: u32) + B32 * (mag_val rs' + B32 ^ length vs * unat co)"
    by (simp add: rs(2) algebra_simps)
  also have "\<dots> = unat sum + B32 * (mag_val us + mag_val vs)"
    unfolding IH(1) using unat_lo_hi [of sum] by (simp add: algebra_simps)
  finally show ?case using IH s by (simp add: rs(2) algebra_simps)
qed simp_all


section \<open>The estimate of a quotient digit\<close>

text \<open>
  \<open>uhi\<close> stands for the two top limbs of the dividend window, \<open>v1\<close> and \<open>v2\<close> for the two
  top limbs of the divisor. The loop keeps \<open>q_hat * v1 + r_hat = uhi\<close> and never goes below a
  digit \<open>Q\<close> the three-limb test admits; when it stops the test holds.
\<close>

lemma refine_qhat_correct:
  "unat q * unat vn1 + unat r = uhi \<Longrightarrow> unat r < B32 \<Longrightarrow> uhi < (unat vn1 + 1) * B32 \<Longrightarrow>
   unat vn1 \<noteq> 0 \<Longrightarrow> Q \<le> unat q \<Longrightarrow> Q < B32 \<Longrightarrow>
   Q * (unat vn1 * B32 + unat vn2) \<le> uhi * B32 + unat u2 \<Longrightarrow>
   Q \<le> unat (refine_qhat q r vn1 vn2 u2) \<and> unat (refine_qhat q r vn1 vn2 u2) < B32 \<and>
   unat (refine_qhat q r vn1 vn2 u2) * (unat vn1 * B32 + unat vn2) \<le> uhi * B32 + unat u2"
proof (induction q r vn1 vn2 u2 rule: refine_qhat.induct)
  case (1 q r vn1 vn2 u2)
  let ?test = "0x100000000 \<le> q \<or> push_bit 32 r + ucast u2 < q * ucast vn2"
  have test: "?test \<longleftrightarrow> B32 \<le> unat q \<or> unat r * B32 + unat u2 < unat q * unat vn2"
  proof (cases "B32 \<le> unat q")
    case False
    then have "unat q * unat vn2 \<le> B32 * (B32 - 1)"
      using unat_u32_bound [of vn2] by (intro mult_le_mono) simp_all
    with False "1.prems"(2) unat_u32_bound [of u2] show ?thesis
      by (simp add: word_le_nat_alt word_less_nat_alt unat_add_u64 unat_mult_u64 unat_push_bit_u64)
  qed (simp add: word_le_nat_alt)
  show ?case
  proof (cases ?test)
    case False
    then have "unat q < B32" "unat q * unat vn2 \<le> unat r * B32 + unat u2"
      using test by auto
    moreover have "refine_qhat q r vn1 vn2 u2 = q"
      using False by (subst refine_qhat.simps) (simp only: if_False)
    ultimately show ?thesis
      using "1.prems"(1,5) by (auto simp: algebra_simps)
  next
    case True
    have Qq: "Q < unat q"
    proof (cases "B32 \<le> unat q")
      case False
      then have "unat r * B32 + unat u2 < unat q * unat vn2" using True test by simp
      then have "uhi * B32 + unat u2 < unat q * (unat vn1 * B32 + unat vn2)"
        using "1.prems"(1) by (auto simp: algebra_simps)
      then have "Q * (unat vn1 * B32 + unat vn2) < unat q * (unat vn1 * B32 + unat vn2)"
        using "1.prems"(7) by linarith
      then show ?thesis by simp
    qed (use "1.prems"(6) in simp)
    define q' where "q' = q - 1"
    define r' where "r' = r + ucast vn1"
    have q': "unat q' = unat q - 1" unfolding q'_def using Qq by (intro unat_minus_one) auto
    have r': "unat r' = unat r + unat vn1"
      using "1.prems"(2) unat_u32_bound [of vn1] by (simp add: r'_def unat_add_u64)
    have inv: "unat q' * unat vn1 + unat r' = uhi"
      using "1.prems"(1) Qq by (cases "unat q") (simp_all add: q' r')
    have test': "0x100000000 \<le> r' \<longleftrightarrow> B32 \<le> unat r'" by (simp add: word_le_nat_alt)
    have eq: "refine_qhat q r vn1 vn2 u2 =
        (if 0x100000000 \<le> r' then q' else refine_qhat q' r' vn1 vn2 u2)"
      using True by (subst refine_qhat.simps) (simp only: if_True Let_def q'_def r'_def)
    show ?thesis
    proof (cases "B32 \<le> unat r'")
      case big: True
      have lt: "unat q' < B32"
      proof (rule ccontr)
        assume "\<not> unat q' < B32"
        then have "B32 * unat vn1 \<le> unat q' * unat vn1" by (intro mult_le_mono1) simp
        with inv big have "B32 * unat vn1 + B32 \<le> uhi" by linarith
        with "1.prems"(3) show False by (simp add: algebra_simps)
      qed
      have "unat q' * unat vn2 \<le> B32 * B32"
        using lt unat_u32_bound [of vn2] by (intro mult_le_mono) simp_all
      also have "\<dots> \<le> unat r' * B32" using big by (intro mult_le_mono1)
      finally have "unat q' * (unat vn1 * B32 + unat vn2) \<le> uhi * B32 + unat u2"
        unfolding inv [symmetric] by (simp add: algebra_simps)
      then show ?thesis using eq test' big lt Qq q' by simp
    next
      case small: False
      have "Q \<le> unat q'" using Qq q' by simp
      then show ?thesis
        using "1.IH" [OF True q'_def r'_def _ inv] small test' eq "1.prems"(3,4,6,7) by simp
    qed
  qed
qed

lemma take_drop_snoc:
  "j + n < length u \<Longrightarrow> take (Suc n) (drop j u) = take n (drop j u) @ [u ! (j + n)]"
  by (simp add: take_Suc_conv_app_nth)

text \<open>The estimate is the true digit or one more.\<close>

lemma qhat_within_one:
  fixes V U :: nat
  assumes n: "2 \<le> n" and v1: "v1 \<noteq> 0"
    and V: "V = (v1 * B32 + v2) * B32 ^ (n - 2) + vl" "vl < B32 ^ (n - 2)" "v2 < B32"
    and U: "U = (uhi * B32 + u2) * B32 ^ (n - 2) + ul" "ul < B32 ^ (n - 2)"
    and qh: "U div V \<le> qh" "qh < B32" "qh * (v1 * B32 + v2) \<le> uhi * B32 + u2"
  shows "qh = U div V \<or> qh = U div V + 1"
proof -
  let ?P = "B32 ^ (n - 2)"
  have "?P * B32 \<le> v1 * B32 * ?P" using v1 by (simp add: mult.commute)
  also have "\<dots> \<le> V" using V(1) by (simp add: algebra_simps)
  finally have PV: "?P * B32 \<le> V" .
  then have V0: "0 < V" by (rule less_le_trans [rotated]) simp
  have "qh * vl \<le> B32 * ?P" using qh(2) V(2) by (intro mult_le_mono) simp_all
  then have "qh * vl \<le> V" using PV by (simp add: mult.commute)
  moreover have "qh * (v1 * B32 + v2) * ?P \<le> (uhi * B32 + u2) * ?P"
    using qh(3) by (rule mult_le_mono1)
  ultimately have "qh * V \<le> U + V" using V(1) U(1) by (simp add: algebra_simps)
  then have "(qh - 1) * V \<le> U" by (simp add: diff_mult_distrib)
  then have "qh - 1 \<le> U div V" using V0 by (simp add: less_eq_div_iff_mult_less_eq)
  with qh(1) show ?thesis by linarith
qed


section \<open>One round and the loop\<close>

lemma mag_val_take_top: "0 < n \<Longrightarrow> length xs = n \<Longrightarrow> mag_val xs = mag_val (take (n - 1) xs) + B32 ^ (n - 1) * unat (xs ! (n - 1))"
proof -
  assume "0 < n" "length xs = n"
  then have "xs = take (n - 1) xs @ [xs ! (n - 1)]"
    by (metis Suc_diff_1 append_take_drop_id id_take_nth_drop take_Suc_conv_app_nth lessI take_all le_refl)
  then have "mag_val xs = mag_val (take (n - 1) xs @ [xs ! (n - 1)])" by simp
  also have "\<dots> = mag_val (take (n - 1) xs) + B32 ^ (n - 1) * unat (xs ! (n - 1))"
    unfolding mag_val_append using \<open>length xs = n\<close> by simp
  finally show ?thesis .
qed

lemma mag_val_two_top:
  assumes "2 \<le> n" and "length xs = n"
  shows "mag_val xs = (unat (xs ! (n - 1)) * B32 + unat (xs ! (n - 2))) * B32 ^ (n - 2) + mag_val (take (n - 2) xs)"
    and "mag_val (take (n - 2) xs) < B32 ^ (n - 2)"
proof -
  obtain k where n: "n = Suc (Suc k)" using assms(1) by (metis add_2_eq_Suc le_Suc_ex)
  have "mag_val (take (n - 1) xs) = mag_val (take (n - 2) xs) + B32 ^ (n - 2) * unat (xs ! (n - 2))"
    using mag_val_take_top [of "n - 1" "take (n - 1) xs"] assms by (simp add: n)
  then show "mag_val xs = (unat (xs ! (n - 1)) * B32 + unat (xs ! (n - 2))) * B32 ^ (n - 2) + mag_val (take (n - 2) xs)"
    using mag_val_take_top [of n xs] assms by (simp add: n algebra_simps)
  show "mag_val (take (n - 2) xs) < B32 ^ (n - 2)"
    using mag_val_bound [of "take (n - 2) xs"] assms by simp
qed

text \<open>The estimate of \<open>div_step\<close>, from the window \<open>u[j..j+n]\<close>.\<close>

definition div_qhat :: "u32 list \<Rightarrow> nat \<Rightarrow> u32 list \<Rightarrow> u64" where
  "div_qhat v j u =
     (let n = length v; vn1 = v ! (n - 1); vn2 = v ! (n - 2);
          u_hi = push_bit 32 (ucast (u ! (j + n))) OR ucast (u ! (j + n - 1)) :: u64
      in refine_qhat (u_hi div ucast vn1) (u_hi mod ucast vn1) vn1 vn2 (u ! (j + n - 2)))"

lemma div_qhat_correct:
  assumes n: "2 \<le> length v" and top: "last v \<noteq> 0"
    and len: "j + length v < length u"
    and U: "U = mag_val (take (Suc (length v)) (drop j u))" and U_less: "U < mag_val v * B32"
  shows "unat (div_qhat v j u) < B32"
    and "unat (div_qhat v j u) = U div mag_val v \<or> unat (div_qhat v j u) = U div mag_val v + 1"
proof -
  define k where "k = length v"
  let ?V = "mag_val v" and ?P = "B32 ^ (k - 2)"
  let ?v1 = "unat (v ! (k - 1))" and ?v2 = "unat (v ! (k - 2))"
  let ?u0 = "unat (u ! (j + k - 2))"
  define u_hi :: u64 where "u_hi = push_bit 32 (ucast (u ! (j + k))) OR ucast (u ! (j + k - 1))"
  have v1: "?v1 \<noteq> 0" 
  proof -
    have "v \<noteq> []" using n by auto
    then show ?thesis using top by (simp add: k_def last_conv_nth unat_eq_zero)
  qed
  note Vt = mag_val_two_top [OF n refl, folded k_def]
  have uhi: "unat u_hi = unat (u ! (j + k)) * B32 + unat (u ! (j + k - 1))"
    by (simp add: u_hi_def unat_hi_lo unat_u32_bound)
  let ?W = "take k (drop j u)"
  have W: "length ?W = k" "?W ! (k - 1) = u ! (j + k - 1)" "?W ! (k - 2) = u ! (j + k - 2)"
    using len n by (simp_all add: k_def)
  define ul where "ul = mag_val (take (k - 2) ?W)"
  have k2: "B32 ^ k = ?P * B32 * B32"
  proof -
    have "k = Suc (Suc (k - 2))" using n by (simp add: k_def)
    then show ?thesis by (metis power_Suc2)
  qed
  have "U = mag_val ?W + B32 ^ k * unat (u ! (j + k))"
    using len W(1) by (simp add: U take_drop_snoc k_def mag_val_append)
  then have Ut: "U = (unat u_hi * B32 + ?u0) * ?P + ul" "ul < ?P"
    using mag_val_two_top [of k ?W] W n k2 by (simp_all add: uhi ul_def k_def algebra_simps)
  have "unat u_hi * (?P * B32) \<le> U" using Ut(1) by (simp add: algebra_simps)
  also have "U < ?V * B32" by (rule U_less)
  also have "\<dots> \<le> (?v1 + 1) * (?P * B32) * B32"
  proof -
    have "?V \<le> ?v1 * B32 * ?P + (?v2 * ?P + ?P)" using Vt by (simp add: algebra_simps)
    also have "?v2 * ?P + ?P \<le> B32 * ?P"
      using unat_u32_bound [of "v ! (k - 2)"] by (metis Suc_leI add.commute mult_Suc mult_le_mono1)
    finally show ?thesis by (simp add: algebra_simps)
  qed
  finally have "unat u_hi * (?P * B32) < ((?v1 + 1) * B32) * (?P * B32)" by (simp only: ac_simps)
  then have uhi_less: "unat u_hi < (?v1 + 1) * B32" by (simp only: mult_less_cancel2)
  define q0 where "q0 = u_hi div ucast (v ! (k - 1))"
  define r0 where "r0 = u_hi mod ucast (v ! (k - 1))"
  have q0: "unat q0 = unat u_hi div ?v1" "unat r0 = unat u_hi mod ?v1"
    by (simp_all add: q0_def r0_def unat_div unat_mod)
  have dq: "div_qhat v j u = refine_qhat q0 r0 (v ! (k - 1)) (v ! (k - 2)) (u ! (j + k - 2))"
    by (simp add: div_qhat_def Let_def k_def q0_def r0_def u_hi_def)
  let ?Q = "U div ?V"
  have V0: "0 < ?V" using U_less by (cases "?V") auto
  have QB: "?Q < B32" using U_less by (simp add: less_mult_imp_div_less mult.commute)
  have Q3: "?Q * (?v1 * B32 + ?v2) \<le> unat u_hi * B32 + ?u0"
  proof -
    have "?Q * ((?v1 * B32 + ?v2) * ?P) \<le> ?Q * ?V" using Vt(1) by (intro mult_le_mono2) simp
    also have "\<dots> \<le> U" by (simp add: mult.commute)
    also have "\<dots> < (unat u_hi * B32 + ?u0 + 1) * ?P" using Ut by (simp add: algebra_simps)
    finally have "(?Q * (?v1 * B32 + ?v2)) * ?P < (unat u_hi * B32 + ?u0 + 1) * ?P"
      by (simp add: mult.assoc)
    then show ?thesis by (simp only: mult_less_cancel2) simp
  qed
  have Qq0: "?Q \<le> unat q0"
  proof -
    have "?Q * ?v1 * B32 \<le> unat u_hi * B32 + ?u0" using Q3 by (simp add: algebra_simps)
    then have "?Q * ?v1 * B32 < (unat u_hi + 1) * B32" using unat_u32_bound [of "u ! (j + k - 2)"] by simp
    then have "?Q * ?v1 \<le> unat u_hi" by (simp only: mult_less_cancel2) simp
    then show ?thesis using v1 q0 by (simp add: less_eq_div_iff_mult_less_eq)
  qed
  have r0: "unat r0 < B32" "unat q0 * ?v1 + unat r0 = unat u_hi"
    using v1 q0 unat_u32_bound [of "v ! (k - 1)"] less_trans [OF mod_less_divisor [of ?v1 "unat u_hi"]] by simp_all
  from refine_qhat_correct [OF r0(2,1) uhi_less v1 Qq0 QB Q3] dq
  have res: "?Q \<le> unat (div_qhat v j u)" "unat (div_qhat v j u) < B32"
    "unat (div_qhat v j u) * (?v1 * B32 + ?v2) \<le> unat u_hi * B32 + ?u0"
    by simp_all
  then show "unat (div_qhat v j u) < B32" by simp
  show "unat (div_qhat v j u) = ?Q \<or> unat (div_qhat v j u) = ?Q + 1"
    by (rule qhat_within_one [OF n [folded k_def] v1 Vt _ Ut res]) (rule unat_u32_bound)
qed


lemma div_step_unfold:
  "div_step v j u =
     (let n = length v; q_hat = div_qhat v j u;
          (w, borrow_s) = mulsub q_hat v (take n (drop j u)) 0;
          diff = uint (u ! (j + n)) + borrow_s;
          utop = word_of_int diff
      in if diff < 0
         then let (w', carry) = addback v w 0
              in (ucast q_hat - 1, take j u @ w' @ [utop + ucast carry] @ drop (j + n + 1) u)
         else (ucast q_hat, take j u @ w @ [utop] @ drop (j + n + 1) u))"
  by (simp add: div_step_def div_qhat_def Let_def)

lemma ucast_minus_one_32:
  assumes "unat (q::u64) < B32" and "0 < unat q"
  shows "unat (ucast q - 1 :: u32) = unat q - 1"
proof -
  have "unat (ucast q :: u32) = unat q" using assms(1) by simp
  moreover have "(ucast q :: u32) \<noteq> 0" using calculation assms(2) by auto
  ultimately show ?thesis by (simp add: unat_minus_one)
qed

lemma unat_ucast_64_32_lt: "unat (q::u64) < B32 \<Longrightarrow> unat (ucast q :: u32) = unat q"
  by (rule unat_ucast_lt)

lemma mag_val_less_base: "\<lbrakk>int (mag_val w) + int (B32 ^ n) * d = t; length w = n; 0 \<le> t; t < int (B32 ^ n)\<rbrakk> \<Longrightarrow> d = 0"
proof -
  assume a: "int (mag_val w) + int (B32 ^ n) * d = t" "length w = n" "0 \<le> t" "t < int (B32 ^ n)"
  have b: "int (mag_val w) < int (B32 ^ n)" using mag_val_bound [of w] a(2) by simp
  have "d = (int (mag_val w) + int (B32 ^ n) * d) div int (B32 ^ n)" using b by simp
  also have "\<dots> = 0" using a by simp
  finally show ?thesis .
qed

text \<open>
  One round: the quotient limb is the quotient of the window by the divisor, and the window
  becomes the remainder, one limb shorter.
\<close>

lemma div_step_correct:
  assumes n: "2 \<le> length v" and top: "last v \<noteq> 0"
    and len: "j + length v < length u"
    and U: "U = mag_val (take (Suc (length v)) (drop j u))" and U_less: "U < mag_val v * B32"
    and step: "div_step v j u = (qj, u')"
  shows "unat qj = U div mag_val v \<and>
    (\<exists>w. length w = length v \<and> mag_val w = U mod mag_val v \<and>
       u' = take j u @ w @ [0] @ drop (j + length v + 1) u)"
proof -
  define n where "n = length v"
  define q where "q = div_qhat v j u"
  let ?V = "mag_val v" and ?Bn = "B32 ^ n" and ?W = "take n (drop j u)"
  obtain w bo where ms: "mulsub q v ?W 0 = (w, bo)" by fastforce
  define diff where "diff = uint (u ! (j + n)) + bo"
  note q = div_qhat_correct [OF n top len U U_less, folded q_def]
  have W: "length ?W = length v" using len by (simp add: n_def)
  have msc: "int (mag_val w) + int ?Bn * bo = int (mag_val ?W) - int (unat q) * int ?V" "length w = n"
    using mulsub_correct [OF q(1) W ms] by (simp_all add: n_def)
  have "U = mag_val ?W + ?Bn * unat (u ! (j + n))"
    using len W by (simp add: U take_drop_snoc n_def mag_val_append)
  then have "int U = int (mag_val ?W) + int ?Bn * uint (u ! (j + n))" by simp
  then have T: "int (mag_val w) + int ?Bn * diff = int U - int (unat q) * int ?V"
    using msc(1) unfolding diff_def ring_distribs by linarith
  have V0: "0 < ?V" using U_less by (cases "?V") auto
  have Vb: "?V < ?Bn" using mag_val_bound [of v] by (simp add: n_def)
  have UV: "U = U div ?V * ?V + U mod ?V" "U mod ?V < ?V" using V0 by simp_all
  have lt: "int ?V < int ?Bn" "0 \<le> int (U mod ?V)" "int (U mod ?V) < int ?V"
    using Vb UV(2) by (simp_all only: of_nat_less_iff of_nat_0_le_iff)
  have iU: "int U = int (U div ?V) * int ?V + int (U mod ?V)"
    by (metis UV(1) of_nat_add of_nat_mult)
  show ?thesis
  proof (cases "unat q = U div ?V")
    case True
    then have "int U - int (unat q) * int ?V = int (U mod ?V)" using iU by simp
    then have t: "int (mag_val w) + int ?Bn * diff = int (U mod ?V)" using T by simp
    then have "diff = 0"
      by (rule mag_val_less_base) (use msc(2) UV(2) Vb in simp_all)
    moreover from this have "mag_val w = U mod ?V" using t by simp
    moreover have "div_step v j u = (ucast q, take j u @ w @ [word_of_int diff] @ drop (j + n + 1) u)"
      using \<open>diff = 0\<close> ms unfolding div_step_unfold q_def [symmetric] n_def [symmetric] Let_def
      by (simp add: diff_def)
    ultimately show ?thesis
      using step msc(2) q(1) True by (auto simp: n_def)
  next
    case False
    then have q1: "unat q = U div ?V + 1" using q(2) by simp
    obtain w' c where ab: "addback v w 0 = (w', c)" by fastforce
    have abc: "mag_val w' + ?Bn * unat c = mag_val w + ?V" "length w' = n"
      using addback_correct [OF _ _ ab] msc(2) by (simp_all add: n_def)
    have "int U - int (unat q) * int ?V = int (U mod ?V) - int ?V"
      using iU by (simp add: q1 algebra_simps)
    then have t: "int (mag_val w) + int ?Bn * diff = int (U mod ?V) - int ?V" using T by simp
    then have "int (mag_val w) + int ?Bn * (diff + 1) = int ?Bn + int (U mod ?V) - int ?V"
      by (simp add: algebra_simps)
    then have "diff + 1 = 0"
      by (rule mag_val_less_base) (fact msc(2), use lt in linarith, use lt in linarith)
    then have diff: "diff = -1" by simp
    then have "int (mag_val w) + int ?V = int ?Bn + int (U mod ?V)" using t by simp
    then have "mag_val w' + ?Bn * unat c = ?Bn + U mod ?V" using abc(1) by linarith
    from arg_cong [OF this, of int]
    have "int (mag_val w') + int ?Bn * int (unat c) = int ?Bn + int (U mod ?V)" by simp
    then have t': "int (mag_val w') + int ?Bn * (int (unat c) - 1) = int (U mod ?V)"
      unfolding right_diff_distrib mult_1_right by linarith
    then have "int (unat c) - 1 = 0"
      by (rule mag_val_less_base) (use abc(2) UV(2) Vb in simp_all)
    then have c: "unat c = 1" by linarith
    then have "mag_val w' = U mod ?V" using t' by simp
    moreover have "unat (ucast q - 1 :: u32) = U div ?V"
      using ucast_minus_one_32 [OF q(1)] q1 by simp
    moreover have "(word_of_int diff + ucast c :: u32) = 0"
    proof -
      have "c = 1" using c by (metis unat_1 unsigned_word_eqI)
      then show ?thesis by (simp add: diff)
    qed
    moreover have "div_step v j u =
        (ucast q - 1, take j u @ w' @ [word_of_int diff + ucast c] @ drop (j + n + 1) u)"
      using diff ms ab unfolding div_step_unfold q_def [symmetric] n_def [symmetric] Let_def
      by (simp add: diff_def [symmetric])
    ultimately show ?thesis
      using step abc(2) by (auto simp: n_def)
  qed
qed

lemma scaled_division: "U = R + V * Q \<Longrightarrow> P * U = P * R + V * (P * Q)" for P :: nat
  by (simp add: algebra_simps)

lemma div_loop_correct:
  assumes "2 \<le> length v" and "last v \<noteq> 0"
  shows "k + length v \<le> length u \<Longrightarrow> mag_val (take (length v) (drop k u)) < mag_val v \<Longrightarrow>
    div_loop k v u = (qs, u') \<Longrightarrow>
    mag_val qs = mag_val (take (k + length v) u) div mag_val v \<and>
    mag_val (take (length v) u') = mag_val (take (k + length v) u) mod mag_val v \<and> length qs = k"
proof (induction k arbitrary: u qs u')
  case 0
  then show ?case by simp
next
  case (Suc k)
  let ?n = "length v" and ?V = "mag_val v"
  obtain qj u1 where st: "div_step v k u = (qj, u1)" by fastforce
  obtain qs' where lp: "div_loop k v u1 = (qs', u')" "qs = qs' @ [qj]"
    using Suc.prems(3) st by (auto simp: Let_def split: prod.splits)
  define U where "U = mag_val (take (Suc ?n) (drop k u))"
  have kl: "k + ?n < length u" using Suc.prems(1) by simp
  have "take (Suc ?n) (drop k u) = u ! k # take ?n (drop (Suc k) u)"
    using kl assms(1) by (simp add: Cons_nth_drop_Suc [symmetric])
  then have "U = unat (u ! k) + B32 * mag_val (take ?n (drop (Suc k) u))" by (simp add: U_def)
  moreover have "B32 * (mag_val (take ?n (drop (Suc k) u)) + 1) \<le> B32 * ?V"
    using Suc.prems(2) by (intro mult_le_mono2) simp
  ultimately have U_less: "U < ?V * B32"
    using unat_u32_bound [of "u ! k"] unfolding distrib_left by (simp add: mult.commute)
  obtain w where w: "unat qj = U div ?V" "length w = ?n" "mag_val w = U mod ?V"
      "u1 = take k u @ w @ [0] @ drop (k + ?n + 1) u"
    using div_step_correct [OF assms kl U_def U_less st] by auto
  have V0: "0 < ?V" using U_less by (cases "?V") auto
  have k1: "length (take k u) = k" using kl by simp
  have l1: "k + ?n \<le> length u1" using w k1 by simp
  have d1: "take ?n (drop k u1) = w" using w(2) k1 by (simp add: w(4))
  have t1: "take (k + ?n) u1 = take k u @ w" using w(2) k1 by (simp add: w(4))
  have IH: "mag_val qs' = mag_val (take (k + ?n) u1) div ?V"
      "mag_val (take ?n u') = mag_val (take (k + ?n) u1) mod ?V" "length qs' = k"
    using Suc.IH [OF l1 _ lp(1)] d1 w(3) V0 by auto
  have T: "mag_val (take (Suc k + ?n) u) = mag_val (take k u) + B32 ^ k * U"
  proof -
    have "take (k + Suc ?n) u = take k u @ take (Suc ?n) (drop k u)" by (rule take_add)
    then show ?thesis using k1 by (simp add: U_def mag_val_append)
  qed
  have "mag_val (take (k + ?n) u1) + ?V * (B32 ^ k * (U div ?V)) = mag_val (take (Suc k + ?n) u)"
  proof -
    have "B32 ^ k * U = B32 ^ k * (U mod ?V) + ?V * (B32 ^ k * (U div ?V))"
      by (rule scaled_division) simp
    then show ?thesis unfolding T t1 mag_val_append k1 w(3) by linarith
  qed
  from this [symmetric] have "mag_val (take (Suc k + ?n) u) div ?V = mag_val (take (k + ?n) u1) div ?V + B32 ^ k * (U div ?V)"
    and "mag_val (take (Suc k + ?n) u) mod ?V = mag_val (take (k + ?n) u1) mod ?V"
    using V0 by simp_all
  then show ?case
    by (simp add: lp(2) mag_val_append IH w(1))
qed

section \<open>The whole division\<close>

lemma shift_top_bound:
  assumes "t * 2 ^ k < B32" and "0 < t"
  shows "k < 32" and "(t + 1) * 2 ^ k \<le> B32"
proof -
  have "(1::nat) * 2 ^ k \<le> t * 2 ^ k" using assms(2) by (intro mult_le_mono1) simp
  then have "(2::nat) ^ k < 2 ^ 32" using assms(1) unfolding pow2_32 mult_1 by (rule le_less_trans)
  then show k: "k < 32" by (rule power_less_imp_less_exp [rotated]) simp
  have e: "B32 = 2 ^ (32 - k) * 2 ^ k" using k unfolding power_add [symmetric] by simp
  then have "t * 2 ^ k < 2 ^ (32 - k) * 2 ^ k" using assms(1) by (simp only:)
  then have "t < 2 ^ (32 - k)" by (rule mult_less_cancel2 [THEN iffD1, THEN conjunct2])
  then have "(t + 1) * 2 ^ k \<le> 2 ^ (32 - k) * 2 ^ k" by (intro mult_le_mono1) simp
  with e show "(t + 1) * 2 ^ k \<le> B32" by simp
qed

lemma shifted_divisor:
  assumes b: "b \<noteq> []" "last b \<noteq> 0" and k: "unat (last b) * 2 ^ k < B32"
    and sl: "shl_loop k b 0 = (v, c)"
  shows "k < 32" and "mag_val v = mag_val b * 2 ^ k" and "length v = length b" and "last v \<noteq> 0"
proof -
  let ?n = "length b"
  have t0: "0 < unat (last b)" using b(2) by (simp add: unat_gt_0)
  show k32: "k < 32" by (rule shift_top_bound(1) [OF k t0])
  have s: "mag_val v + B32 ^ ?n * unat c = mag_val b * 2 ^ k" "length v = ?n"
    using shl_loop_correct [OF k32 _ sl] by auto
  show "length v = ?n" by (rule s(2))
  have e: "mag_val b = mag_val (take (?n - 1) b) + B32 ^ (?n - 1) * unat (last b)"
    using b(1) mag_val_take_top [of ?n b] by (simp add: last_conv_nth)
  have tb: "mag_val (take (?n - 1) b) < B32 ^ (?n - 1)"
    using mag_val_bound [of "take (?n - 1) b"] by simp
  have "mag_val b < B32 ^ (?n - 1) * (unat (last b) + 1)" using e tb by simp
  then have "mag_val b * 2 ^ k < B32 ^ (?n - 1) * ((unat (last b) + 1) * 2 ^ k)"
    unfolding mult.assoc [symmetric] by (rule mult_strict_right_mono) simp
  also have "\<dots> \<le> B32 ^ (?n - 1) * B32"
    using shift_top_bound(2) [OF k t0] by (intro mult_le_mono2) simp
  also have "\<dots> = B32 ^ ?n" using b(1) by (cases ?n) (simp_all add: mult.commute)
  finally have lt: "mag_val b * 2 ^ k < B32 ^ ?n" .
  then have "unat c = 0" using s(1) by (cases "unat c") auto
  then show v: "mag_val v = mag_val b * 2 ^ k" using s(1) by simp
  have "B32 ^ (?n - 1) \<le> mag_val b" using mag_val_last_nonzero [of b] b by simp
  then have ge: "B32 ^ (?n - 1) \<le> mag_val v" unfolding v
    by (metis le_trans mult.right_neutral mult_le_mono2 one_le_numeral one_le_power)
  show "last v \<noteq> 0"
  proof
    assume "last v = 0"
    then have "mag_val v = mag_val (take (?n - 1) v)"
      using b(1) s(2) mag_val_take_top [of ?n v] last_conv_nth [of v] by (cases "v = []") auto
    also have "\<dots> < B32 ^ (?n - 1)" using mag_val_bound [of "take (?n - 1) v"] s(2) by simp
    finally show False using ge by simp
  qed
qed

lemma divmod_shift_left:
  fixes a :: "u32 list"
  assumes "k < 32"
  defines "u \<equiv> (if 0 < k then (let (us, carry) = shl_loop k a 0 in us @ [ucast carry]) else a @ [0])"
  shows "mag_val u = mag_val a * 2 ^ k" and "length u = length a + 1"
proof -
  obtain us c where l: "shl_loop k a 0 = (us, c)" by fastforce
  have s: "mag_val us + B32 ^ length a * unat c = mag_val a * 2 ^ k" "length us = length a" "unat c < 2 ^ k"
    using shl_loop_correct [OF assms(1) _ l] by auto
  have "(2::nat) ^ k \<le> 2 ^ 32" using assms(1) by (intro power_increasing) simp_all
  then have "unat c < B32" using s(3) unfolding pow2_32 by (rule less_le_trans [rotated])
  then show "mag_val u = mag_val a * 2 ^ k" "length u = length a + 1"
    using s l by (auto simp: u_def mag_val_append)
qed

text \<open>The window the loop starts with holds only the top limb of the shifted dividend and zeros below the divisor.\<close>

lemma window_below_divisor:
  assumes "mag_val u = A * 2 ^ k" and "mag_val v = B * 2 ^ k" and "length v = n"
    and "length u = m + n" and "A < B32 ^ (m + n - 1)" and "B32 ^ (n - 1) \<le> B" and "0 < n"
  shows "mag_val (take n (drop m u)) < mag_val v"
proof -
  let ?w = "mag_val (drop m u)"
  have t: "take n (drop m u) = drop m u" using assms(4) by simp
  have "u = take m u @ drop m u" by simp
  then have "mag_val u = mag_val (take m u) + B32 ^ m * ?w"
    using mag_val_append [of "take m u" "drop m u"] assms(4) by simp
  then have "B32 ^ m * ?w \<le> A * 2 ^ k" using assms(1) by simp
  also have "\<dots> < B32 ^ (m + n - 1) * 2 ^ k" using assms(5) by (rule mult_strict_right_mono) simp
  also have "\<dots> = B32 ^ m * (B32 ^ (n - 1) * 2 ^ k)"
    using assms(7) by (cases n) (simp_all add: power_add)
  also have "\<dots> \<le> B32 ^ m * (B * 2 ^ k)"
    using assms(6) by (intro mult_le_mono2 mult_le_mono1) simp_all
  finally show ?thesis unfolding t assms(2) by simp
qed

lemma c_div_mod_signs:
  "c_div (if sa then - int x else int x) (if sb then - int y else int y) =
     (if sa \<noteq> sb then - int (x div y) else int (x div y))"
  "c_mod (if sa then - int x else int x) (if sb then - int y else int y) =
     (if sa then - int (x mod y) else int (x mod y))"
  by (auto simp: c_div_def c_mod_def sgn_if zdiv_int zmod_int minus_div_mult_eq_mod [symmetric])

lemma bigint_long_div_correct:
  assumes wf: "bi_wf a" "bi_wf b" and n: "2 \<le> length (limbs b)" and la: "length (limbs b) \<le> length (limbs a)"
  shows "\<exists>q r. bigint_long_div a b = Some (q, r) \<and> bi_wf q \<and> bi_wf r \<and>
    bi_val q = c_div (bi_val a) (bi_val b) \<and> bi_val r = c_mod (bi_val a) (bi_val b)"
proof -
  let ?a = "limbs a" and ?b = "limbs b" and ?n = "length (limbs b)"
  let ?m = "length ?a - ?n"
  have bne: "?b \<noteq> []" "last ?b \<noteq> 0" using n bi_wf_limbs [OF wf(2)] by auto
  have lb: "?b ! (?n - 1) = last ?b" using bne(1) by (simp add: last_conv_nth)
  obtain k where k: "div_shift (last ?b) 0 = Some k" "unat (last ?b) * 2 ^ k < B32"
    using div_shift_correct [OF bne(2), of 0] by auto
  define u where "u = (if 0 < k then (let (us, carry) = shl_loop k ?a 0 in us @ [ucast carry]) else ?a @ [0])"
  define v where "v = (if 0 < k then fst (shl_loop k ?b 0) else ?b)"
  have k32: "k < 32" using shift_top_bound(1) [OF k(2)] bne(2) by (simp add: unat_gt_0)
  have v: "mag_val v = mag_val ?b * 2 ^ k" "length v = ?n" "last v \<noteq> 0"
    using shifted_divisor [OF bne k(2), of v "snd (shl_loop k ?b 0)"] bne by (auto simp: v_def)
  have u: "mag_val u = mag_val ?a * 2 ^ k" "length u = length ?a + 1"
    using divmod_shift_left [OF k32, of ?a] by (simp_all add: u_def)
  obtain qs u' where dl: "div_loop (?m + 1) v u = (qs, u')" by fastforce
  have top: "mag_val (take ?n (drop (?m + 1) u)) < mag_val v"
    using window_below_divisor [of u "mag_val ?a" k v "mag_val ?b" ?n "?m + 1"] u v la bne(1)
      mag_val_bound [of ?a] mag_val_last_nonzero [OF bne] by simp
  have dlc: "mag_val qs = mag_val u div mag_val v" "mag_val (take ?n u') = mag_val u mod mag_val v"
    using div_loop_correct [of v "?m + 1" u qs u'] v n la u(2) top dl by auto
  define r where "r = (if 0 < k then fst (shr_loop k (take ?n u')) else take ?n u')"
  have r: "mag_val r = mag_val ?a mod mag_val ?b"
    using shr_loop_correct [OF k32, of "take ?n u'" r "snd (shr_loop k (take ?n u'))"] dlc(2) u(1) v(1)
    by (cases "0 < k") (simp_all add: r_def mult_mod_left [symmetric])
  have q: "mag_val qs = mag_val ?a div mag_val ?b" using dlc(1) u(1) v(1) by simp
  have "bigint_long_div a b = Some (bigint_normalize \<lparr>limbs = qs, sign = (sign a \<noteq> sign b)\<rparr>,
      bigint_normalize \<lparr>limbs = r, sign = sign a\<rparr>)"
    using k(1) dl lb unfolding bigint_long_div_def u_def v_def r_def
    by (cases "0 < k") (simp_all add: Let_def del: div_loop.simps)
  then show ?thesis
    using q r by (simp add: bi_val_def [of a] bi_val_def [of b] c_div_mod_signs)
qed

text \<open>Every case of \<open>bigint_divmod\<close> is truncated division.\<close>

lemma from_i64_small [simp]:
  "bi_val (bigint_from_i64 0) = 0" "bi_val (bigint_from_i64 1) = 1" "bi_wf (bigint_from_i64 1)"
  "limbs (bigint_from_i64 1) = [1]"
  by (simp_all add: bigint_from_i64_correct i64_defs)
    (simp add: bigint_from_i64_def limbs_of_u64_def i64_defs)

lemma bigint_cmp_mag_nat:
  assumes "bi_wf a" and "bi_wf b"
  shows "bigint_cmp_mag a b < 0 \<longleftrightarrow> mag_val (limbs a) < mag_val (limbs b)"
    and "bigint_cmp_mag a b = 0 \<longleftrightarrow> mag_val (limbs a) = mag_val (limbs b)"
  by (simp_all add: bigint_cmp_mag_correct [OF assms] abs_bi_val sgn_if)

lemma bigint_divmod_single:
  assumes wf: "bi_wf a" "bi_wf b" and lb: "length (limbs b) = 1"
    and lt: "mag_val (limbs b) < mag_val (limbs a)"
  shows "\<exists>q r. bigint_divmod a b = Some (q, r) \<and> bi_wf q \<and> bi_wf r \<and>
    bi_val q = c_div (bi_val a) (bi_val b) \<and> bi_val r = c_mod (bi_val a) (bi_val b)"
proof -
  let ?A = "mag_val (limbs a)" and ?B = "mag_val (limbs b)"
  obtain d where d: "limbs b = [d]" "d \<noteq> 0"
    using lb bi_wf_limbs [OF wf(2)] by (cases "limbs b") auto
  obtain qs rem where l: "mag_div_limb (limbs a) d = (qs, rem)" by fastforce
  have c: "mag_val qs = ?A div ?B" "unat rem = ?A mod ?B" "qs = [] \<or> last qs \<noteq> 0"
    using mag_div_limb_correct [OF d(2) l] d(1) by auto
  define r where "r = bigint_from_u64 (ucast rem)"
  define r' where "r' = r\<lparr>sign := (if bigint_is_zero r then False else sign a)\<rparr>"
  define q where "q = \<lparr>limbs = qs, sign = (if qs = [] then False else sign a \<noteq> sign b)\<rparr>"
  have r: "bi_wf r" "bi_val r = int (?A mod ?B)" "\<not> sign r"
    using bigint_from_u64_correct [of "ucast rem"] c(2)
    by (simp_all add: r_def) (simp_all add: bigint_from_u64_def)
  then have rm: "mag_val (limbs r) = ?A mod ?B" by (simp add: bi_val_def)
  have r': "bi_wf r'" "bi_val r' = (if sign a then - int (?A mod ?B) else int (?A mod ?B))"
    using r rm by (auto simp: r'_def bi_wf_def bigint_is_zero_def bi_val_def split: if_splits)
  have q: "bi_wf q" "bi_val q = (if sign a \<noteq> sign b then - int (?A div ?B) else int (?A div ?B))"
    using c by (auto simp: q_def bi_wf_def bi_val_def)
  have "bigint_divmod a b = Some (q, r')"
    using lt l d bigint_cmp_mag_nat [OF wf] lb
    by (simp add: bigint_divmod_def Let_def q_def r_def r'_def bigint_is_zero_def)
  then show ?thesis using q r' by (simp add: bi_val_def [of a] bi_val_def [of b] c_div_mod_signs)
qed

lemma bigint_divmod_correct:
  assumes wf: "bi_wf a" "bi_wf b" and b: "bi_val b \<noteq> 0"
  shows "\<exists>q r. bigint_divmod a b = Some (q, r) \<and> bi_wf q \<and> bi_wf r \<and>
    bi_val q = c_div (bi_val a) (bi_val b) \<and> bi_val r = c_mod (bi_val a) (bi_val b)"
proof -
  let ?A = "mag_val (limbs a)" and ?B = "mag_val (limbs b)"
  have B: "\<not> bigint_is_zero b" "limbs b \<noteq> []" "0 < ?B"
    using b bi_val_eq_0_iff [OF wf(2)] by (auto simp: bigint_is_zero_def bi_val_def split: if_splits)
  have mc: "bigint_cmp_mag a b < 0 \<longleftrightarrow> ?A < ?B" "bigint_cmp_mag a b = 0 \<longleftrightarrow> ?A = ?B"
    by (rule bigint_cmp_mag_nat [OF wf])+
  show ?thesis
  proof (cases "?A < ?B")
    case True
    then have "c_div (bi_val a) (bi_val b) = 0" by (simp add: bi_val_def c_div_mod_signs)
    then show ?thesis using True B(1) mc wf
      by (simp add: bigint_divmod_def Let_def c_mod_def)
  next
    case ge: False
    show ?thesis
    proof (cases "?A = ?B")
      case True
      moreover have "bi_wf ((bigint_from_i64 1)\<lparr>sign := s\<rparr>)"
        "bi_val ((bigint_from_i64 1)\<lparr>sign := s\<rparr>) = (if s then - 1 else 1)" for s
        by (simp_all add: bi_wf_def bi_val_def)
      ultimately show ?thesis using B mc
        by (simp add: bigint_divmod_def Let_def bi_val_def [of a] bi_val_def [of b] c_div_mod_signs)
    next
      case gt: False
      show ?thesis
      proof (cases "length (limbs b) = 1")
        case True
        then show ?thesis using bigint_divmod_single [OF wf] ge gt by simp
      next
        case False
        then have "2 \<le> length (limbs b)" using B(2) by (cases "length (limbs b)") auto
        moreover have "length (limbs b) \<le> length (limbs a)"
          using ge mag_val_less_length [OF _ bi_wf_limbs [OF wf(2)]] not_le by blast
        ultimately show ?thesis
          using bigint_long_div_correct [OF wf] B(1) mc ge gt False by (simp add: bigint_divmod_def Let_def)
      qed
    qed
  qed
qed

end
