(* ===== verification/XBigIntText.thy ===== *)
theory XBigIntText
  imports XBigIntDiv
begin

text \<open>
  Strings and powers of \<open>src/core/xs_bigint.c\<close>: the value \<open>bigint_from_str\<close> reads, the
  digits \<open>bigint_to_str\<close> writes, their round trip, and square-and-multiply.
\<close>

section \<open>Canonical forms\<close>

lemma mag_val_inj:
  "\<lbrakk>length xs = length ys; mag_val xs = mag_val ys\<rbrakk> \<Longrightarrow> xs = ys"
proof (induction xs ys rule: list_induct2)
  case (Cons x xs y ys)
  have "unat x = (unat x + B32 * mag_val xs) mod B32" using unat_u32_bound [of x] by simp
  also have "\<dots> = (unat y + B32 * mag_val ys) mod B32" using Cons.prems by simp
  also have "\<dots> = unat y" using unat_u32_bound [of y] by simp
  finally have "unat x = unat y" .
  then show ?case using Cons by (simp add: word_unat_eq_iff)
qed simp

lemma bi_val_inj:
  assumes "bi_wf a" and "bi_wf b" and "bi_val a = bi_val b"
  shows "a = b"
proof -
  have m: "mag_val (limbs a) = mag_val (limbs b)"
    using abs_bi_val [of a] abs_bi_val [of b] assms(3) by simp
  have "length (limbs a) = length (limbs b)"
    using mag_val_less_length [OF _ bi_wf_limbs [OF assms(2)]]
      mag_val_less_length [OF _ bi_wf_limbs [OF assms(1)]] m by (metis nat_neq_iff)
  then have "limbs a = limbs b" using m by (rule mag_val_inj)
  moreover have "sign a = sign b" using bi_wf_sign assms by simp
  ultimately show ?thesis by simp
qed

section \<open>Reading digits\<close>

text \<open>
  The reference for the digit scan: the digits up to the first character that is neither an
  underscore nor a digit of the base.
\<close>

fun scan_digits :: "int \<Rightarrow> string \<Rightarrow> nat list" where
  "scan_digits base [] = []"
| "scan_digits base (c # cs) =
     (if c = CHR ''_'' then scan_digits base cs
      else case str_digit c of
        None \<Rightarrow> []
      | Some d \<Rightarrow> if base \<le> int d then [] else d # scan_digits base cs)"

definition digits_val :: "int \<Rightarrow> int \<Rightarrow> nat list \<Rightarrow> int" where
  "digits_val base acc ds = foldl (\<lambda>v d. v * base + int d) acc ds"

lemma digits_val_simps [simp]:
  "digits_val base acc [] = acc"
  "digits_val base acc (d # ds) = digits_val base (acc * base + int d) ds"
  by (simp_all add: digits_val_def)

lemma digits_val_append: "digits_val base acc (xs @ ys) = digits_val base (digits_val base acc xs) ys"
  by (simp add: digits_val_def)

lemma digits_val_nonneg: "0 \<le> base \<Longrightarrow> 0 \<le> acc \<Longrightarrow> 0 \<le> digits_val base acc ds"
  by (induction ds arbitrary: acc) simp_all

lemma str_digit_bound: "str_digit c = Some d \<Longrightarrow> d < 16"
  by (auto simp: str_digit_def Let_def split: if_splits)

lemma digit_in_i64: "str_digit c = Some d \<Longrightarrow> in_i64 (int d)"
  by (drule str_digit_bound) (simp add: i64_defs)

lemma from_str_loop_correct:
  assumes "in_i64 base"
  shows "bi_wf result \<Longrightarrow>
    bi_wf (from_str_loop base (bigint_from_i64 base) result s) \<and>
    bi_val (from_str_loop base (bigint_from_i64 base) result s) =
      digits_val base (bi_val result) (scan_digits base s)"
  by (induction s arbitrary: result)
    (simp_all add: limb_simps bigint_from_i64_correct assms digit_in_i64 split: option.split)

lemma bi_wf_sign_unsigned: "bi_wf b \<Longrightarrow> 0 \<le> bi_val b \<Longrightarrow> \<not> sign b"
  by (simp add: bi_wf_sign)

lemma resign_correct:
  assumes "bi_wf b" and "0 \<le> bi_val b"
  shows "bi_wf (b\<lparr>sign := (if bigint_is_zero b then False else sg)\<rparr>)"
    and "bi_val (b\<lparr>sign := (if bigint_is_zero b then False else sg)\<rparr>) = (if sg then - bi_val b else bi_val b)"
  using assms bi_wf_sign_unsigned [OF assms] bi_val_eq_0_iff [OF assms(1)]
  by (auto simp: bi_wf_def bi_val_def bigint_is_zero_def split: if_splits)

text \<open>The value of any string: sign, radix prefix, then the scanned digits.\<close>

lemma bigint_from_str_correct:
  assumes "s \<noteq> []" and "0 \<le> base" and "in_i64 base"
    and "skip_radix_prefix base (if hd s = CHR ''-'' \<or> hd s = CHR ''+'' then tl s else s) = (base', s')"
  shows "bi_wf (bigint_from_str s base) \<and>
    bi_val (bigint_from_str s base) =
      (if hd s = CHR ''-'' then - digits_val base' 0 (scan_digits base' s')
       else digits_val base' 0 (scan_digits base' s'))"
proof -
  have b: "0 \<le> base'" "in_i64 base'"
    using assms by (auto simp: skip_radix_prefix_def i64_defs split: list.splits if_splits)
  let ?r = "from_str_loop base' (bigint_from_i64 base') (bigint_from_i64 0) s'"
  have r: "bi_wf ?r" "bi_val ?r = digits_val base' 0 (scan_digits base' s')"
    using from_str_loop_correct [OF b(2), of "bigint_from_i64 0" s'] by simp_all
  moreover have "0 \<le> bi_val ?r" using b(1) r(2) by (simp add: digits_val_nonneg)
  ultimately show ?thesis
    using assms(1,4) resign_correct [of ?r] by (simp add: bigint_from_str_def Let_def)
qed

section \<open>Writing digits\<close>

lemma digit_chars_digit:
  assumes "d < 16"
  shows "str_digit (digit_chars ! d) = Some d"
    and "digit_chars ! d \<notin> set ''-+_xXoO''" and "d < 2 \<Longrightarrow> digit_chars ! d \<notin> set ''bB''"
proof -
  have "\<forall>d \<in> set [0..<16]. str_digit (digit_chars ! d) = Some d \<and> digit_chars ! d \<notin> set ''-+_xXoO'' \<and>
      (d < 2 \<longrightarrow> digit_chars ! d \<notin> set ''bB'')"
    by code_simp
  then show "str_digit (digit_chars ! d) = Some d" "digit_chars ! d \<notin> set ''-+_xXoO''"
    "d < 2 \<Longrightarrow> digit_chars ! d \<notin> set ''bB''"
    using assms by auto
qed

text \<open>The digits \<open>to_str_loop\<close> writes, most significant first.\<close>

lemma to_str_loop_digits:
  "2 \<le> unat base \<Longrightarrow> ls = [] \<or> last ls \<noteq> 0 \<Longrightarrow>
    \<exists>ds. to_str_loop ls base = rev (map ((!) digit_chars) ds) \<and> (\<forall>d \<in> set ds. d < unat base) \<and>
      digits_val (int (unat base)) 0 ds = int (mag_val ls) \<and> (ls \<noteq> [] \<longrightarrow> ds \<noteq> [])"
proof (induction ls base rule: to_str_loop.induct)
  case (1 ls base)
  show ?case
  proof (cases "ls = []")
    case True
    then show ?thesis by (intro exI [of _ "[]"]) (simp add: to_str_loop.simps)
  next
    case False
    have nz: "\<not> (ls = [] \<or> base < 2)" "base \<noteq> 0"
      using False "1.prems"(1) by (auto simp: word_less_nat_alt unat_gt_0 [symmetric] simp del: unat_gt_0)
    obtain q rem where l: "mag_div_limb ls base = (q, rem)" by fastforce
    have c: "mag_val q = mag_val ls div unat base" "unat rem = mag_val ls mod unat base"
        "q = [] \<or> last q \<noteq> 0"
      using mag_div_limb_correct [OF nz(2) l] by auto
    obtain ds where ds: "to_str_loop q base = rev (map ((!) digit_chars) ds)" "\<forall>d \<in> set ds. d < unat base"
        "digits_val (int (unat base)) 0 ds = int (mag_val q)"
      using "1.IH" [OF nz(1) refl l [symmetric] "1.prems"(1) c(3)] by blast
    have "to_str_loop ls base = rev (map ((!) digit_chars) (ds @ [unat rem]))"
      using nz(1) l ds(1) by (subst to_str_loop.simps) simp
    moreover have "\<forall>d \<in> set (ds @ [unat rem]). d < unat base"
      using ds(2) c(2) "1.prems"(1) by auto
    moreover have "digits_val (int (unat base)) 0 (ds @ [unat rem]) = int (mag_val ls)"
      unfolding digits_val_append ds(3) digits_val_simps c(1,2) of_nat_mult [symmetric] of_nat_add [symmetric]
      by simp
    ultimately show ?thesis by blast
  qed
qed

lemma scan_written_digits:
  assumes "base \<le> 16"
  shows "\<forall>d \<in> set ds. int d < base \<Longrightarrow> scan_digits base (map ((!) digit_chars) ds) = ds"
proof (induction ds)
  case (Cons d ds)
  have "str_digit (digit_chars ! d) = Some d" "digit_chars ! d \<noteq> CHR ''_''"
    using digit_chars_digit [of d] Cons.prems assms by auto
  then show ?case using Cons by simp
qed simp

lemma skip_written_prefix:
  assumes "2 \<le> base" and "base \<le> 16" and "\<forall>d \<in> set ds. int d < base"
  shows "skip_radix_prefix base (map ((!) digit_chars) ds) = (base, map ((!) digit_chars) ds)"
proof (cases ds)
  case (Cons d ds')
  note d = Cons
  show ?thesis
  proof (cases ds')
    case (Cons e ds'')
    then have "digit_chars ! e \<notin> set ''-+_xXoO''" "base = 2 \<Longrightarrow> digit_chars ! e \<notin> set ''bB''"
      using digit_chars_digit [of e] assms d by auto
    then show ?thesis using assms(1) d Cons by (simp add: skip_radix_prefix_def)
  qed (use d assms(1) in \<open>simp add: skip_radix_prefix_def\<close>)
qed (use assms(1) in \<open>simp add: skip_radix_prefix_def\<close>)

lemma bigint_to_str_digits:
  assumes "bi_wf b" and "2 \<le> base" and "base \<le> 16"
  obtains ds where "bigint_to_str b base = (if sign b then ''-'' else []) @ map ((!) digit_chars) ds"
    and "ds \<noteq> []" and "\<forall>d \<in> set ds. int d < base" and "digits_val base 0 ds = int (mag_val (limbs b))"
proof (cases "limbs b = []")
  case True
  then have "bigint_to_str b base = (if sign b then ''-'' else []) @ map ((!) digit_chars) [0]"
    using assms(1) by (simp add: bigint_to_str_def bi_wf_def digit_chars_def)
  then show ?thesis using that [of "[0]"] True assms(2) by simp
next
  case False
  have ub: "int (unat (word_of_int base :: u32)) = base"
    using assms(2,3) by (simp add: int_unat_u32 uint_word_of_int_32)
  then have "2 \<le> unat (word_of_int base :: u32)" using assms(2) by linarith
  from to_str_loop_digits [OF this, of "limbs b"] obtain ds
    where "to_str_loop (limbs b) (word_of_int base) = rev (map ((!) digit_chars) ds)"
      "\<forall>d \<in> set ds. int d < base" "digits_val base 0 ds = int (mag_val (limbs b))" "ds \<noteq> []"
    using bi_wf_limbs [OF assms(1)] False ub by (metis of_nat_less_iff)
  then show ?thesis using that [of ds] False assms(2,3) by (simp add: bigint_to_str_def Let_def)
qed

text \<open>In every base whose digits \<open>bigint_from_str\<close> knows, parsing inverts printing.\<close>

lemma bigint_str_roundtrip_aux:
  assumes "bi_wf b" and "2 \<le> base" and "base \<le> 16"
  shows "bigint_from_str (bigint_to_str b base) base = b"
proof -
  obtain ds where ds: "bigint_to_str b base = (if sign b then ''-'' else []) @ map ((!) digit_chars) ds"
      "ds \<noteq> []" "\<forall>d \<in> set ds. int d < base" "digits_val base 0 ds = int (mag_val (limbs b))"
    using bigint_to_str_digits [OF assms] .
  define s where "s = bigint_to_str b base"
  obtain d ds' where d: "ds = d # ds'" using ds(2) by (cases ds) auto
  have c: "digit_chars ! d \<notin> set ''-+_xXoO''" using digit_chars_digit(2) [of d] ds(3) d assms(3) by auto
  have s: "s \<noteq> []" "hd s = CHR ''-'' \<longleftrightarrow> sign b"
      "(if hd s = CHR ''-'' \<or> hd s = CHR ''+'' then tl s else s) = map ((!) digit_chars) ds"
    using c by (auto simp: s_def ds(1) d)
  have "in_i64 base" using assms by (simp add: i64_defs)
  from bigint_from_str_correct [OF s(1) _ this] 
  have "bi_wf (bigint_from_str s base) \<and> bi_val (bigint_from_str s base) = bi_val b"
    using s(2,3) skip_written_prefix [OF assms(2,3) ds(3)] scan_written_digits [OF assms(3) ds(3)] ds(4) assms(2)
    by (simp add: bi_val_def [of b])
  then show ?thesis using bi_val_inj assms(1) by (simp add: s_def)
qed

section \<open>Powers\<close>

text \<open>Square-and-multiply over any multiplication with the laws of a monoid action on values.\<close>

lemma pow_loop_correct:
  "bi_wf r \<Longrightarrow> bi_wf (pow_loop r b e) \<and> bi_val (pow_loop r b e) = bi_val r * bi_val b ^ e"
proof (induction r b e rule: pow_loop.induct)
  case (1 r b e)
  have split: "bi_val b ^ e = (if odd e then bi_val b else 1) * (bi_val b * bi_val b) ^ (e div 2)"
    unfolding power2_eq_square [symmetric] power_mult [symmetric]
    by (cases "odd e") (simp_all flip: power_Suc)
  show ?case
  proof (cases "e = 0")
    case True
    then show ?thesis using "1.prems" by (simp add: pow_loop.simps)
  next
    case False
    have "e = 1" if "e div 2 = 0" using that False by presburger
    then show ?thesis
      using "1.IH" [OF False refl refl refl] "1.prems" False split
      by (subst (1 2) pow_loop.simps) (auto simp: Let_def limb_simps)
  qed
qed

lemma bi_wf_sign_True:
  assumes "bi_wf b" and "bi_val b \<noteq> 0" and "0 \<le> bi_val b"
  shows "bi_wf (b\<lparr>sign := True\<rparr>) \<and> bi_val (b\<lparr>sign := True\<rparr>) = - bi_val b"
proof -
  have "\<not> sign b" "limbs b \<noteq> []"
    using bi_wf_sign_unsigned [OF assms(1,3)] bi_val_eq_0_iff [OF assms(1)] assms(2) by blast+
  then show ?thesis using assms(1) by (simp add: bi_wf_def bi_val_def)
qed

lemma bigint_pow_nonneg:
  assumes "bi_wf b" and "0 \<le> e"
  shows "bi_wf (bigint_pow b e) \<and> bi_val (bigint_pow b e) = bi_val b ^ nat e"
proof (cases "e = 0")
  case True
  then show ?thesis by (simp add: bigint_pow_def)
next
  case False
  let ?r = "pow_loop (bigint_from_i64 1) ((bigint_copy b)\<lparr>sign := False\<rparr>) (nat e)"
  have abs: "bi_val ((bigint_copy b)\<lparr>sign := False\<rparr>) = \<bar>bi_val b\<bar>"
    by (simp add: bi_val_def bigint_copy_def)
  have r: "bi_wf ?r" "bi_val ?r = \<bar>bi_val b\<bar> ^ nat e"
    using pow_loop_correct [of "bigint_from_i64 1"] abs by simp_all
  show ?thesis
  proof (cases "sign b \<and> odd e")
    case True
    then have "bi_val b < 0" "odd (nat e)" using bi_wf_sign [OF assms(1)] assms(2) by (simp_all add: even_nat_iff)
    moreover from this have "bi_val b ^ nat e \<le> 0"
      by (intro order.strict_implies_order) (simp add: power_less_zero_eq)
    ultimately show ?thesis
      using bi_wf_sign_True [OF r(1)] r(2) True False assms(2) by (simp add: bigint_pow_def Let_def)
  next
    case even: False
    have "0 \<le> bi_val b \<or> even (nat e)" using even bi_wf_sign [OF assms(1)] assms(2) by (auto simp: even_nat_iff)
    then have "\<bar>bi_val b\<bar> ^ nat e = bi_val b ^ nat e" by (auto simp: power_even_abs)
    then show ?thesis using even False assms(2) r by (auto simp: bigint_pow_def Let_def)
  qed
qed

end
