(* ===== verification/XBigIntBits.thy ===== *)
theory XBigIntBits
  imports XBigIntDiv
begin

text \<open>
  The bitwise operations and the shifts of \<open>src/core/xs_bigint.c\<close>: what they compute on the
  values, and where the right shift of a negative number does not round towards minus infinity.
\<close>

section \<open>Limbs as bits\<close>

lemma add_shift_eq_or: "a < 2 ^ k \<Longrightarrow> a + 2 ^ k * n = a OR push_bit k n" for a :: nat
proof -
  assume a: "a < 2 ^ k"
  have "a AND push_bit k n = 0"
  proof (rule bit_eqI)
    fix i
    have "\<not> bit a i" if "k \<le> i"
      using order_less_le_trans [OF a power_increasing [OF that, of 2]] by (simp add: bit_iff_odd)
    then show "bit (a AND push_bit k n) i = bit 0 i" by (auto simp: bit_simps)
  qed
  then have "a OR push_bit k n = a + push_bit k n" by (rule disjunctive_add_eq_or [symmetric])
  then show ?thesis by (simp add: push_bit_eq_mult mult.commute)
qed

lemma add_push_eq_or: "a < B32 \<Longrightarrow> a + B32 * n = a OR push_bit 32 n" for a :: nat
  using add_shift_eq_or [of a 32 n] by simp

lemma bit_limb_pair:
  fixes a x :: nat
  assumes "a < B32"
  shows "bit (a + B32 * x) i = (if i < 32 then bit a i else bit x (i - 32))"
proof (cases "i < 32")
  case True
  then show ?thesis by (simp add: add_push_eq_or [OF assms] bit_simps)
next
  case False
  then have "(2::nat) ^ 32 \<le> 2 ^ i" by (intro power_increasing) simp_all
  then have "\<not> bit a i" using assms by (simp add: bit_iff_odd)
  then show ?thesis using False by (simp add: add_push_eq_or [OF assms] bit_simps)
qed

lemma limb_pair_ops:
  fixes a b x y :: nat
  assumes "a < B32" and "b < B32"
  shows "(a + B32 * x) AND (b + B32 * y) = (a AND b) + B32 * (x AND y)"
    and "(a + B32 * x) OR (b + B32 * y) = (a OR b) + B32 * (x OR y)"
    and "(a + B32 * x) XOR (b + B32 * y) = (a XOR b) + B32 * (x XOR y)"
proof -
  have l: "take_bit 32 a = a" "take_bit 32 b = b" using assms by (simp_all add: take_bit_nat_eq_self)
  have "take_bit 32 (a AND b) < 2 ^ 32" "take_bit 32 (a OR b) < 2 ^ 32" "take_bit 32 (a XOR b) < 2 ^ 32"
    by (rule take_bit_nat_less_exp)+
  then have "a AND b < B32" "a OR b < B32" "a XOR b < B32"
    by (simp_all only: take_bit_and take_bit_or take_bit_xor l) simp_all
  then show "(a + B32 * x) AND (b + B32 * y) = (a AND b) + B32 * (x AND y)"
    "(a + B32 * x) OR (b + B32 * y) = (a OR b) + B32 * (x OR y)"
    "(a + B32 * x) XOR (b + B32 * y) = (a XOR b) + B32 * (x XOR y)"
    using assms by (auto intro!: bit_eqI simp: bit_limb_pair bit_simps)
qed

lemma mag_val_and_short:
  "mag_val (map2 (AND) (take (min (length xs) (length ys)) xs) (take (min (length xs) (length ys)) ys)) =
     mag_val xs AND mag_val ys"
proof (induction xs arbitrary: ys)
  case (Cons x xs)
  then show ?case
    by (cases ys) (simp_all add: limb_pair_ops unat_u32_bound unsigned_and_eq)
qed simp

lemma mag_val_zip_limbs:
  "mag_val (zip_limbs (OR) xs ys) = mag_val xs OR mag_val ys"
  "mag_val (zip_limbs (XOR) xs ys) = mag_val xs XOR mag_val ys"
proof (induction "(OR) :: u32 \<Rightarrow> u32 \<Rightarrow> u32" xs ys rule: zip_limbs.induct)
  case (4 x xs y ys)
  {
    case 1
    then show ?case using 4 by (simp add: limb_pair_ops unat_u32_bound unsigned_or_eq)
  next
    case 2
    then show ?case using 4 by (simp add: limb_pair_ops unat_u32_bound unsigned_xor_eq)
  }
qed simp_all

section \<open>The bitwise operations on values\<close>

text \<open>Non-negative operands combine as their binary expansions; a negative operand gives 0.\<close>

lemma bigint_bitwise_nonneg:
  assumes "\<not> sign a" and "\<not> sign b"
  shows "bi_val (bigint_and a b) = bi_val a AND bi_val b"
    and "bi_val (bigint_or a b) = bi_val a OR bi_val b"
    and "bi_val (bigint_xor a b) = bi_val a XOR bi_val b"
proof -
  have v: "bi_val a = int (mag_val (limbs a))" "bi_val b = int (mag_val (limbs b))"
    using assms by (simp_all add: bi_val_def)
  show "bi_val (bigint_and a b) = bi_val a AND bi_val b"
    using assms mag_val_and_short [of "limbs a" "limbs b"]
    by (auto simp: bigint_and_def Let_def v of_nat_and_eq [symmetric])
  show "bi_val (bigint_or a b) = bi_val a OR bi_val b" "bi_val (bigint_xor a b) = bi_val a XOR bi_val b"
    using assms
    by (auto simp: bigint_or_def bigint_xor_def Let_def v mag_val_zip_limbs of_nat_or_eq of_nat_xor_eq)
qed

section \<open>Left shift\<close>

lemma shl_nonneg_correct:
  assumes "0 \<le> s" and "s < 32 * (2147483647 - int (length (limbs a)))"
  shows "\<exists>r. shl_nonneg a s = Some r \<and> (bi_wf a \<longrightarrow> bi_wf r) \<and> bi_val r = bi_val a * 2 ^ nat s"
proof (cases "bigint_is_zero a \<or> s = 0")
  case True
  then show ?thesis by (auto simp: shl_nonneg_def bigint_is_zero_def bi_val_def [of a])
next
  case False
  have ls: "0 \<le> s div 32" "s div 32 < 2147483647 - int (length (limbs a))" using assms by auto
  then have ci: "c_int (s div 32) = s div 32" by (simp add: c_int_def)
  have sb: "nat (s mod 32) < 32" by (simp add: nat_less_iff)
  obtain rs c where l: "shl_loop (nat (s mod 32)) (limbs a) 0 = (rs, c)" by fastforce
  have c: "mag_val rs + B32 ^ length (limbs a) * unat c = mag_val (limbs a) * 2 ^ nat (s mod 32)"
      "length rs = length (limbs a)" "unat c < 2 ^ nat (s mod 32)"
    using shl_loop_correct [OF sb _ l] by auto
  have "(2::nat) ^ nat (s mod 32) \<le> 2 ^ 32" using sb by (intro power_increasing) simp_all
  then have cb: "unat c < B32" using c(3) unfolding pow2_32 by (rule less_le_trans [rotated])
  have "s = 32 * (s div 32) + s mod 32" by simp
  then have ns: "nat s = 32 * nat (s div 32) + nat (s mod 32)" using ls(1) by (simp add: nat_eq_iff)
  let ?ls = "replicate (nat (s div 32)) 0 @ rs @ [if c \<noteq> 0 then ucast c else 0]"
  have "mag_val ?ls = B32 ^ nat (s div 32) * (mag_val (limbs a) * 2 ^ nat (s mod 32))"
    using c(1,2) cb by (auto simp: mag_val_append)
  also have "\<dots> = mag_val (limbs a) * 2 ^ nat s"
    unfolding ns power_add power_mult pow2_32 by (simp only: mult_ac)
  finally have "mag_val ?ls = mag_val (limbs a) * 2 ^ nat s" .
  then show ?thesis
    using False ls l by (simp add: shl_nonneg_def ci Let_def bi_val_def [of a])
qed

section \<open>Right shift\<close>

lemma mag_val_mod_limb: "k \<le> 32 \<Longrightarrow> mag_val (x # xs) mod 2 ^ k = unat x mod 2 ^ k"
proof -
  assume "k \<le> 32"
  then have "B32 = 2 ^ k * 2 ^ (32 - k)" unfolding power_add [symmetric] by simp
  then have "mag_val (x # xs) = unat x + 2 ^ k * (2 ^ (32 - k) * mag_val xs)"
    unfolding mag_val.simps by (simp only: mult.assoc)
  then show ?thesis by (simp del: mag_val.simps)
qed

lemma unat_drop_bit_div: "unat (drop_bit k x :: u32) = unat x div 2 ^ k"
  by (subst unat_drop_bit_eq) (simp add: drop_bit_eq_div)

lemma shr_limb_word:
  assumes "0 < k" and "k < 32"
  shows "unat (drop_bit k x OR push_bit (32 - k) y :: u32) = unat x div 2 ^ k + 2 ^ (32 - k) * (unat y mod 2 ^ k)"
proof -
  have p: "unat (push_bit (32 - k) y) = push_bit (32 - k) (unat y mod 2 ^ k)"
    using assms by (subst unsigned_push_bit_eq) (simp add: take_bit_push_bit flip: take_bit_eq_mod)
  note d = unat_drop_bit_div [of k x]
  have "2 ^ (32 - k) * 2 ^ k = B32" using assms unfolding power_add [symmetric] by simp
  then have "unat x < 2 ^ (32 - k) * 2 ^ k" using unat_u32_bound [of x] by simp
  then have "unat x div 2 ^ k < 2 ^ (32 - k)" by (rule less_mult_imp_div_less)
  then show ?thesis unfolding unsigned_or_eq p d by (rule add_shift_eq_or [symmetric])
qed

lemma shr_limbs_correct:
  assumes "0 < k" and "k < 32"
  shows "mag_val (shr_limbs k xs) = mag_val xs div 2 ^ k \<and> length (shr_limbs k xs) = length xs"
proof (induction xs)
  case (Cons x xs)
  let ?M = "mag_val xs"
  have B: "B32 = 2 ^ k * 2 ^ (32 - k)" using assms unfolding power_add [symmetric] by simp
  have h: "unat (drop_bit k x OR (case xs of [] \<Rightarrow> 0 | y # _ \<Rightarrow> push_bit (32 - k) y)) =
      unat x div 2 ^ k + 2 ^ (32 - k) * (?M mod 2 ^ k)"
  proof (cases xs)
    case Nil
    then show ?thesis by (simp add: unat_drop_bit_div)
  next
    case (Cons y ys)
    then show ?thesis using shr_limb_word [OF assms, of x y] mag_val_mod_limb [of k y ys] assms(2) by simp
  qed
  have "mag_val (x # xs) div 2 ^ k = (unat x + 2 ^ k * (2 ^ (32 - k) * ?M)) div 2 ^ k"
    unfolding mag_val.simps B mult.assoc ..
  also have "\<dots> = unat x div 2 ^ k + 2 ^ (32 - k) * ?M" by simp
  also have "?M = ?M mod 2 ^ k + 2 ^ k * (?M div 2 ^ k)" by simp
  also have "unat x div 2 ^ k + 2 ^ (32 - k) * (?M mod 2 ^ k + 2 ^ k * (?M div 2 ^ k)) =
      unat x div 2 ^ k + 2 ^ (32 - k) * (?M mod 2 ^ k) + B32 * (?M div 2 ^ k)"
    unfolding distrib_left B by (simp only: mult_ac add_ac)
  finally show ?case using Cons.IH h by simp
qed simp

lemma mag_val_zero_all: "mag_val xs = 0 \<longleftrightarrow> \<not> list_ex (\<lambda>x. x \<noteq> 0) xs"
  by (induction xs) (auto simp: unat_eq_0)

lemma low_bits_zero:
  assumes "k < 32"
  shows "(x :: u32) AND (push_bit k 1 - 1) = 0 \<longleftrightarrow> unat x mod 2 ^ k = 0"
proof -
  have "push_bit k 1 - 1 = (mask k :: u32)" by (simp add: mask_eq_decr_exp push_bit_eq_mult)
  then have "x AND (push_bit k 1 - 1) = take_bit k x" by (simp add: take_bit_eq_mask)
  moreover have "unat (take_bit k x) = unat x mod 2 ^ k"
    by (subst unsigned_take_bit_eq) (simp add: take_bit_eq_mod)
  ultimately show ?thesis by (simp add: unat_eq_0 [symmetric] del: unat_eq_0)
qed

text \<open>The bits a right shift by \<open>32 * ls + k\<close> loses, and what it keeps.\<close>

lemma shift_split:
  fixes M :: nat
  assumes "M = L + B32 ^ ls * H" and "L < B32 ^ ls"
  shows "M div 2 ^ (32 * ls + k) = H div 2 ^ k"
    and "M mod 2 ^ (32 * ls + k) = L + B32 ^ ls * (H mod 2 ^ k)"
proof -
  have p: "(2::nat) ^ (32 * ls + k) = B32 ^ ls * 2 ^ k" by (simp add: power_add power_mult)
  have d: "M div B32 ^ ls = H" "M mod B32 ^ ls = L" using assms by simp_all
  show "M div 2 ^ (32 * ls + k) = H div 2 ^ k" unfolding p div_mult2_eq d ..
  show "M mod 2 ^ (32 * ls + k) = L + B32 ^ ls * (H mod 2 ^ k)" unfolding p mod_mult2_eq d by simp
qed

text \<open>The kept limbs and the test for lost bits, over the whole magnitude.\<close>

lemma shr_kept_lost:
  assumes "ls < length x" and "k < 32"
  shows "mag_val (if k = 0 then drop ls x else shr_limbs k (drop ls x)) = mag_val x div 2 ^ (32 * ls + k)"
    and "(list_ex (\<lambda>w. w \<noteq> 0) (take ls x) \<or> 0 < k \<and> x ! ls AND (push_bit k 1 - 1) \<noteq> 0) \<longleftrightarrow>
      mag_val x mod 2 ^ (32 * ls + k) \<noteq> 0"
proof -
  let ?L = "mag_val (take ls x)" and ?H = "mag_val (drop ls x)"
  have "mag_val x = mag_val (take ls x @ drop ls x)" by simp
  then have e: "mag_val x = ?L + B32 ^ ls * ?H" unfolding mag_val_append using assms(1) by simp
  have L: "?L < B32 ^ ls" using mag_val_bound [of "take ls x"] assms(1) by simp
  show "mag_val (if k = 0 then drop ls x else shr_limbs k (drop ls x)) = mag_val x div 2 ^ (32 * ls + k)"
    unfolding shift_split(1) [OF e L] using shr_limbs_correct [of k] assms(2) by simp
  have "drop ls x = x ! ls # drop (Suc ls) x" using assms(1) by (simp add: Cons_nth_drop_Suc)
  then have "?H mod 2 ^ k = unat (x ! ls) mod 2 ^ k" using mag_val_mod_limb [of k] assms(2) by simp
  then show "(list_ex (\<lambda>w. w \<noteq> 0) (take ls x) \<or> 0 < k \<and> x ! ls AND (push_bit k 1 - 1) \<noteq> 0) \<longleftrightarrow>
      mag_val x mod 2 ^ (32 * ls + k) \<noteq> 0"
    unfolding shift_split(2) [OF e L] low_bits_zero [OF assms(2)]
    by (cases "k = 0") (simp_all add: mag_val_zero_all)
qed

lemma neg_div_ceiling:
  "0 < d \<Longrightarrow> - int m div int d = (if m mod d = 0 then - int (m div d) else - int (m div d) - 1)"
  by (simp add: zdiv_zminus1_eq_if zdiv_int flip: zmod_int)

lemma magnitude_plus_one:
  assumes "bi_wf a" and "bi_val a = v" and "0 \<le> v"
  shows "bi_wf ((bigint_add a (bigint_from_i64 1))\<lparr>sign := True\<rparr>)"
    and "bi_val ((bigint_add a (bigint_from_i64 1))\<lparr>sign := True\<rparr>) = - v - 1"
proof -
  let ?b = "bigint_add a (bigint_from_i64 1)"
  have b: "bi_wf ?b" "bi_val ?b = v + 1" using assms by (simp_all add: limb_simps)
  then have "limbs ?b \<noteq> []" "\<not> sign ?b" using bi_val_eq_0_iff [OF b(1)] bi_wf_sign [OF b(1)] assms(3) by auto
  then show "bi_wf (?b\<lparr>sign := True\<rparr>)" "bi_val (?b\<lparr>sign := True\<rparr>) = - v - 1"
    using b by (auto simp: bi_wf_def bi_val_def)
qed

text \<open>
  A right shift is the floor of the quotient, except that a negative number smaller in
  magnitude than the power of two gives 0 instead of -1 when the shift stays within its limbs.
\<close>

lemma shr_nonneg_correct:
  assumes wf: "bi_wf a" and s: "0 \<le> s" "s < 32 * 2147483647"
  shows "\<exists>r. shr_nonneg a s = Some r \<and> bi_wf r \<and>
    bi_val r = (if bi_val a < 0 \<and> - (2 ^ nat s) < bi_val a \<and> s < 32 * int (length (limbs a))
                then 0 else bi_val a div 2 ^ nat s)"
proof (cases "bigint_is_zero a \<or> s = 0")
  case True
  then show ?thesis using wf by (auto simp: shr_nonneg_def bigint_is_zero_def bi_val_def [of a])
next
  case False
  let ?M = "mag_val (limbs a)" and ?P = "(2 :: nat) ^ nat s"
  define ls where "ls = nat (s div 32)"
  define k where "k = nat (s mod 32)"
  have ci: "c_int (s div 32) = s div 32" using s by (simp add: c_int_def)
  have k: "k < 32" by (simp add: k_def nat_less_iff)
  have sk: "s = 32 * int ls + int k"
    using s(1) by (simp add: ls_def k_def pos_imp_zdiv_nonneg_iff)
  then have skn: "nat s = 32 * ls + k" by linarith
  have M0: "?M \<noteq> 0" using False mag_val_eq_0_iff [OF bi_wf_limbs [OF wf]] by (simp add: bigint_is_zero_def)
  show ?thesis
  proof (cases "length (limbs a) \<le> ls")
    case True
    have "?M < B32 ^ length (limbs a)" by (rule mag_val_bound)
    also have "\<dots> \<le> B32 ^ ls" using True by (rule power_increasing) simp
    also have "\<dots> \<le> ?P" unfolding skn power_add power_mult pow2_32 by simp
    finally have "?M < ?P" .
    then have P: "int ?M < 2 ^ nat s" by (simp flip: of_nat_less_iff)
    have "s div 32 = int ls" using s(1) by (simp add: ls_def pos_imp_zdiv_nonneg_iff)
    then have "shr_nonneg a s = Some (if sign a then bigint_from_i64 (-1) else bigint_from_i64 0)"
      using False True ci by (simp add: shr_nonneg_def Let_def)
    moreover have "bi_val a div 2 ^ nat s = (if sign a then - 1 else 0)"
      using int_div_pos_eq [of "bi_val a" "2 ^ nat s" "- 1" "2 ^ nat s - int ?M"] P M0
      by (auto simp: bi_val_def)
    ultimately show ?thesis using True sk wf
      by (auto simp: bigint_from_i64_correct i64_defs)
  next
    case inside: False
    let ?src = "drop ls (limbs a)"
    define r where "r = bigint_normalize \<lparr>limbs = (if k = 0 then ?src else shr_limbs k ?src), sign = sign a\<rparr>"
    have r: "bi_wf r" "bi_val r = (if sign a then - int (?M div ?P) else int (?M div ?P))"
      using shr_kept_lost(1) [of ls "limbs a" k] inside k by (simp_all add: r_def skn)
    have "?M div ?P = 0 \<longleftrightarrow> ?M < ?P" by (simp add: div_eq_0_iff)
    then have z: "bigint_is_zero r \<longleftrightarrow> ?M < ?P"
      using bi_val_eq_0_iff [OF r(1)] r(2) by (auto simp: bigint_is_zero_def simp flip: zdiv_int split: if_splits)
    have si: "s div 32 = int ls" using s(1) by (simp add: ls_def pos_imp_zdiv_nonneg_iff)
    have res: "shr_nonneg a s = (if sign a \<and> \<not> bigint_is_zero r \<and> ?M mod ?P \<noteq> 0
        then Some ((bigint_add (r\<lparr>sign := False\<rparr>) (bigint_from_i64 1))\<lparr>sign := True\<rparr>) else Some r)"
      using False inside shr_kept_lost(2) [of ls "limbs a" k] k ci
      unfolding shr_nonneg_def Let_def r_def skn si k_def [symmetric]
      by (cases "sign a") (simp_all del: push_bit_of_1)
    have bound: "s < 32 * int (length (limbs a))" using inside k sk by linarith
    show ?thesis
    proof (cases "sign a")
      case False
      then show ?thesis using res r by (simp add: bi_val_def [of a] zdiv_int)
    next
      case True
      then have va: "bi_val a = - int ?M" "bi_val a < 0" using M0 by (simp_all add: bi_val_def)
      have q: "bi_val a div 2 ^ nat s = (if ?M mod ?P = 0 then - int (?M div ?P) else - int (?M div ?P) - 1)"
        using neg_div_ceiling [of ?P ?M] unfolding va(1) by simp
      have small: "- (2 ^ nat s) < bi_val a \<longleftrightarrow> ?M < ?P" unfolding va(1) by (simp flip: of_nat_less_iff)
      define one_up where "one_up = (bigint_add (r\<lparr>sign := False\<rparr>) (bigint_from_i64 1))\<lparr>sign := True\<rparr>"
      have r0: "bi_val (r\<lparr>sign := False\<rparr>) = int (?M div ?P)"
        using r(2) abs_bi_val [of r] True by (simp add: bi_val_def)
      have wf0: "bi_wf (r\<lparr>sign := False\<rparr>)" using r(1) by (simp add: bi_wf_def split: if_splits)
      have up: "bi_wf one_up" "bi_val one_up = - int (?M div ?P) - 1"
        using magnitude_plus_one [of "r\<lparr>sign := False\<rparr>" "int (?M div ?P)"] wf0 r0 unfolding one_up_def by simp_all
      show ?thesis
        using res r up z q True va(2) small bound by (auto simp: one_up_def [symmetric] div_eq_0_iff)
    qed
  qed
qed

end
