(* ===== verification/XNumeric.thy ===== *)
theory XNumeric
  imports XBigIntText XBigIntBits
begin

text \<open>
  The numeric tower: small integers tagged in the pointer (\<open>src/core/xs.h\<close>), the overflow
  checked \<open>int64_t\<close> operations and the mixed operations of \<open>src/core/xs_bigint.c\<close> that
  promote to big integers and normalise back.

  Doubles are hardware: \<open>'f\<close> is their type and \<open>'f fpu\<close> the record of the operations of
  the C implementation the code uses, a parameter of every definition that touches a double.
\<close>

section \<open>Small-int tagging\<close>

definition XS_SMI_MAX :: int where "XS_SMI_MAX = 0x3FFFFFFFFFFFFFFF"
definition XS_SMI_MIN :: int where "XS_SMI_MIN = - 0x4000000000000000"

definition xs_is_smi :: "u64 \<Rightarrow> bool" where
  "xs_is_smi v \<longleftrightarrow> v AND 1 \<noteq> 0"

definition xs_smi_to_int :: "u64 \<Rightarrow> int" where
  "xs_smi_to_int v = drop_bit 1 (sint v)"

definition xs_int_to_smi :: "int \<Rightarrow> u64" where
  "xs_int_to_smi i = push_bit 1 (word_of_int i) OR 1"

definition xs_fits_smi :: "int \<Rightarrow> bool" where
  "xs_fits_smi i \<longleftrightarrow> XS_SMI_MIN \<le> i \<and> i \<le> XS_SMI_MAX"

section \<open>Values\<close>

datatype 'f num =
    NInt int
  | NFloat 'f
  | NBig bigint
  | NOther

text \<open>
  The double operations: \<open>f_fmod\<close>, \<open>f_pow\<close>, \<open>f_floor\<close> are those of \<open>math.h\<close>,
  \<open>f_in_i64\<close> and \<open>f_to_i64\<close> the range test and the cast, \<open>f_print\<close> is
  \<open>snprintf("%.0f")\<close>.
\<close>

record 'f fpu =
  f_add :: "'f \<Rightarrow> 'f \<Rightarrow> 'f"
  f_sub :: "'f \<Rightarrow> 'f \<Rightarrow> 'f"
  f_mul :: "'f \<Rightarrow> 'f \<Rightarrow> 'f"
  f_div :: "'f \<Rightarrow> 'f \<Rightarrow> 'f"
  f_fmod :: "'f \<Rightarrow> 'f \<Rightarrow> 'f"
  f_pow :: "'f \<Rightarrow> 'f \<Rightarrow> 'f"
  f_floor :: "'f \<Rightarrow> 'f"
  f_neg :: "'f \<Rightarrow> 'f"
  f_of_int :: "int \<Rightarrow> 'f"
  f_neg_test :: "'f \<Rightarrow> bool"
  f_in_i64 :: "'f \<Rightarrow> bool"
  f_to_i64 :: "'f \<Rightarrow> int"
  f_print :: "'f \<Rightarrow> string"

fun to_double_loop :: "('f, 'x) fpu_scheme \<Rightarrow> u32 list \<Rightarrow> 'f \<Rightarrow> 'f \<Rightarrow> 'f" where
  "to_double_loop F [] result base = result"
| "to_double_loop F (l # ls) result base =
     to_double_loop F ls (f_add F result (f_mul F (f_of_int F (uint l)) base))
       (f_mul F base (f_of_int F 4294967296))"

definition bigint_to_double :: "('f, 'x) fpu_scheme \<Rightarrow> bigint \<Rightarrow> 'f" where
  "bigint_to_double F b =
     (if limbs b = [] then f_of_int F 0
      else let result = to_double_loop F (limbs b) (f_of_int F 0) (f_of_int F 1)
           in if sign b then f_neg F result else result)"

section \<open>Overflow-checked integers\<close>

definition xs_bigint_val :: "bigint \<Rightarrow> 'f num" where
  "xs_bigint_val b = (if bigint_fits_i64 b then NInt (bigint_to_i64 b) else NBig b)"

text \<open>The result of a signed operation the guards let through; \<open>None\<close> where it overflows after all.\<close>

definition xs_int_of :: "int \<Rightarrow> 'f num option" where
  "xs_int_of i = map_option NInt (i64_chk i)"

definition xs_safe_add :: "int \<Rightarrow> int \<Rightarrow> 'f num option" where
  "xs_safe_add a b =
     (if 0 < b \<and> INT64_MAX - b < a \<or> b < 0 \<and> a < INT64_MIN - b
      then Some (xs_bigint_val (bigint_add (bigint_from_i64 a) (bigint_from_i64 b)))
      else xs_int_of (a + b))"

definition xs_safe_sub :: "int \<Rightarrow> int \<Rightarrow> 'f num option" where
  "xs_safe_sub a b =
     (if b < 0 \<and> INT64_MAX + b < a \<or> 0 < b \<and> a < INT64_MIN + b
      then Some (xs_bigint_val (bigint_sub (bigint_from_i64 a) (bigint_from_i64 b)))
      else xs_int_of (a - b))"

definition safe_mul_overflow :: "int \<Rightarrow> int \<Rightarrow> bool" where
  "safe_mul_overflow a b =
     (if 0 < a then (if 0 < b then c_div INT64_MAX b < a else b < c_div INT64_MIN a)
      else (if 0 < b then a < c_div INT64_MIN b else a \<noteq> -1 \<and> b < c_div INT64_MAX a))"

definition xs_safe_mul :: "int \<Rightarrow> int \<Rightarrow> 'f num option" where
  "xs_safe_mul a b =
     (if a = 0 \<or> b = 0 then Some (NInt 0)
      else if safe_mul_overflow a b
      then Some (xs_bigint_val (bigint_mul (bigint_from_i64 a) (bigint_from_i64 b)))
      else xs_int_of (a * b))"

definition xs_safe_neg :: "int \<Rightarrow> 'f num option" where
  "xs_safe_neg a =
     (if a = INT64_MIN then Some (xs_bigint_val (bigint_neg (bigint_from_i64 a)))
      else xs_int_of (- a))"

text \<open>
  The square-and-multiply loop on \<open>int64_t\<close>. Its result is \<open>Some None\<close> when a check sees an
  overflow, \<open>Some (Some r)\<close> when the loop ends, and \<open>None\<close> when a multiplication overflows
  that no check has seen.
\<close>

definition pow_mul_overflow :: "int \<Rightarrow> int \<Rightarrow> bool" where
  "pow_mul_overflow result b \<longleftrightarrow>
     (if 0 < b then c_div INT64_MAX b < result
      else b < -1 \<and> (0 < result \<and> c_div INT64_MIN b < result \<or>
                      result < 0 \<and> result < c_div INT64_MAX b))"

definition pow_square_overflow :: "int \<Rightarrow> bool" where
  "pow_square_overflow b \<longleftrightarrow>
     0 < b \<and> 46340 < b \<and> 3037000499 < b \<or>
     b < 0 \<and> 3037000499 < (if b = INT64_MIN then INT64_MAX else - b)"

function safe_pow_loop :: "int \<Rightarrow> int \<Rightarrow> nat \<Rightarrow> int option option" where
  "safe_pow_loop result b e =
     (if e = 0 then Some (Some result)
      else if odd e \<and> pow_mul_overflow result b then Some None
      else case (if odd e then i64_chk (result * b) else Some result) of
        None \<Rightarrow> None
      | Some result' \<Rightarrow>
          let e' = e div 2
          in if 0 < e' then
               if pow_square_overflow b then Some None
               else case i64_chk (b * b) of
                 None \<Rightarrow> None
               | Some b' \<Rightarrow> safe_pow_loop result' b' e'
             else safe_pow_loop result' b e')"
  by pat_completeness auto
termination
  by (relation "measure (\<lambda>(r, b, e). e)") auto

declare safe_pow_loop.simps [simp del]

definition xs_safe_pow :: "('f, 'x) fpu_scheme \<Rightarrow> int \<Rightarrow> int \<Rightarrow> 'f num option" where
  "xs_safe_pow F base exp =
     (if exp < 0 then
        if base = 1 then Some (NInt 1)
        else if base = -1 then Some (NInt (if odd exp then -1 else 1))
        else if base = 0 then Some (NFloat (f_div F (f_of_int F 1) (f_of_int F 0)))
        else Some (NFloat (f_pow F (f_of_int F base) (f_of_int F exp)))
      else if exp = 0 then Some (NInt 1)
      else if base = 0 then Some (NInt 0)
      else if base = 1 then Some (NInt 1)
      else if base = -1 then Some (NInt (if odd exp then -1 else 1))
      else case safe_pow_loop 1 base (nat exp) of
        None \<Rightarrow> None
      | Some None \<Rightarrow> Some (xs_bigint_val (bigint_pow (bigint_from_i64 base) exp))
      | Some (Some result) \<Rightarrow> Some (NInt result))"

section \<open>Mixed operations\<close>

fun val_to_bigint :: "('f, 'x) fpu_scheme \<Rightarrow> 'f num \<Rightarrow> bigint" where
  "val_to_bigint F (NBig b) = bigint_copy b"
| "val_to_bigint F (NInt i) = bigint_from_i64 i"
| "val_to_bigint F (NFloat f) =
     (if f_in_i64 F f then bigint_from_i64 (f_to_i64 F f)
      else let b = bigint_from_str (f_print F (if f_neg_test F f then f_neg F f else f)) 10
           in if f_neg_test F f then b\<lparr>sign := True\<rparr> else b)"
| "val_to_bigint F NOther = bigint_from_i64 0"

text \<open>The operand of a float operation; reading the int of another value is undefined.\<close>

fun num_to_double :: "('f, 'x) fpu_scheme \<Rightarrow> 'f num \<Rightarrow> 'f option" where
  "num_to_double F (NFloat f) = Some f"
| "num_to_double F (NBig b) = Some (bigint_to_double F b)"
| "num_to_double F (NInt i) = Some (f_of_int F i)"
| "num_to_double F NOther = None"

fun is_float :: "'f num \<Rightarrow> bool" where
  "is_float (NFloat f) = True"
| "is_float v = False"

definition float_op :: "('f, 'x) fpu_scheme \<Rightarrow> ('f \<Rightarrow> 'f \<Rightarrow> 'f) \<Rightarrow> 'f num \<Rightarrow> 'f num \<Rightarrow> 'f num option" where
  "float_op F f a b =
     (case (num_to_double F a, num_to_double F b) of
        (Some fa, Some fb) \<Rightarrow> Some (NFloat (f fa fb))
      | _ \<Rightarrow> None)"

text \<open>The shape the five arithmetic operations share: small integers, then doubles, then big integers.\<close>

definition numeric_op :: "('f, 'x) fpu_scheme \<Rightarrow> (int \<Rightarrow> int \<Rightarrow> 'f num option) \<Rightarrow> ('f \<Rightarrow> 'f \<Rightarrow> 'f) \<Rightarrow>
    (bigint \<Rightarrow> bigint \<Rightarrow> bigint option) \<Rightarrow> 'f num \<Rightarrow> 'f num \<Rightarrow> 'f num option" where
  "numeric_op F iop fop bop a b =
     (case (a, b) of
        (NInt x, NInt y) \<Rightarrow> iop x y
      | _ \<Rightarrow> if is_float a \<or> is_float b then float_op F fop a b
             else map_option xs_bigint_val (bop (val_to_bigint F a) (val_to_bigint F b)))"

definition xs_numeric_add :: "('f, 'x) fpu_scheme \<Rightarrow> 'f num \<Rightarrow> 'f num \<Rightarrow> 'f num option" where
  "xs_numeric_add F = numeric_op F xs_safe_add (f_add F) (\<lambda>x y. Some (bigint_add x y))"

definition xs_numeric_sub :: "('f, 'x) fpu_scheme \<Rightarrow> 'f num \<Rightarrow> 'f num \<Rightarrow> 'f num option" where
  "xs_numeric_sub F = numeric_op F xs_safe_sub (f_sub F) (\<lambda>x y. Some (bigint_sub x y))"

definition xs_numeric_mul :: "('f, 'x) fpu_scheme \<Rightarrow> 'f num \<Rightarrow> 'f num \<Rightarrow> 'f num option" where
  "xs_numeric_mul F = numeric_op F xs_safe_mul (f_mul F) (\<lambda>x y. Some (bigint_mul x y))"

definition int_div_op :: "int \<Rightarrow> int \<Rightarrow> 'f num option" where
  "int_div_op x y =
     (if y = 0 then Some (NInt 0)
      else if x = INT64_MIN \<and> y = -1
      then map_option xs_bigint_val (bigint_div (bigint_from_i64 x) (bigint_from_i64 y))
      else xs_int_of (c_div x y))"

definition xs_numeric_div :: "('f, 'x) fpu_scheme \<Rightarrow> 'f num \<Rightarrow> 'f num \<Rightarrow> 'f num option" where
  "xs_numeric_div F = numeric_op F int_div_op (f_div F) bigint_div"

text \<open>\<open>INT64_MIN % -1\<close> overflows like the division.\<close>

definition int_mod_op :: "int \<Rightarrow> int \<Rightarrow> 'f num option" where
  "int_mod_op x y =
     (if y = 0 then Some (NInt 0)
      else if in_i64 (c_div x y) then xs_int_of (c_mod x y) else None)"

definition xs_numeric_mod :: "('f, 'x) fpu_scheme \<Rightarrow> 'f num \<Rightarrow> 'f num \<Rightarrow> 'f num option" where
  "xs_numeric_mod F = numeric_op F int_mod_op (f_fmod F) bigint_mod"

definition int_floordiv_op :: "int \<Rightarrow> int \<Rightarrow> 'f num option" where
  "int_floordiv_op x y =
     (if y = 0 then Some (NInt 0)
      else if x = INT64_MIN \<and> y = -1
      then map_option xs_bigint_val (bigint_div (bigint_from_i64 x) (bigint_from_i64 y))
      else let q = c_div x y; r = c_mod x y
           in xs_int_of (if r \<noteq> 0 \<and> x XOR y < 0 then q - 1 else q))"

definition bigint_floordiv :: "bigint \<Rightarrow> bigint \<Rightarrow> bigint option" where
  "bigint_floordiv ba bb =
     (case bigint_divmod ba bb of
        None \<Rightarrow> None
      | Some (q, r) \<Rightarrow>
          Some (if \<not> bigint_is_zero r \<and> sign ba \<noteq> sign bb then bigint_sub q (bigint_from_i64 1) else q))"

definition xs_numeric_floordiv :: "('f, 'x) fpu_scheme \<Rightarrow> 'f num \<Rightarrow> 'f num \<Rightarrow> 'f num option" where
  "xs_numeric_floordiv F =
     numeric_op F int_floordiv_op (\<lambda>x y. f_floor F (f_div F x y)) bigint_floordiv"

definition xs_numeric_pow :: "('f, 'x) fpu_scheme \<Rightarrow> 'f num \<Rightarrow> 'f num \<Rightarrow> 'f num option" where
  "xs_numeric_pow F a b =
     (case (a, b) of
        (NInt x, NInt y) \<Rightarrow> xs_safe_pow F x y
      | _ \<Rightarrow>
        if is_float a \<or> is_float b then float_op F (f_pow F) a b
        else let ba = val_to_bigint F a
             in case b of
                  NInt y \<Rightarrow> Some (xs_bigint_val (bigint_pow ba y))
                | NBig bb \<Rightarrow>
                    if bigint_fits_i64 bb then Some (xs_bigint_val (bigint_pow ba (bigint_to_i64 bb)))
                    else Some (NInt 0)
                | _ \<Rightarrow> Some (xs_bigint_val (bigint_pow ba 0)))"

fun xs_numeric_neg :: "('f, 'x) fpu_scheme \<Rightarrow> 'f num \<Rightarrow> 'f num option" where
  "xs_numeric_neg F (NInt i) = xs_safe_neg i"
| "xs_numeric_neg F (NFloat f) = Some (NFloat (f_neg F f))"
| "xs_numeric_neg F (NBig b) = Some (xs_bigint_val (bigint_neg b))"
| "xs_numeric_neg F NOther = Some (NInt 0)"

end
