(* ===== verification/XNumericProofs.thy ===== *)
theory XNumericProofs
  imports XNumeric
begin

text \<open>
  The numeric tower computes on integers: every value is canonical (a big integer only where
  64 bits do not suffice), and each mixed operation is the operation on \<open>int\<close>, whichever
  representations its operands and its result have.
\<close>

section \<open>Canonical values\<close>

fun num_val :: "'f num \<Rightarrow> int" where
  "num_val (NInt i) = i"
| "num_val (NBig b) = bi_val b"
| "num_val _ = 0"

fun num_ok :: "'f num \<Rightarrow> bool" where
  "num_ok (NInt i) = in_i64 i"
| "num_ok (NBig b) = (bi_wf b \<and> \<not> in_i64 (bi_val b))"
| "num_ok _ = False"

text \<open>The contract of an integer result: the value, canonically represented.\<close>

definition is_num :: "int \<Rightarrow> 'f num \<Rightarrow> bool" where
  "is_num x v \<longleftrightarrow> num_ok v \<and> num_val v = x"

lemma is_num_unique: "is_num x v \<Longrightarrow> is_num x w \<Longrightarrow> v = w"
  by (cases v; cases w) (auto simp: is_num_def intro: bi_val_inj)

lemma is_num_bigint_val [intro]:
  "bi_wf b \<Longrightarrow> bi_val b = x \<Longrightarrow> is_num x (xs_bigint_val b)"
  using bigint_fits_i64_correct [of b] bigint_to_i64_correct [of b]
  by (auto simp: xs_bigint_val_def is_num_def)

lemma is_num_NInt [simp]: "is_num x (NInt y) \<longleftrightarrow> x = y \<and> in_i64 y"
  by (auto simp: is_num_def)

lemma xs_int_of_Some: "in_i64 i \<Longrightarrow> xs_int_of i = Some (NInt i)"
  by (simp add: xs_int_of_def)

lemma xs_int_of_eq: "xs_int_of i = (if in_i64 i then Some (NInt i) else None)"
  by (simp add: xs_int_of_def i64_chk_def)

section \<open>The overflow checks\<close>

lemma c_div_nonneg: "0 \<le> x \<Longrightarrow> 0 < y \<Longrightarrow> c_div x y = x div y"
  by (cases "x = 0") (simp_all add: c_div_def)

lemma c_div_neg_pos: "x < 0 \<Longrightarrow> 0 < y \<Longrightarrow> c_div x y = - (- x div y)"
  by (simp add: c_div_def)

lemma c_div_pos_neg: "0 < x \<Longrightarrow> y < 0 \<Longrightarrow> c_div x y = - (x div - y)"
  by (simp add: c_div_def)

lemma c_div_neg_neg: "x < 0 \<Longrightarrow> y < 0 \<Longrightarrow> c_div x y = - x div - y"
  by (simp add: c_div_def)

lemma div_less_iff: "0 < d \<Longrightarrow> n div d < a \<longleftrightarrow> n < a * d" for a n d :: int
proof -
  assume d: "0 < d"
  have "n div d * d \<le> n" using d div_mult_mod_eq [of n d] pos_mod_sign [OF d, of n] by linarith
  moreover have "a * d div d = a" using d by simp
  ultimately have "a \<le> n div d \<longleftrightarrow> a * d \<le> n"
    using zdiv_mono1 [OF _ d, of "a * d" n] mult_right_mono [of a "n div d" d] d
    by (metis less_imp_le order_trans)
  then show ?thesis by linarith
qed

lemma bigint_binop:
  assumes "in_i64 a" and "in_i64 b"
  shows "is_num (a + b) (xs_bigint_val (bigint_add (bigint_from_i64 a) (bigint_from_i64 b)))"
    and "is_num (a - b) (xs_bigint_val (bigint_sub (bigint_from_i64 a) (bigint_from_i64 b)))"
    and "is_num (a * b) (xs_bigint_val (bigint_mul (bigint_from_i64 a) (bigint_from_i64 b)))"
    and "is_num (- a) (xs_bigint_val (bigint_neg (bigint_from_i64 a)))"
  using assms by (auto intro!: is_num_bigint_val bi_wf_neg simp: limb_simps bigint_from_i64_correct)

lemma xs_safe_add_correct:
  "in_i64 a \<Longrightarrow> in_i64 b \<Longrightarrow> \<exists>v. xs_safe_add a b = Some v \<and> is_num (a + b) v"
  using bigint_binop(1) by (auto simp: xs_safe_add_def xs_int_of_eq) (auto simp: i64_defs)

lemma xs_safe_sub_correct:
  "in_i64 a \<Longrightarrow> in_i64 b \<Longrightarrow> \<exists>v. xs_safe_sub a b = Some v \<and> is_num (a - b) v"
  using bigint_binop(2) by (auto simp: xs_safe_sub_def xs_int_of_eq) (auto simp: i64_defs)

lemma xs_safe_neg_correct:
  "in_i64 a \<Longrightarrow> \<exists>v. xs_safe_neg a = Some v \<and> is_num (- a) v"
  using bigint_binop(4) by (auto simp: xs_safe_neg_def xs_int_of_eq) (auto simp: i64_defs)

text \<open>The guard of the multiplication is exact, but for \<open>-1 * INT64_MIN\<close>.\<close>

lemma safe_mul_overflow_iff:
  assumes "in_i64 a" and "in_i64 b" and "a \<noteq> 0" and "b \<noteq> 0" and "a \<noteq> -1 \<or> b \<noteq> INT64_MIN"
  shows "safe_mul_overflow a b \<longleftrightarrow> \<not> in_i64 (a * b)"
proof -
  consider "0 < a" "0 < b" | "0 < a" "b < 0" | "a < 0" "0 < b" | "a < 0" "b < 0"
    using assms(3,4) by linarith
  then show ?thesis
  proof cases
    case 1
    then have "0 < a * b" by simp
    then have "- 9223372036854775808 \<le> a * b" by linarith
    then show ?thesis using 1 by (simp add: safe_mul_overflow_def c_div_nonneg div_less_iff i64_defs not_le)
  next
    case 2
    then have "a * b < 0" by (simp add: mult_less_0_iff)
    moreover have "b < c_div INT64_MIN a \<longleftrightarrow> 9223372036854775808 < - b * a"
      using 2 div_less_iff [of a 9223372036854775808 "- b"] less_minus_iff [of b]
      by (simp add: c_div_neg_pos i64_defs)
    ultimately show ?thesis using 2 by (auto simp: safe_mul_overflow_def i64_defs mult.commute)
  next
    case 3
    then have "a * b < 0" by (simp add: mult_less_0_iff)
    moreover have "a < c_div INT64_MIN b \<longleftrightarrow> 9223372036854775808 < - a * b"
      using 3 div_less_iff [of b 9223372036854775808 "- a"] less_minus_iff [of a] by (simp add: c_div_neg_pos i64_defs)
    ultimately show ?thesis using 3 by (auto simp: safe_mul_overflow_def i64_defs)
  next
    case 4
    then have "0 < a * b" by (simp add: mult_neg_neg)
    moreover have "b < c_div INT64_MAX a \<longleftrightarrow> 9223372036854775807 < - b * - a"
      using 4 div_less_iff [of "- a" 9223372036854775807 "- b"] less_minus_iff [of b] by (simp add: c_div_pos_neg i64_defs)
    ultimately show ?thesis using 4 assms by (auto simp: safe_mul_overflow_def i64_defs mult.commute)
  qed
qed

lemma xs_safe_mul_correct:
  "in_i64 a \<Longrightarrow> in_i64 b \<Longrightarrow> a \<noteq> -1 \<or> b \<noteq> INT64_MIN \<Longrightarrow> \<exists>v. xs_safe_mul a b = Some v \<and> is_num (a * b) v"
  using bigint_binop(3) safe_mul_overflow_iff [of a b]
  by (auto simp: xs_safe_mul_def xs_int_of_eq i64_defs)

section \<open>Powers of small integers\<close>

text \<open>
  The loop keeps \<open>result * b ^ e\<close>. While the result is positive its checks see every overflow;
  a negative result is multiplied unchecked, which is safe only when the power itself fits.
\<close>

lemma pow_split: "e \<noteq> 0 \<Longrightarrow> b ^ e = (if odd e then b else 1) * (b * b) ^ (e div 2)" for b :: int
  unfolding power2_eq_square [symmetric] power_mult [symmetric]
  by (cases "odd e") (simp_all flip: power_Suc)

lemma square_fits:
  assumes "\<not> pow_square_overflow b"
  shows "in_i64 (b * b)"
proof -
  have "\<bar>b\<bar> \<le> 3037000499" using assms by (auto simp: pow_square_overflow_def i64_defs split: if_splits)
  then have "\<bar>b\<bar> * \<bar>b\<bar> \<le> 3037000499 * 3037000499" by (intro mult_mono) simp_all
  moreover have "- 9223372036854775808 \<le> b * b" using zero_le_square [of b] by linarith
  ultimately show ?thesis by (simp add: i64_defs abs_mult_self_eq)
qed

text \<open>When the checks suffice: a positive result times a positive power, or a power that fits.\<close>

definition pow_safe :: "int \<Rightarrow> int \<Rightarrow> nat \<Rightarrow> bool" where
  "pow_safe r b e \<longleftrightarrow> r \<noteq> 0 \<and> b \<noteq> 0 \<and> (0 < r \<and> (0 < b \<or> even e) \<or> in_i64 (r * b ^ e))"

lemma factor_in_i64:
  assumes "in_i64 (x * y)" and "0 < y"
  shows "in_i64 x"
proof -
  have "x \<le> x * y" if "0 \<le> x" using mult_left_mono [OF _ that, of 1 y] assms(2) by simp
  moreover have "x * y \<le> x" if "x \<le> 0" using mult_left_mono_neg [OF _ that, of 1 y] assms(2) by simp
  ultimately show ?thesis using assms(1) unfolding i64_defs by linarith
qed

lemma square_pos: "b \<noteq> 0 \<Longrightarrow> 0 < b * b" for b :: int
  by (cases "0 < b") (simp_all add: mult_neg_neg)

lemma pow_safe_mul:
  assumes "pow_safe r b e" and "odd e" and "\<not> pow_mul_overflow r b"
  shows "in_i64 (r * b)" and "pow_safe (r * b) (b * b) (e div 2)"
proof -
  have sq: "0 < b * b" using assms(1) square_pos by (simp add: pow_safe_def)
  have p: "r * b ^ e = r * b * (b * b) ^ (e div 2)" using assms(2) pow_split [of e b] by (auto simp: odd_pos)
  show "in_i64 (r * b)"
  proof (cases "0 < r \<and> 0 < b")
    case True
    then have "\<not> 9223372036854775807 < r * b"
      using assms(3) by (simp add: pow_mul_overflow_def c_div_nonneg div_less_iff i64_defs)
    moreover have "0 < r * b" using True by simp
    ultimately show ?thesis by (simp add: i64_defs)
  next
    case False
    then have "in_i64 (r * b * (b * b) ^ (e div 2))" using assms(1,2) p by (auto simp: pow_safe_def)
    then show ?thesis by (rule factor_in_i64) (simp add: sq)
  qed
  show "pow_safe (r * b) (b * b) (e div 2)"
    using assms(1,2) sq p by (auto simp: pow_safe_def)
qed

lemma pow_safe_square: "pow_safe r b e \<Longrightarrow> even e \<Longrightarrow> e \<noteq> 0 \<Longrightarrow> pow_safe r (b * b) (e div 2)"
  using pow_split [of e b] square_pos [of b] by (auto simp: pow_safe_def)

lemma safe_pow_loop_correct:
  "pow_safe r b e \<Longrightarrow> in_i64 r \<Longrightarrow>
     safe_pow_loop r b e = Some None \<or> safe_pow_loop r b e = Some (Some (r * b ^ e)) \<and> in_i64 (r * b ^ e)"
proof (induction e arbitrary: r b rule: less_induct)
  case (less e)
  consider "e = 0" | "e \<noteq> 0" "odd e \<and> pow_mul_overflow r b"
    | "e \<noteq> 0" "\<not> (odd e \<and> pow_mul_overflow r b)" by blast
  then show ?case
  proof cases
    case 3
    define r' where "r' = (if odd e then r * b else r)"
    have r': "in_i64 r'" "pow_safe r' (b * b) (e div 2)"
      using pow_safe_mul [OF less.prems(1)] pow_safe_square [OF less.prems(1)] 3 less.prems(2)
      by (auto simp: r'_def)
    have p: "r * b ^ e = r' * (b * b) ^ (e div 2)" using pow_split [OF 3(1), of b] by (simp add: r'_def)
    have u: "safe_pow_loop r b e =
        (if 0 < e div 2 then if pow_square_overflow b then Some None
           else case i64_chk (b * b) of None \<Rightarrow> None | Some b' \<Rightarrow> safe_pow_loop r' b' (e div 2)
         else safe_pow_loop r' b (e div 2))"
      using 3 r'(1) unfolding safe_pow_loop.simps [of r] Let_def r'_def by (simp split: if_splits)
    show ?thesis
    proof (cases "0 < e div 2 \<and> \<not> pow_square_overflow b")
      case True
      then have "e div 2 < e" by linarith
      with True show ?thesis
        using less.IH [OF _ r'(2,1)] u p square_fits [of b] by simp
    next
      case False
      then show ?thesis using u p r'(1) by (auto simp: safe_pow_loop.simps)
    qed
  qed (use less.prems in \<open>simp_all add: safe_pow_loop.simps\<close>)
qed

lemma xs_safe_pow_correct:
  assumes "in_i64 b" and "0 \<le> e" and "in_i64 e" and "0 \<le> b \<or> even e \<or> in_i64 (b ^ nat e)"
  shows "\<exists>v. xs_safe_pow F b e = Some v \<and> is_num (b ^ nat e) v"
proof -
  consider "e = 0" | "e \<noteq> 0" "b = 0" | "e \<noteq> 0" "b = 1" | "e \<noteq> 0" "b = -1"
    | "e \<noteq> 0" "b \<noteq> 0" "b \<noteq> 1" "b \<noteq> -1" by blast
  then show ?thesis
  proof cases
    case 5
    have safe: "pow_safe 1 b (nat e)" using assms 5 by (auto simp: pow_safe_def even_nat_iff)
    have big: "is_num (b ^ nat e) (xs_bigint_val (bigint_pow (bigint_from_i64 b) e))"
      using bigint_pow_nonneg [of "bigint_from_i64 b" e] assms by (auto simp: bigint_from_i64_correct)
    have "in_i64 1" by (simp add: i64_defs)
    then show ?thesis
      using safe_pow_loop_correct [OF safe] big 5 assms(2) by (auto simp: xs_safe_pow_def)
  qed (use assms in \<open>auto simp: xs_safe_pow_def i64_defs even_nat_iff\<close>)
qed

section \<open>Division\<close>

lemma c_div_half:
  assumes "2 \<le> \<bar>y\<bar>"
  shows "\<bar>c_div x y\<bar> \<le> \<bar>x\<bar> div 2"
proof -
  have q: "0 \<le> \<bar>x\<bar> div \<bar>y\<bar>" by (cases "y = 0") (simp_all add: pos_imp_zdiv_nonneg_iff)
  then have "\<bar>c_div x y\<bar> \<le> \<bar>x\<bar> div \<bar>y\<bar>" by (simp add: c_div_def abs_mult abs_sgn_eq)
  also have "\<dots> \<le> \<bar>x\<bar> div 2" using assms by (intro zdiv_mono2) simp_all
  finally show ?thesis .
qed

lemma div_in_i64:
  assumes "in_i64 x" and "in_i64 y" and "x \<noteq> INT64_MIN \<or> y \<noteq> -1" and "y \<noteq> 0"
  shows "in_i64 (c_div x y)" and "in_i64 (c_div x y - 1) \<or> \<bar>y\<bar> < 2"
proof -
  have half: "in_i64 (c_div x y) \<and> in_i64 (c_div x y - 1)" if "2 \<le> \<bar>y\<bar>"
    using c_div_half [OF that, of x] assms(1) unfolding i64_defs by linarith
  have one: "c_div x 1 = x" "c_div x (- 1) = - x" by (simp_all add: c_div_def mult_sgn_abs)
  have "y = 1 \<or> y = - 1 \<or> 2 \<le> \<bar>y\<bar>" using assms(4) by linarith
  then show "in_i64 (c_div x y)"
    using half one assms(1,3) by (elim disjE) (simp_all add: i64_defs)
  show "in_i64 (c_div x y - 1) \<or> \<bar>y\<bar> < 2" using half by linarith
qed

lemma c_mod_sgn: "y \<noteq> 0 \<Longrightarrow> c_mod x y = sgn x * (\<bar>x\<bar> mod \<bar>y\<bar>)"
  by (cases "0 < x"; cases "0 < y")
    (auto simp: c_mod_def c_div_def sgn_if minus_div_mult_eq_mod [symmetric] minus_mod_eq_div_mult)

lemma c_mod_bounds: "y \<noteq> 0 \<Longrightarrow> \<bar>c_mod x y\<bar> < \<bar>y\<bar>"
proof -
  assume "y \<noteq> 0"
  then have "c_mod x y = sgn x * (\<bar>x\<bar> mod \<bar>y\<bar>)" by (rule c_mod_sgn)
  moreover have "\<bar>x\<bar> mod \<bar>y\<bar> < \<bar>y\<bar>" "0 \<le> \<bar>x\<bar> mod \<bar>y\<bar>" using \<open>y \<noteq> 0\<close> by simp_all
  ultimately show ?thesis by (auto simp: sgn_if)
qed

lemma c_mod_in_i64: "y \<noteq> 0 \<Longrightarrow> in_i64 y \<Longrightarrow> in_i64 (c_mod x y)"
  using c_mod_bounds [of y x] by (auto simp: i64_defs)

text \<open>Floor division from truncated division: one less where the signs differ and a remainder is left.\<close>

lemma floor_from_trunc:
  assumes "y \<noteq> 0"
  shows "x div y = (if c_mod x y \<noteq> 0 \<and> (x < 0) \<noteq> (y < 0) then c_div x y - 1 else c_div x y)"
proof -
  have m: "c_mod x y = 0 \<longleftrightarrow> \<bar>x\<bar> mod \<bar>y\<bar> = 0" using c_mod_sgn [OF assms, of x] by (cases "x = 0") (simp_all add: sgn_0_0)
  have pos: "0 < \<bar>y\<bar>" using assms by simp
  have d: "c_div x y = (if (x < 0) = (y < 0) then \<bar>x\<bar> div \<bar>y\<bar> else - (\<bar>x\<bar> div \<bar>y\<bar>))"
    using assms by (auto simp: c_div_def sgn_if)
  have "x div y = (if (x < 0) = (y < 0) then \<bar>x\<bar> div \<bar>y\<bar> else - \<bar>x\<bar> div \<bar>y\<bar>)"
    using assms div_minus_minus [of x y] div_minus_minus [of "- x" y] by auto
  then show ?thesis using m d zdiv_zminus1_eq_if [of "\<bar>y\<bar>" "\<bar>x\<bar>"] pos by simp
qed

lemma xor_sign: "x XOR y < 0 \<longleftrightarrow> (x < 0) \<noteq> (y < 0)" for x y :: int
  by (simp add: xor_negative_int_iff)

lemma bigint_divmod_num:
  assumes "bi_wf a" and "bi_wf b" and "bi_val b \<noteq> 0"
  shows "\<exists>q. bigint_div a b = Some q \<and> bi_wf q \<and> bi_val q = c_div (bi_val a) (bi_val b)"
    and "\<exists>r. bigint_mod a b = Some r \<and> bi_wf r \<and> bi_val r = c_mod (bi_val a) (bi_val b)"
    and "\<exists>q. bigint_floordiv a b = Some q \<and> bi_wf q \<and> bi_val q = bi_val a div bi_val b"
proof -
  obtain q r where d: "bigint_divmod a b = Some (q, r)" "bi_wf q" "bi_wf r"
      "bi_val q = c_div (bi_val a) (bi_val b)" "bi_val r = c_mod (bi_val a) (bi_val b)"
    using bigint_divmod_correct [OF assms] by blast
  show "\<exists>q. bigint_div a b = Some q \<and> bi_wf q \<and> bi_val q = c_div (bi_val a) (bi_val b)"
    "\<exists>r. bigint_mod a b = Some r \<and> bi_wf r \<and> bi_val r = c_mod (bi_val a) (bi_val b)"
    using d by (simp_all add: bigint_div_def bigint_mod_def)
  have "bigint_is_zero r \<longleftrightarrow> c_mod (bi_val a) (bi_val b) = 0"
    using bi_val_eq_0_iff [OF d(3)] d(5) by (simp add: bigint_is_zero_def)
  then show "\<exists>q. bigint_floordiv a b = Some q \<and> bi_wf q \<and> bi_val q = bi_val a div bi_val b"
    using d floor_from_trunc [OF assms(3), of "bi_val a"] bi_wf_sign assms
    by (auto simp: bigint_floordiv_def limb_simps)
qed

section \<open>The mixed operations\<close>

lemma val_to_bigint_num:
  "num_ok v \<Longrightarrow> bi_wf (val_to_bigint F v) \<and> bi_val (val_to_bigint F v) = num_val v"
  by (cases v) (simp_all add: bigint_from_i64_correct)

lemma num_not_float: "num_ok v \<Longrightarrow> \<not> is_float v"
  by (cases v) simp_all

text \<open>
  One argument for all five operations: where both paths agree with an integer operation \<open>g\<close>,
  so does the dispatch.
\<close>

lemma numeric_op_correct:
  assumes "num_ok a" and "num_ok b"
    and small: "\<And>x y. \<lbrakk>a = NInt x; b = NInt y; in_i64 x; in_i64 y\<rbrakk> \<Longrightarrow> \<exists>v. iop x y = Some v \<and> is_num (g x y) v"
    and big: "\<And>x y. \<lbrakk>bi_wf x; bi_wf y; bi_val x = num_val a; bi_val y = num_val b\<rbrakk> \<Longrightarrow>
      \<exists>r. bop x y = Some r \<and> bi_wf r \<and> bi_val r = g (num_val a) (num_val b)"
  shows "\<exists>v. numeric_op F iop fop bop a b = Some v \<and> is_num (g (num_val a) (num_val b)) v"
proof (cases "\<exists>x y. a = NInt x \<and> b = NInt y")
  case True
  then show ?thesis using small assms(1,2) by (auto simp: numeric_op_def)
next
  case False
  then have "numeric_op F iop fop bop a b =
      map_option xs_bigint_val (bop (val_to_bigint F a) (val_to_bigint F b))"
    using num_not_float [OF assms(1)] num_not_float [OF assms(2)]
    by (cases a; cases b) (simp_all add: numeric_op_def)
  then show ?thesis
    using big val_to_bigint_num [OF assms(1), of F] val_to_bigint_num [OF assms(2), of F] by fastforce
qed

lemma int_div_ops_correct:
  assumes "in_i64 x" and "in_i64 y" and "y \<noteq> 0"
  shows "\<exists>v. int_div_op x y = Some v \<and> is_num (c_div x y) v"
    and "\<exists>v. int_floordiv_op x y = Some v \<and> is_num (x div y) v"
    and "x \<noteq> INT64_MIN \<or> y \<noteq> -1 \<Longrightarrow> \<exists>v. int_mod_op x y = Some v \<and> is_num (c_mod x y) v"
proof -
  have b: "\<exists>q. bigint_div (bigint_from_i64 x) (bigint_from_i64 y) = Some q \<and> is_num (c_div x y) (xs_bigint_val q)"
    using bigint_divmod_num(1) [of "bigint_from_i64 x" "bigint_from_i64 y"] assms
    by (auto simp: bigint_from_i64_correct)
  show "\<exists>v. int_div_op x y = Some v \<and> is_num (c_div x y) v"
    using b div_in_i64(1) [OF assms(1,2) _ assms(3)] assms(3) by (auto simp: int_div_op_def xs_int_of_eq)
  show "\<exists>v. int_mod_op x y = Some v \<and> is_num (c_mod x y) v" if "x \<noteq> INT64_MIN \<or> y \<noteq> -1"
    using div_in_i64(1) [OF assms(1,2) that assms(3)] c_mod_in_i64 [OF assms(3,2)] assms(3)
    by (simp add: int_mod_op_def xs_int_of_eq)
  have f: "(if c_mod x y \<noteq> 0 \<and> x XOR y < 0 then c_div x y - 1 else c_div x y) = x div y"
    unfolding xor_sign using floor_from_trunc [OF assms(3), of x] by simp
  show "\<exists>v. int_floordiv_op x y = Some v \<and> is_num (x div y) v"
  proof (cases "x = INT64_MIN \<and> y = -1")
    case True
    then have "c_div x y = x div y" by (simp add: c_div_def i64_defs)
    then show ?thesis using b True by (auto simp: int_floordiv_op_def)
  next
    case False
    have "c_mod x y = 0" if "\<bar>y\<bar> < 2" using c_mod_bounds [OF assms(3), of x] that by linarith
    then have "in_i64 (x div y)" using False div_in_i64 [OF assms(1,2) _ assms(3)] f by (auto split: if_splits)
    then show ?thesis using False f assms(3) by (auto simp: int_floordiv_op_def Let_def xs_int_of_eq)
  qed
qed

lemma xs_numeric_neg_correct:
  assumes "num_ok v"
  shows "\<exists>w. xs_numeric_neg F v = Some w \<and> is_num (- num_val v) w"
proof (cases v)
  case (NInt i)
  then show ?thesis using xs_safe_neg_correct assms by simp
next
  case (NBig b)
  then show ?thesis using assms by (auto intro!: is_num_bigint_val bi_wf_neg simp: limb_simps)
qed (use assms in simp_all)

lemma xs_numeric_arith_correct:
  assumes "num_ok a" and "num_ok b"
  shows xs_numeric_add_correct: "\<exists>v. xs_numeric_add F a b = Some v \<and> is_num (num_val a + num_val b) v"
    and xs_numeric_sub_correct: "\<exists>v. xs_numeric_sub F a b = Some v \<and> is_num (num_val a - num_val b) v"
    and xs_numeric_mul_correct: "a \<noteq> NInt (- 1) \<or> b \<noteq> NInt INT64_MIN \<Longrightarrow>
      \<exists>v. xs_numeric_mul F a b = Some v \<and> is_num (num_val a * num_val b) v"
proof -
  show "\<exists>v. xs_numeric_add F a b = Some v \<and> is_num (num_val a + num_val b) v"
    unfolding xs_numeric_add_def using assms
    by (rule numeric_op_correct) (simp_all add: xs_safe_add_correct limb_simps wf_intros)
  show "\<exists>v. xs_numeric_sub F a b = Some v \<and> is_num (num_val a - num_val b) v"
    unfolding xs_numeric_sub_def using assms
    by (rule numeric_op_correct) (simp_all add: xs_safe_sub_correct limb_simps wf_intros)
  show "\<exists>v. xs_numeric_mul F a b = Some v \<and> is_num (num_val a * num_val b) v"
    if other: "a \<noteq> NInt (- 1) \<or> b \<noteq> NInt INT64_MIN"
    unfolding xs_numeric_mul_def using assms
  proof (rule numeric_op_correct)
    fix x y assume "a = NInt x" "b = NInt y" "in_i64 x" "in_i64 y"
    then show "\<exists>v. xs_safe_mul x y = Some v \<and> is_num (x * y) v"
      using other by (intro xs_safe_mul_correct) auto
  qed (simp_all add: limb_simps wf_intros)
qed

lemma xs_numeric_quotient_correct:
  assumes "num_ok a" and "num_ok b" and "num_val b \<noteq> 0"
  shows xs_numeric_div_correct: "\<exists>v. xs_numeric_div F a b = Some v \<and> is_num (c_div (num_val a) (num_val b)) v"
    and xs_numeric_floordiv_correct: "\<exists>v. xs_numeric_floordiv F a b = Some v \<and> is_num (num_val a div num_val b) v"
    and xs_numeric_mod_correct: "a \<noteq> NInt INT64_MIN \<or> b \<noteq> NInt (- 1) \<Longrightarrow>
      \<exists>v. xs_numeric_mod F a b = Some v \<and> is_num (c_mod (num_val a) (num_val b)) v"
proof -
  show "\<exists>v. xs_numeric_div F a b = Some v \<and> is_num (c_div (num_val a) (num_val b)) v"
    unfolding xs_numeric_div_def using assms
    by (intro numeric_op_correct) (use int_div_ops_correct bigint_divmod_num in \<open>simp, metis num_val.simps(1)\<close>)+
  show "\<exists>v. xs_numeric_floordiv F a b = Some v \<and> is_num (num_val a div num_val b) v"
    unfolding xs_numeric_floordiv_def using assms
    by (intro numeric_op_correct) (use int_div_ops_correct bigint_divmod_num in \<open>simp, metis num_val.simps(1)\<close>)+
  show "\<exists>v. xs_numeric_mod F a b = Some v \<and> is_num (c_mod (num_val a) (num_val b)) v"
    if "a \<noteq> NInt INT64_MIN \<or> b \<noteq> NInt (- 1)"
    unfolding xs_numeric_mod_def using assms that
    by (intro numeric_op_correct) (use int_div_ops_correct bigint_divmod_num in \<open>simp, metis num_val.simps(1)\<close>)+
qed

lemma bigint_copy_id: "bigint_copy b = b"
  by (simp add: bigint_copy_def)

lemma xs_numeric_pow_correct:
  assumes "num_ok a" and "num_ok b" and "0 \<le> num_val b" and "in_i64 (num_val b)"
    and "0 \<le> num_val a \<or> even (num_val b) \<or> in_i64 (num_val a ^ nat (num_val b)) \<or> \<not> in_i64 (num_val a)"
  shows "\<exists>v. xs_numeric_pow F a b = Some v \<and> is_num (num_val a ^ nat (num_val b)) v"
proof -
  obtain e where b: "b = NInt e" "0 \<le> e" "in_i64 e"
    using assms(2-4) by (cases b) auto
  show ?thesis
  proof (cases a)
    case (NInt x)
    then show ?thesis using xs_safe_pow_correct [of x e F] assms(1,5) b by (simp add: xs_numeric_pow_def)
  next
    case (NBig y)
    then show ?thesis using bigint_pow_nonneg [of y e] b assms(1)
      by (auto simp: xs_numeric_pow_def bigint_copy_id)
  qed (use assms in simp_all)
qed

section \<open>Tagged integers\<close>

lemma smi_tagged: "xs_is_smi (xs_int_to_smi i)"
proof -
  have "bit (xs_int_to_smi i AND 1) 0" by (simp add: xs_int_to_smi_def bit_simps)
  then show ?thesis by (auto simp: xs_is_smi_def)
qed

lemma xs_int_to_smi_val: "xs_int_to_smi i = word_of_int (2 * i + 1)"
proof -
  have "xs_int_to_smi i = push_bit 1 (word_of_int i) + 1"
    unfolding xs_int_to_smi_def by (rule or_shift_eq_add) simp
  then show ?thesis by (simp add: push_bit_eq_mult mult.commute)
qed

lemma sint_u64_range: "- 9223372036854775808 \<le> sint (w :: u64) \<and> sint w < 9223372036854775808"
  using sint_range_size [of w] by (simp add: word_size)

lemma sint_word_of_int_u64: "sint (word_of_int k :: u64) = signed_take_bit 63 k"
  by (simp add: sint_uint uint_word_of_int_eq signed_take_bit_take_bit)

text \<open>The tag loses nothing exactly on the 63-bit range \<open>xs_fits_smi\<close> tests.\<close>

lemma smi_roundtrip_iff: "xs_smi_to_int (xs_int_to_smi i) = i \<longleftrightarrow> xs_fits_smi i"
proof
  assume "xs_fits_smi i"
  then have "sint (word_of_int (2 * i + 1) :: u64) = 2 * i + 1"
    unfolding sint_word_of_int_u64
    by (intro signed_take_bit_int_eq_self) (simp_all add: xs_fits_smi_def XS_SMI_MAX_def XS_SMI_MIN_def)
  then show "xs_smi_to_int (xs_int_to_smi i) = i"
    by (simp add: xs_smi_to_int_def xs_int_to_smi_val drop_bit_eq_div)
next
  assume "xs_smi_to_int (xs_int_to_smi i) = i"
  then have "i = sint (xs_int_to_smi i) div 2" by (simp add: xs_smi_to_int_def drop_bit_eq_div)
  then show "xs_fits_smi i" using sint_u64_range [of "xs_int_to_smi i"]
    by (simp add: xs_fits_smi_def XS_SMI_MAX_def XS_SMI_MIN_def) linarith
qed

end
