(* ===== verification/XNumericSpec.thy ===== *)
theory XNumericSpec
  imports XNumericProofs
begin

text \<open>
  What the numbers promise. A \<open>bigint\<close> stands for the integer \<open>bi_val\<close>, and every operation
  of \<open>src/core/xs_bigint.c\<close> computes its mathematical counterpart; a value of the numeric
  tower is canonical (\<open>num_ok\<close>: a big integer only outside the 64-bit range), so an integer
  has one representation and \<open>is_num\<close> determines the result.

  The theorems on the mixed operations name the operands for which the C code overflows an
  \<open>int64_t\<close> that no guard has caught; these are the findings stated at the end.
\<close>

section \<open>Big integers\<close>

text \<open>C19. Addition, subtraction, multiplication and negation of big integers are exact, keep
  the normal form, and comparison is the order of the integers.\<close>
theorem bigint_ring_exact:
  assumes "bi_wf a" and "bi_wf b"
  shows "bi_val (bigint_add a b) = bi_val a + bi_val b \<and> bi_wf (bigint_add a b) \<and>
    bi_val (bigint_sub a b) = bi_val a - bi_val b \<and> bi_wf (bigint_sub a b) \<and>
    bi_val (bigint_mul a b) = bi_val a * bi_val b \<and> bi_wf (bigint_mul a b) \<and>
    bi_val (bigint_neg a) = - bi_val a \<and> bi_wf (bigint_neg a) \<and>
    bigint_cmp a b = sgn (bi_val a - bi_val b)"
  using assms by (simp add: limb_simps wf_intros bigint_cmp_correct)

theorem bigint_ring_exact_witness:
  "bi_val (bigint_add (bigint_from_i64 7) (bigint_from_i64 (- 5))) = 2"
  using bigint_ring_exact [of "bigint_from_i64 7" "bigint_from_i64 (- 5)"]
  by (simp add: bigint_from_i64_correct i64_defs)

text \<open>C3. Division of big integers (Knuth's algorithm D, or by one limb) returns for every
  non-zero divisor, and gives C's truncated quotient and remainder in normal form.\<close>
theorem bigint_divmod_exact:
  assumes "bi_wf a" and "bi_wf b" and "bi_val b \<noteq> 0"
  shows "\<exists>q r. bigint_divmod a b = Some (q, r) \<and> bi_wf q \<and> bi_wf r \<and>
    bi_val q = c_div (bi_val a) (bi_val b) \<and> bi_val r = c_mod (bi_val a) (bi_val b)"
  using assms by (rule bigint_divmod_correct)

theorem bigint_divmod_exact_witness:
  "\<exists>q r. bigint_divmod (bigint_from_i64 (- 7)) (bigint_from_i64 2) = Some (q, r) \<and> bi_val q = - 3 \<and> bi_val r = - 1"
  using bigint_divmod_exact [of "bigint_from_i64 (- 7)" "bigint_from_i64 2"]
  by (auto simp: bigint_from_i64_correct i64_defs c_div_def c_mod_def)

text \<open>C20. Printing a big integer in a base from 2 to 16 and parsing the digits gives it back.\<close>
theorem bigint_print_parse:
  assumes "bi_wf b" and "2 \<le> base" and "base \<le> 16"
  shows "bigint_from_str (bigint_to_str b base) base = b"
  using assms by (rule bigint_str_roundtrip_aux)

theorem bigint_print_parse_witness:
  "bigint_from_str (bigint_to_str (bigint_from_i64 (- 255)) 16) 16 = bigint_from_i64 (- 255)"
  by (rule bigint_print_parse) (simp_all add: bigint_from_i64_correct i64_defs)

text \<open>Square-and-multiply computes the power.\<close>
theorem bigint_pow_exact:
  assumes "bi_wf b" and "0 \<le> e"
  shows "bi_wf (bigint_pow b e) \<and> bi_val (bigint_pow b e) = bi_val b ^ nat e"
  using assms by (rule bigint_pow_nonneg)

theorem bigint_pow_exact_witness:
  "bi_val (bigint_pow (bigint_from_i64 (- 3)) 3) = - 27"
  using bigint_pow_exact [of "bigint_from_i64 (- 3)" 3] by (simp add: bigint_from_i64_correct i64_defs)

text \<open>The bitwise operations on non-negative big integers are those of the integers.\<close>
theorem bigint_bitwise_exact:
  assumes "\<not> sign a" and "\<not> sign b"
  shows "bi_val (bigint_and a b) = bi_val a AND bi_val b \<and> bi_val (bigint_or a b) = bi_val a OR bi_val b \<and>
    bi_val (bigint_xor a b) = bi_val a XOR bi_val b"
  using bigint_bitwise_nonneg [OF assms] by simp

theorem bigint_bitwise_exact_witness:
  "bi_val (bigint_and (bigint_from_i64 12) (bigint_from_i64 10)) = 8"
proof -
  have "bi_val (bigint_from_i64 12) = 12" "bi_val (bigint_from_i64 10) = 10"
    by (simp_all add: bigint_from_i64_correct i64_defs)
  moreover have "\<not> sign (bigint_from_i64 12)" "\<not> sign (bigint_from_i64 10)"
    by (simp_all add: bigint_from_i64_def)
  ultimately show ?thesis
    using bigint_bitwise_exact [of "bigint_from_i64 12" "bigint_from_i64 10"] by simp
qed

text \<open>Shifting right is floor division by a power of two, except that a negative value
  smaller than that power, whose limbs the shift does not leave behind, gives 0.\<close>
theorem bigint_shr_floor:
  assumes "bi_wf a" and "0 \<le> s" and "s < 32 * 2147483647"
  shows "\<exists>r. bigint_shr a s = Some r \<and> bi_wf r \<and>
    bi_val r = (if bi_val a < 0 \<and> - (2 ^ nat s) < bi_val a \<and> s < 32 * int (length (limbs a))
                then 0 else bi_val a div 2 ^ nat s)"
  using shr_nonneg_correct [OF assms] assms(2) by (simp add: bigint_shr_def)

theorem bigint_shr_floor_witness:
  "\<exists>r. bigint_shr (bigint_from_i64 (- 7)) 1 = Some r \<and> bi_val r = - 4"
  using bigint_shr_floor [of "bigint_from_i64 (- 7)" 1]
  by (auto simp: bigint_from_i64_correct i64_defs)

text \<open>The exception of the shift at its smallest: -1 shifted right by 1 is 0 and not -1.\<close>
theorem bigint_shr_minus_one:
  "\<exists>r. bigint_shr (bigint_from_i64 (- 1)) 1 = Some r \<and> bi_val r = 0"
proof -
  have "length (limbs (bigint_from_i64 (- 1))) = 1"
    by (simp add: bigint_from_i64_def limbs_of_u64_def i64_defs)
  then show ?thesis
    using shr_nonneg_correct [of "bigint_from_i64 (- 1)" 1]
    by (auto simp: bigint_shr_def bigint_from_i64_correct i64_defs)
qed

text \<open>Shifting left is multiplication by a power of two, as long as the result's limbs can be
  counted in an \<open>int\<close>.\<close>
theorem bigint_shl_exact:
  assumes "bi_wf a" and "0 \<le> s" and "s < 32 * (2147483647 - int (length (limbs a)))"
  shows "\<exists>r. bigint_shl a s = Some r \<and> bi_wf r \<and> bi_val r = bi_val a * 2 ^ nat s"
  using shl_nonneg_correct [OF assms(2,3)] assms(1,2) by (auto simp: bigint_shl_def)

theorem bigint_shl_exact_witness:
  "\<exists>r. bigint_shl (bigint_from_i64 (- 3)) 70 = Some r \<and> bi_val r = - 3541774862152233910272"
proof -
  have "length (limbs (bigint_from_i64 (- 3))) = 1"
    by (simp add: bigint_from_i64_def limbs_of_u64_def i64_defs)
  then show ?thesis
    using bigint_shl_exact [of "bigint_from_i64 (- 3)" 70]
    by (auto simp: bigint_from_i64_correct i64_defs)
qed

section \<open>The numeric tower\<close>

text \<open>An integer survives the tagging in a pointer exactly when \<open>xs_fits_smi\<close> says so, and
  the result always carries the tag.\<close>
theorem smi_roundtrip:
  "xs_is_smi (xs_int_to_smi i) \<and> (xs_smi_to_int (xs_int_to_smi i) = i \<longleftrightarrow> xs_fits_smi i)"
  by (simp add: smi_tagged smi_roundtrip_iff)

text \<open>C14. Addition and subtraction of any two integers of the tower, small or big, are exact and
  canonical: no \<open>int64_t\<close> operation overflows on the way.\<close>
theorem numeric_add_sub_exact:
  assumes "num_ok a" and "num_ok b"
  shows "(\<exists>v. xs_numeric_add F a b = Some v \<and> is_num (num_val a + num_val b) v) \<and>
    (\<exists>v. xs_numeric_sub F a b = Some v \<and> is_num (num_val a - num_val b) v)"
  using xs_numeric_arith_correct [OF assms, of F] by blast

theorem numeric_add_sub_exact_witness:
  "\<forall>F :: int fpu. \<exists>v. xs_numeric_add F (NInt INT64_MAX) (NInt 1) = Some v \<and> is_num 9223372036854775808 v" (is "\<forall>F. ?P F")
proof
  fix F :: "int fpu"
  show "?P F"
    using numeric_add_sub_exact [of "NInt INT64_MAX" "NInt 1" F] by (simp add: i64_defs)
qed

text \<open>C15. Multiplication is exact, unless it is -1 times the smallest 64-bit integer, which the
  overflow check lets through.\<close>
theorem numeric_mul_exact:
  assumes "num_ok a" and "num_ok b" and "a \<noteq> NInt (- 1) \<or> b \<noteq> NInt INT64_MIN"
  shows "\<exists>v. xs_numeric_mul F a b = Some v \<and> is_num (num_val a * num_val b) v"
  using xs_numeric_mul_correct [OF assms] .

theorem numeric_mul_exact_witness:
  "\<forall>F :: int fpu. \<exists>v. xs_numeric_mul F (NInt INT64_MIN) (NInt (- 1)) = Some v \<and> is_num 9223372036854775808 v" (is "\<forall>F. ?P F")
proof
  fix F :: "int fpu"
  show "?P F"
    using numeric_mul_exact [of "NInt INT64_MIN" "NInt (- 1)" F] by (simp add: i64_defs)
qed



text \<open>C17. Powers with a non-negative exponent are exact; the hypothesis excludes the small
  negative bases with odd exponents whose power leaves the 64-bit range.\<close>
theorem numeric_pow_exact:
  assumes "num_ok a" and "num_ok b" and "0 \<le> num_val b" and "in_i64 (num_val b)"
    and "0 \<le> num_val a \<or> even (num_val b) \<or> in_i64 (num_val a ^ nat (num_val b)) \<or> \<not> in_i64 (num_val a)"
  shows "\<exists>v. xs_numeric_pow F a b = Some v \<and> is_num (num_val a ^ nat (num_val b)) v"
  using assms by (rule xs_numeric_pow_correct)

theorem numeric_pow_exact_witness:
  "\<forall>F :: int fpu. \<exists>v. xs_numeric_pow F (NInt 2) (NInt 64) = Some v \<and> is_num 18446744073709551616 v" (is "\<forall>F. ?P F")
proof
  fix F :: "int fpu"
  show "?P F"
    using numeric_pow_exact [of "NInt 2" "NInt 64" F] by (simp add: i64_defs)
qed


end
