(* ===== verification/XMap.thy ===== *)
theory XMap
  imports XPrelude "HOL-Library.Monad_Syntax"
begin

text \<open>
  The hash map and the array of \<open>src/core/value.c\<close>: open addressing with linear probing,
  string keys and an insertion-order list of bucket indices.

  A bucket is \<open>None\<close> where \<open>keys[i]\<close> is \<open>NULL\<close> and \<open>Some (key, value)\<close> otherwise. \<open>order\<close>
  holds the first \<open>len\<close> entries of the C array, so \<open>len\<close> is its length. Capacities are
  powers of two times 8, for which the test \<open>(double) len / cap > 0.7\<close> is exact and is
  \<open>7 * cap < 10 * len\<close>. A probe that goes round the whole table without meeting an empty
  bucket never ends in \<open>map_set\<close> and \<open>map_del\<close>: the result is \<open>None\<close>.
\<close>

section \<open>Arrays\<close>

record 'v xsarray =
  items :: "'v list"
  acap :: nat

definition array_new :: "'v xsarray" where
  "array_new = \<lparr>items = [], acap = 4\<rparr>"

definition array_push :: "'v xsarray \<Rightarrow> 'v \<Rightarrow> 'v xsarray" where
  "array_push a v =
     (let c = (if acap a \<le> length (items a) then acap a * 2 else acap a)
      in \<lparr>items = items a @ [v], acap = c\<rparr>)"

text \<open>\<open>None\<close> is the null value an access out of range gives; a negative index counts from the end.\<close>

definition array_get :: "'v xsarray \<Rightarrow> int \<Rightarrow> 'v option" where
  "array_get a i =
     (let j = (if i < 0 then int (length (items a)) + i else i)
      in if j < 0 \<or> int (length (items a)) \<le> j then None else Some (items a ! nat j))"

section \<open>The table\<close>

record 'v hmap =
  buckets :: "(string \<times> 'v) option list"
  order :: "nat list"
  order_cap :: nat

abbreviation cap :: "'v hmap \<Rightarrow> nat" where
  "cap m \<equiv> length (buckets m)"

abbreviation len :: "'v hmap \<Rightarrow> nat" where
  "len m \<equiv> length (order m)"

definition map_new :: "'v hmap" where
  "map_new = \<lparr>buckets = replicate 8 None, order = [], order_cap = 8\<rparr>"

fun hash_loop :: "u32 \<Rightarrow> string \<Rightarrow> u32" where
  "hash_loop h [] = h"
| "hash_loop h (c # s) = hash_loop (push_bit 5 h + h + word_of_int (of_char c)) s"

definition hash_str :: "string \<Rightarrow> u32" where
  "hash_str s = hash_loop 5381 s"

definition home :: "nat \<Rightarrow> string \<Rightarrow> nat" where
  "home n k = nat (uint (hash_str k) mod int n)"

text \<open>
  The probe loop shared by the operations: from bucket \<open>i\<close>, at most \<open>fuel\<close> buckets, the
  first that is empty (\<open>False\<close>) or holds the key (\<open>True\<close>).
\<close>

fun probe :: "(string \<times> 'v) option list \<Rightarrow> string \<Rightarrow> nat \<Rightarrow> nat \<Rightarrow> (nat \<times> bool) option" where
  "probe b k i 0 = None"
| "probe b k i (Suc fuel) =
     (case b ! i of
        None \<Rightarrow> Some (i, False)
      | Some (k', v) \<Rightarrow> if k' = k then Some (i, True) else probe b k (Suc i mod length b) fuel)"

text \<open>The part of \<open>map_set\<close> after the growth check.\<close>

definition map_put :: "'v hmap \<Rightarrow> string \<Rightarrow> 'v \<Rightarrow> 'v hmap option" where
  "map_put m k v =
     (case probe (buckets m) k (home (cap m) k) (cap m) of
        None \<Rightarrow> None
      | Some (i, True) \<Rightarrow> Some (m\<lparr>buckets := (buckets m)[i := Some (k, v)]\<rparr>)
      | Some (i, False) \<Rightarrow>
          Some (m\<lparr>buckets := (buckets m)[i := Some (k, v)],
                  order_cap := (if order_cap m \<le> len m
                                then if 0 < order_cap m then order_cap m * 2 else 8
                                else order_cap m),
                  order := order m @ [i]\<rparr>))"

text \<open>The reinsertion loop of \<open>map_grow\<close>, with the \<open>map_set\<close> it calls as an argument.\<close>

fun grow_loop :: "('v hmap \<Rightarrow> string \<Rightarrow> 'v \<Rightarrow> 'v hmap option) \<Rightarrow>
    (string \<times> 'v) option list \<Rightarrow> nat list \<Rightarrow> 'v hmap \<Rightarrow> 'v hmap option" where
  "grow_loop st old_b [] m = Some m"
| "grow_loop st old_b (bi # bis) m =
     (case old_b ! bi of
        None \<Rightarrow> grow_loop st old_b bis m
      | Some (k, v) \<Rightarrow> do { m' \<leftarrow> st m k v; grow_loop st old_b bis m' })"

definition map_grow :: "('v hmap \<Rightarrow> string \<Rightarrow> 'v \<Rightarrow> 'v hmap option) \<Rightarrow> 'v hmap \<Rightarrow> 'v hmap option" where
  "map_grow st m =
     grow_loop st (buckets m) (order m)
       \<lparr>buckets = replicate (cap m * 2) None, order = [], order_cap = order_cap m\<rparr>"

text \<open>
  \<open>map_set\<close> and \<open>map_grow\<close> call each other; the first argument bounds the nesting. Two levels
  are enough, because a table of twice the capacity never grows while it is refilled.
\<close>

fun map_set_upto :: "nat \<Rightarrow> 'v hmap \<Rightarrow> string \<Rightarrow> 'v \<Rightarrow> 'v hmap option" where
  "map_set_upto 0 m k v = None"
| "map_set_upto (Suc d) m k v =
     (if 7 * cap m < 10 * len m
      then do { m' \<leftarrow> map_grow (map_set_upto d) m; map_put m' k v }
      else map_put m k v)"

definition map_set :: "'v hmap \<Rightarrow> string \<Rightarrow> 'v \<Rightarrow> 'v hmap option" where
  "map_set = map_set_upto 2"

fun get_loop :: "(string \<times> 'v) option list \<Rightarrow> string \<Rightarrow> nat \<Rightarrow> nat \<Rightarrow> (nat \<times> 'v) option" where
  "get_loop b k i 0 = None"
| "get_loop b k i (Suc tries) =
     (case b ! i of
        None \<Rightarrow> None
      | Some (k', v) \<Rightarrow> if k' = k then Some (i, v) else get_loop b k (Suc i mod length b) tries)"

definition map_get_at :: "'v hmap \<Rightarrow> string \<Rightarrow> (nat \<times> 'v) option" where
  "map_get_at m k = get_loop (buckets m) k (home (cap m) k) (cap m)"

definition map_get :: "'v hmap \<Rightarrow> string \<Rightarrow> 'v option" where
  "map_get m k = map_option snd (map_get_at m k)"

definition map_has :: "'v hmap \<Rightarrow> string \<Rightarrow> bool" where
  "map_has m k \<longleftrightarrow> map_get m k \<noteq> None"

text \<open>The slot leaves \<open>order\<close> at its first occurrence; without one, the last entry is cut off.\<close>

definition drop_order :: "nat \<Rightarrow> nat list \<Rightarrow> nat list" where
  "drop_order i ord = (if i \<in> set ord then remove1 i ord else butlast ord)"

definition map_del :: "'v hmap \<Rightarrow> string \<Rightarrow> 'v hmap option" where
  "map_del m k =
     (case probe (buckets m) k (home (cap m) k) (cap m) of
        None \<Rightarrow> None
      | Some (i, False) \<Rightarrow> Some m
      | Some (i, True) \<Rightarrow>
          Some (m\<lparr>buckets := (buckets m)[i := None], order := drop_order i (order m)\<rparr>))"

definition map_keys :: "'v hmap \<Rightarrow> string list" where
  "map_keys m =
     List.map_filter (\<lambda>bi. if bi < cap m then map_option fst (buckets m ! bi) else None) (order m)"

text \<open>The map case of \<open>value_copy\<close>: every entry is set again, in insertion order.\<close>

fun copy_loop :: "(string \<times> 'v) option list \<Rightarrow> nat list \<Rightarrow> 'v hmap \<Rightarrow> 'v hmap option" where
  "copy_loop b [] r = Some r"
| "copy_loop b (j # js) r =
     (case b ! j of
        None \<Rightarrow> None
      | Some (k, v) \<Rightarrow> do { r' \<leftarrow> map_set r k v; copy_loop b js r' })"

definition map_copy :: "'v hmap \<Rightarrow> 'v hmap option" where
  "map_copy m = copy_loop (buckets m) (order m) map_new"

end
