(* ===== verification/XMapProofs.thy ===== *)
theory XMapProofs
  imports XMap
begin

text \<open>
  The hash map is a finite map that remembers insertion order. \<open>map_inv\<close> is what every
  operation keeps (and why probing ends); \<open>map_wf\<close> adds the probe chains, which \<open>map_set\<close>
  keeps and \<open>map_del\<close> breaks. What the clients need of it is the locale \<open>string_map\<close>,
  interpreted once on \<open>map_set\<close> and once on \<open>map_put\<close> with room left, which is how growing
  a table is proved correct.
\<close>

section \<open>The interface\<close>

text \<open>Setting a list of entries in order.\<close>

fun fill :: "('m \<Rightarrow> string \<Rightarrow> 'v \<Rightarrow> 'm option) \<Rightarrow> (string \<times> 'v) list \<Rightarrow> 'm \<Rightarrow> 'm option" where
  "fill put [] m = Some m"
| "fill put ((k, v) # kvs) m = do { m' \<leftarrow> put m k v; fill put kvs m' }"

text \<open>\<open>ok r m\<close>: the map is well formed and can take \<open>r\<close> more entries.\<close>

locale string_map =
  fixes ok :: "nat \<Rightarrow> 'm \<Rightarrow> bool"
    and get :: "'m \<Rightarrow> string \<Rightarrow> 'v option"
    and put :: "'m \<Rightarrow> string \<Rightarrow> 'v \<Rightarrow> 'm option"
    and keys :: "'m \<Rightarrow> string list"
  assumes put_ok: "ok (Suc r) m \<Longrightarrow>
      \<exists>m'. put m k v = Some m' \<and> ok r m' \<and> get m' = (get m)(k \<mapsto> v) \<and>
        keys m' = (if get m k = None then keys m @ [k] else keys m)"
begin

lemma fill_ok:
  "ok (length kvs + r) m \<Longrightarrow>
     \<exists>m'. fill put kvs m = Some m' \<and> ok r m' \<and> get m' = get m ++ map_of (rev kvs)"
proof (induction kvs arbitrary: m)
  case (Cons kv kvs)
  obtain k v where kv: "kv = (k, v)" by fastforce
  obtain m1 where m1: "put m k v = Some m1" "ok (length kvs + r) m1" "get m1 = (get m)(k \<mapsto> v)"
    using put_ok [of "length kvs + r" m k v] Cons.prems by auto
  have "get m1 ++ map_of (rev kvs) = get m ++ map_of (rev (kv # kvs))"
    by (rule ext) (simp add: kv m1(3) map_add_def split: option.split)
  then show ?case using Cons.IH [OF m1(2)] m1(1) kv by auto
qed simp

lemma fill_fresh_keys:
  "\<lbrakk>ok (length kvs + r) m; distinct (map fst kvs); \<forall>k \<in> set (map fst kvs). get m k = None; fill put kvs m = Some m'\<rbrakk>
     \<Longrightarrow> keys m' = keys m @ map fst kvs"
proof (induction kvs arbitrary: m)
  case (Cons kv kvs)
  obtain k v where kv: "kv = (k, v)" by fastforce
  obtain m1 where m1: "put m k v = Some m1" "ok (length kvs + r) m1" "get m1 = (get m)(k \<mapsto> v)"
      "keys m1 = keys m @ [k]"
    using put_ok [of "length kvs + r" m k v] Cons.prems kv by auto
  have "keys m' = keys m1 @ map fst kvs"
    using Cons.prems kv m1 by (intro Cons.IH [OF m1(2)]) auto
  then show ?case using m1(4) kv by simp
qed simp

end

section \<open>Probing\<close>

lemma home_less: "0 < n \<Longrightarrow> home n k < n"
  by (simp add: home_def nat_less_iff)

lemma probe_Some:
  "probe b k i f = Some (j, hit) \<Longrightarrow> i < length b \<Longrightarrow>
     \<exists>d < f. j = (i + d) mod length b \<and>
       (\<forall>e < d. \<exists>k' v. b ! ((i + e) mod length b) = Some (k', v) \<and> k' \<noteq> k) \<and>
       (if hit then \<exists>v. b ! j = Some (k, v) else b ! j = None)"
proof (induction f arbitrary: i)
  case (Suc f)
  show ?case
  proof (cases "\<exists>k' v. b ! i = Some (k', v) \<and> k' \<noteq> k")
    case True
    then obtain k' v where bi: "b ! i = Some (k', v)" "k' \<noteq> k" by blast
    then have "probe b k (Suc i mod length b) f = Some (j, hit)" using Suc.prems by simp
    moreover have "Suc i mod length b < length b" using Suc.prems(2) by (intro mod_less_divisor) linarith
    ultimately obtain d where d: "d < f" "j = (Suc i + d) mod length b"
        "\<forall>e < d. \<exists>k' v. b ! ((Suc i + e) mod length b) = Some (k', v) \<and> k' \<noteq> k"
        "if hit then \<exists>v. b ! j = Some (k, v) else b ! j = None"
      using Suc.IH [of "Suc i mod length b"] by (auto simp: mod_add_left_eq mod_Suc_eq)
    have "\<exists>k' v. b ! ((i + e) mod length b) = Some (k', v) \<and> k' \<noteq> k" if "e < Suc d" for e
      using that bi d(3) Suc.prems(2) by (cases e) auto
    then show ?thesis using d by (intro exI [of _ "Suc d"]) auto
  next
    case False
    then show ?thesis using Suc.prems by (intro exI [of _ 0]) (auto split: option.splits if_splits)
  qed
qed simp

lemma probe_None:
  "probe b k i f = None \<Longrightarrow> i < length b \<Longrightarrow> e < f \<Longrightarrow>
     \<exists>k' v. b ! ((i + e) mod length b) = Some (k', v) \<and> k' \<noteq> k"
proof (induction f arbitrary: i e)
  case (Suc f)
  then obtain k' v where bi: "b ! i = Some (k', v)" "k' \<noteq> k" by (auto split: option.splits if_splits)
  show ?case
  proof (cases e)
    case 0
    then show ?thesis using bi Suc.prems by auto
  next
    case (Suc e')
    have "Suc i mod length b < length b" using Suc.prems(2) by (intro mod_less_divisor) linarith
    then show ?thesis
      using Suc.IH [of "Suc i mod length b" e'] Suc.prems bi Suc by (auto simp: mod_add_left_eq mod_Suc_eq)
  qed
qed simp

lemma get_loop_probe:
  "get_loop b k i f =
     (case probe b k i f of Some (j, True) \<Rightarrow> (case b ! j of Some (k', v) \<Rightarrow> Some (j, v) | None \<Rightarrow> None) | _ \<Rightarrow> None)"
  by (induction f arbitrary: i) (auto split: option.splits)

lemma cyclic_cover:
  fixes i j n :: nat
  assumes "i < n" and "j < n"
  shows "\<exists>d < n. j = (i + d) mod n"
proof (cases "i \<le> j")
  case True
  then show ?thesis using assms by (intro exI [of _ "j - i"]) auto
next
  case False
  then show ?thesis using assms by (intro exI [of _ "n + j - i"]) auto
qed

section \<open>The invariants\<close>

definition map_inv :: "'v hmap \<Rightarrow> bool" where
  "map_inv m \<longleftrightarrow> 8 \<le> cap m \<and> distinct (order m) \<and>
     set (order m) = {i. i < cap m \<and> buckets m ! i \<noteq> None} \<and> 10 * len m \<le> 7 * cap m + 10"

text \<open>Every key sits in one bucket, and every bucket from its home up to there is occupied.\<close>

definition chains :: "(string \<times> 'v) option list \<Rightarrow> bool" where
  "chains b \<longleftrightarrow>
     (\<forall>i < length b. \<forall>k v. b ! i = Some (k, v) \<longrightarrow>
        (\<exists>d < length b. i = (home (length b) k + d) mod length b \<and>
           (\<forall>e < d. b ! ((home (length b) k + e) mod length b) \<noteq> None)))"

definition unique_keys :: "(string \<times> 'v) option list \<Rightarrow> bool" where
  "unique_keys b \<longleftrightarrow>
     (\<forall>i < length b. \<forall>j < length b. \<forall>k v w. b ! i = Some (k, v) \<longrightarrow> b ! j = Some (k, w) \<longrightarrow> i = j)"

definition map_wf :: "'v hmap \<Rightarrow> bool" where
  "map_wf m \<longleftrightarrow> map_inv m \<and> chains (buckets m) \<and> unique_keys (buckets m)"

lemma map_wf_new: "map_wf (map_new :: 'v hmap)"
  by (auto simp: map_wf_def map_inv_def map_new_def chains_def unique_keys_def)

lemma order_less_cap:
  assumes "map_inv m"
  shows "len m < cap m"
  using assms by (simp add: map_inv_def)

lemma empty_bucket_exists:
  assumes "map_inv m"
  shows "\<exists>j < cap m. buckets m ! j = None"
proof (rule ccontr)
  assume "\<not> ?thesis"
  then have "{i. i < cap m \<and> buckets m ! i \<noteq> None} = {i. i < cap m}" by force
  then have "set (order m) = {i. i < cap m}" using assms by (simp only: map_inv_def)
  then have "card (set (order m)) = cap m" by (simp only: card_Collect_less_nat)
  moreover have "card (set (order m)) = len m"
    using assms unfolding map_inv_def by (intro distinct_card) blast
  ultimately have "len m = cap m" by simp
  then show False using order_less_cap [OF assms] by simp
qed

text \<open>Probing ends: the load stays below the capacity, so some bucket is empty.\<close>

lemma probe_total:
  assumes "map_inv m"
  obtains j hit where "probe (buckets m) k (home (cap m) k) (cap m) = Some (j, hit)"
proof (cases "probe (buckets m) k (home (cap m) k) (cap m)")
  case None
  obtain j where j: "j < cap m" "buckets m ! j = None" using empty_bucket_exists [OF assms] by blast
  have h: "home (cap m) k < cap m" using j(1) by (intro home_less) linarith
  obtain d where "d < cap m" "j = (home (cap m) k + d) mod cap m" using cyclic_cover [OF h j(1)] by blast
  then show ?thesis using probe_None [OF None h, of d] j(2) by force
qed (use that in auto)

section \<open>Lookup\<close>

text \<open>What the table maps a key to, wherever its bucket is.\<close>

definition holds :: "(string \<times> 'v) option list \<Rightarrow> string \<Rightarrow> 'v \<Rightarrow> bool" where
  "holds b k v \<longleftrightarrow> (\<exists>i < length b. b ! i = Some (k, v))"

lemma holds_unique: "unique_keys b \<Longrightarrow> holds b k v \<Longrightarrow> holds b k w \<Longrightarrow> v = w"
  unfolding unique_keys_def holds_def by (metis option.inject prod.inject)

text \<open>The probe of a key finds it if it is in the table, else the empty bucket that ends its chain.\<close>

lemma probe_wf:
  assumes "map_wf m" and "probe (buckets m) k (home (cap m) k) (cap m) = Some (j, hit)"
  shows "j < cap m" and "hit \<Longrightarrow> \<exists>v. buckets m ! j = Some (k, v)"
    and "\<not> hit \<Longrightarrow> buckets m ! j = None \<and> \<not> holds (buckets m) k v"
    and "\<exists>d < cap m. j = (home (cap m) k + d) mod cap m \<and>
           (\<forall>e < d. buckets m ! ((home (cap m) k + e) mod cap m) \<noteq> None)"
proof -
  let ?n = "cap m" and ?b = "buckets m" and ?h = "home (cap m) k"
  have n: "0 < ?n" using assms(1) by (auto simp: map_wf_def map_inv_def)
  from probe_Some [OF assms(2) home_less [OF n]] obtain d
    where d: "d < ?n" "j = (?h + d) mod ?n"
      "\<forall>e < d. \<exists>k' v. ?b ! ((?h + e) mod ?n) = Some (k', v) \<and> k' \<noteq> k"
      "if hit then \<exists>v. ?b ! j = Some (k, v) else ?b ! j = None" by blast
  show "j < ?n" using d(2) n by simp
  show "hit \<Longrightarrow> \<exists>v. ?b ! j = Some (k, v)" using d(4) by simp
  show "\<exists>d < ?n. j = (?h + d) mod ?n \<and> (\<forall>e < d. ?b ! ((?h + e) mod ?n) \<noteq> None)"
    using d(1-3) by (intro exI [of _ d]) force
  show "?b ! j = None \<and> \<not> holds ?b k v" if "\<not> hit"
  proof
    show jn: "?b ! j = None" using d(4) that by simp
    show "\<not> holds ?b k v"
    proof
      assume "holds ?b k v"
      then obtain i where i: "i < ?n" "?b ! i = Some (k, v)" by (auto simp: holds_def)
      then obtain d' where d': "i = (?h + d') mod ?n" "\<forall>e < d'. ?b ! ((?h + e) mod ?n) \<noteq> None"
        using assms(1) unfolding map_wf_def chains_def by blast
      have "d' < d \<or> d' = d \<or> d < d'" by linarith
      then show False using d(2,3) d' i(2) jn by (elim disjE) force+
    qed
  qed
qed

lemma map_get_at_holds:
  assumes "map_wf m"
  shows "map_get_at m k = Some (i, v) \<longleftrightarrow> i < cap m \<and> buckets m ! i = Some (k, v)"
proof -
  have inv: "map_inv m" using assms by (simp add: map_wf_def)
  obtain j hit where p: "probe (buckets m) k (home (cap m) k) (cap m) = Some (j, hit)"
    using probe_total [OF inv] .
  note w = probe_wf [OF assms p]
  have u: "i = j" if "hit" "i < cap m" "buckets m ! i = Some (k, v)"
    using assms w(1) w(2) [OF that(1)] that(2,3) unfolding map_wf_def unique_keys_def by blast
  show ?thesis
  proof (cases hit)
    case True
    then obtain v' where "buckets m ! j = Some (k, v')" using w(2) by blast
    then show ?thesis using p u [OF True] w(1) True by (auto simp: map_get_at_def get_loop_probe)
  next
    case False
    then show ?thesis using p w(3) [OF False, of v] by (auto simp: map_get_at_def get_loop_probe holds_def)
  qed
qed

lemma map_get_holds: "map_wf m \<Longrightarrow> map_get m k = Some v \<longleftrightarrow> holds (buckets m) k v"
  unfolding map_get_def holds_def map_option_eq_Some using map_get_at_holds [of m k] by auto

lemma map_get_None: "map_wf m \<Longrightarrow> map_get m k = None \<longleftrightarrow> (\<forall>v. \<not> holds (buckets m) k v)"
  using map_get_holds [of m k] by (metis not_None_eq)

section \<open>Insertion\<close>

lemma option_eqI: "(\<And>u. x = Some u \<longleftrightarrow> y = Some u) \<Longrightarrow> x = y"
  by (cases x; cases y) auto

lemma holds_update:
  assumes "i < length b" and "b ! i = None \<or> (\<exists>w. b ! i = Some (k, w))"
    and sole: "\<And>j w. \<lbrakk>j < length b; b ! j = Some (k, w)\<rbrakk> \<Longrightarrow> j = i"
  shows "holds (b[i := Some (k, v)]) k' w \<longleftrightarrow> (if k' = k then w = v else holds b k' w)"
proof
  assume "holds (b[i := Some (k, v)]) k' w"
  then obtain x where x: "x < length b" "b[i := Some (k, v)] ! x = Some (k', w)" by (auto simp: holds_def)
  show "if k' = k then w = v else holds b k' w"
  proof (cases "x = i")
    case True
    then show ?thesis using x assms(1) by simp
  next
    case False
    then have "b ! x = Some (k', w)" using x by simp
    then show ?thesis using x(1) sole [of x w] False by (auto simp: holds_def)
  qed
next
  assume a: "if k' = k then w = v else holds b k' w"
  show "holds (b[i := Some (k, v)]) k' w"
  proof (cases "k' = k")
    case True
    then show ?thesis using a assms(1) by (auto simp: holds_def intro: exI [of _ i])
  next
    case False
    then obtain x where "x < length b" "b ! x = Some (k', w)" using a by (auto simp: holds_def)
    moreover from this have "x \<noteq> i" using assms(2) False by auto
    ultimately show ?thesis by (auto simp: holds_def intro: exI [of _ x])
  qed
qed

lemma chains_update:
  assumes "chains b" and "i < length b" and "b ! i = None \<or> (\<exists>w. b ! i = Some (k, w))"
    and "\<exists>d < length b. i = (home (length b) k + d) mod length b \<and>
           (\<forall>e < d. b ! ((home (length b) k + e) mod length b) \<noteq> None)"
  shows "chains (b[i := Some (k, v)])"
proof -
  have keep: "b[i := Some (k, v)] ! x \<noteq> None" if "b ! x \<noteq> None" for x
    using that by (cases "x = i"; cases "i < length b") (simp_all add: list_update_beyond)
  show ?thesis unfolding chains_def length_list_update
  proof (intro allI impI)
    fix x k' v' assume x: "x < length b" "b[i := Some (k, v)] ! x = Some (k', v')"
    show "\<exists>d < length b. x = (home (length b) k' + d) mod length b \<and>
        (\<forall>e < d. b[i := Some (k, v)] ! ((home (length b) k' + e) mod length b) \<noteq> None)"
    proof -
      have "\<exists>d < length b. x = (home (length b) k' + d) mod length b \<and>
          (\<forall>e < d. b ! ((home (length b) k' + e) mod length b) \<noteq> None)"
      proof (cases "x = i")
        case True
        then have "k' = k" using x assms(2) by simp
        then show ?thesis using assms(4) True by simp
      next
        case False
        then have "b ! x = Some (k', v')" using x(2) by simp
        then show ?thesis using assms(1) x(1) unfolding chains_def by blast
      qed
      then obtain d where d: "d < length b" "x = (home (length b) k' + d) mod length b"
          "\<forall>e < d. b ! ((home (length b) k' + e) mod length b) \<noteq> None" by blast
      have "b[i := Some (k, v)] ! ((home (length b) k' + e) mod length b) \<noteq> None" if "e < d" for e
        using d(3) that by (intro keep) blast
      then show ?thesis using d(1,2) by blast
    qed
  qed
qed

lemma unique_update:
  assumes "unique_keys b" and "i < length b"
    and sole: "\<And>j w. \<lbrakk>j < length b; b ! j = Some (k, w)\<rbrakk> \<Longrightarrow> j = i"
  shows "unique_keys (b[i := Some (k, v)])"
proof -
  have "x = y" if xy: "x < length b" "y < length b" and x: "b[i := Some (k, v)] ! x = Some (k', a)"
      and y: "b[i := Some (k, v)] ! y = Some (k', c)" for x y k' a c
  proof (cases "k' = k")
    case True
    have "z = i" if "z < length b" "b[i := Some (k, v)] ! z = Some (k, e)" for z e
    proof (rule ccontr)
      assume "z \<noteq> i"
      then have "b ! z = Some (k, e)" using that(2) by simp
      then show False using sole that(1) \<open>z \<noteq> i\<close> by blast
    qed
    then show ?thesis using xy x y True by blast
  next
    case False
    have other: "z \<noteq> i" if "b[i := Some (k, v)] ! z = Some (k', e)" for z e
      using that assms(2) False by (cases "z = i") simp_all
    have "x \<noteq> i" "y \<noteq> i" using other [OF x] other [OF y] .
    then have "b ! x = Some (k', a)" "b ! y = Some (k', c)" using x y by simp_all
    then show ?thesis using assms(1) xy unfolding unique_keys_def by blast
  qed
  then show ?thesis unfolding unique_keys_def length_list_update by blast
qed

text \<open>The order list names the occupied buckets, so \<open>map_keys\<close> reads them in insertion order.\<close>

definition key_at :: "(string \<times> 'v) option list \<Rightarrow> nat \<Rightarrow> string" where
  "key_at b i = (case b ! i of Some (k, v) \<Rightarrow> k | None \<Rightarrow> [])"

lemma map_keys_order: "map_inv m \<Longrightarrow> map_keys m = map (key_at (buckets m)) (order m)"
proof -
  assume inv: "map_inv m"
  have "List.map_filter (\<lambda>bi. if bi < cap m then map_option fst (buckets m ! bi) else None) xs =
      map (key_at (buckets m)) xs" if "set xs \<subseteq> set (order m)" for xs
    using that inv
    by (induction xs) (auto simp: map_filter_simps key_at_def map_inv_def split: option.splits)
  then show ?thesis by (simp add: map_keys_def)
qed

lemma probe_range:
  assumes "map_inv m" and "probe (buckets m) k (home (cap m) k) (cap m) = Some (j, hit)"
  shows "j < cap m" and "hit \<longleftrightarrow> buckets m ! j \<noteq> None"
proof -
  have n: "0 < cap m" using assms(1) unfolding map_inv_def by linarith
  from probe_Some [OF assms(2) home_less [OF n]] show "hit \<longleftrightarrow> buckets m ! j \<noteq> None" "j < cap m"
    using n by (auto split: if_splits)
qed

lemma map_put_inv:
  assumes inv: "map_inv m" and room: "10 * len m \<le> 7 * cap m"
  shows "\<exists>m'. map_put m k v = Some m' \<and> map_inv m' \<and> cap m' = cap m \<and> len m' \<le> Suc (len m)"
proof -
  obtain j hit where p: "probe (buckets m) k (home (cap m) k) (cap m) = Some (j, hit)"
    using probe_total [OF inv] .
  note w = probe_range [OF inv p]
  let ?b = "(buckets m)[j := Some (k, v)]"
  have occ: "{i. i < cap m \<and> ?b ! i \<noteq> None} = insert j {i. i < cap m \<and> buckets m ! i \<noteq> None}"
    using w(1) by (auto simp: nth_list_update)
  have old: "j \<in> set (order m) \<longleftrightarrow> hit" using w inv by (auto simp: map_inv_def)
  show ?thesis
  proof (cases hit)
    case True
    then show ?thesis using p inv occ old by (auto simp: map_put_def map_inv_def)
  next
    case False
    then show ?thesis using p inv occ old room by (auto simp: map_put_def map_inv_def)
  qed
qed

lemma map_put_wf:
  assumes wf: "map_wf m" and room: "10 * len m \<le> 7 * cap m"
  shows "\<exists>m'. map_put m k v = Some m' \<and> map_wf m' \<and> map_get m' = (map_get m)(k \<mapsto> v) \<and>
    cap m' = cap m \<and> len m' \<le> Suc (len m) \<and>
    map_keys m' = (if map_get m k = None then map_keys m @ [k] else map_keys m)"
proof -
  have inv: "map_inv m" using wf by (simp add: map_wf_def)
  obtain j hit where p: "probe (buckets m) k (home (cap m) k) (cap m) = Some (j, hit)"
    using probe_total [OF inv] .
  note w = probe_wf [OF wf p]
  let ?b = "(buckets m)[j := Some (k, v)]"
  have here: "buckets m ! j = None \<or> (\<exists>v. buckets m ! j = Some (k, v))" using w(2,3) by (cases hit) auto
  have sole: "x = j" if "x < cap m" "buckets m ! x = Some (k, u)" for x u
  proof (cases hit)
    case True
    then show ?thesis using w(1,2) that wf unfolding map_wf_def unique_keys_def by blast
  next
    case False
    then show ?thesis using w(3) [of u] that by (auto simp: holds_def)
  qed
  have b: "chains ?b" "unique_keys ?b"
    using chains_update [OF _ w(1) here w(4)] unique_update [OF _ w(1)] sole wf unfolding map_wf_def by blast+
  define m' where "m' = (if hit then m\<lparr>buckets := ?b\<rparr>
    else m\<lparr>buckets := ?b,
           order_cap := (if order_cap m \<le> len m then if 0 < order_cap m then order_cap m * 2 else 8 else order_cap m),
           order := order m @ [j]\<rparr>)"
  have put: "map_put m k v = Some m'" using p by (simp add: map_put_def m'_def split: bool.split)
  have bk: "buckets m' = ?b" by (simp add: m'_def)
  have inv': "map_inv m'" using map_put_inv [OF inv room, of k v] put by auto
  then have wf': "map_wf m'" using b bk by (simp add: map_wf_def)
  have holds_b: "holds ?b k' u \<longleftrightarrow> (if k' = k then u = v else holds (buckets m) k' u)" for k' u
    using holds_update [OF w(1) here] sole by blast
  have get: "map_get m' = (map_get m)(k \<mapsto> v)"
  proof (rule ext)
    fix k'
    have "map_get m' k' = Some u \<longleftrightarrow> ((map_get m)(k \<mapsto> v)) k' = Some u" for u
      unfolding map_get_holds [OF wf'] bk holds_b using map_get_holds [OF wf, of k' u] by auto
    then show "map_get m' k' = ((map_get m)(k \<mapsto> v)) k'" by (meson option_eqI)
  qed
  have missing: "map_get m k = None \<longleftrightarrow> \<not> hit"
    unfolding map_get_None [OF wf] using w(1,2,3) by (cases hit) (auto simp: holds_def)
  have ka: "key_at ?b i = key_at (buckets m) i" if "i \<in> set (order m)" for i
    using that w(2) here inv by (cases "i = j") (auto simp: key_at_def map_inv_def)
  have keys: "map_keys m' = (if map_get m k = None then map_keys m @ [k] else map_keys m)"
    unfolding map_keys_order [OF inv'] map_keys_order [OF inv] missing bk
    using ka w(1) by (auto simp: m'_def key_at_def)
  show ?thesis using put wf' get keys by (auto simp: m'_def)
qed

section \<open>Growing and setting\<close>

interpretation put: string_map
  "\<lambda>r m. map_wf m \<and> 10 * (len m + r) \<le> 7 * cap m + 10" map_get map_put map_keys
proof
  fix r k v and m :: "'a hmap"
  assume a: "map_wf m \<and> 10 * (len m + Suc r) \<le> 7 * cap m + 10"
  then have "10 * len m \<le> 7 * cap m" by simp
  from map_put_wf [OF _ this, of k v] a
  show "\<exists>m'. map_put m k v = Some m' \<and> (map_wf m' \<and> 10 * (len m' + r) \<le> 7 * cap m' + 10) \<and>
      map_get m' = (map_get m)(k \<mapsto> v) \<and>
      map_keys m' = (if map_get m k = None then map_keys m @ [k] else map_keys m)"
    by fastforce
qed

text \<open>The entries of a table in insertion order.\<close>

definition entries :: "(string \<times> 'v) option list \<Rightarrow> nat list \<Rightarrow> (string \<times> 'v) list" where
  "entries b ord = map (\<lambda>i. the (b ! i)) ord"

lemma grow_loop_fill:
  "\<lbrakk>\<forall>i \<in> set ord. b ! i \<noteq> None; map_wf m; 10 * (len m + length ord) \<le> 7 * cap m + 10\<rbrakk> \<Longrightarrow>
     grow_loop (map_set_upto (Suc d)) b ord m = fill map_put (entries b ord) m"
proof (induction ord arbitrary: m)
  case (Cons i ord)
  obtain k v where b: "b ! i = Some (k, v)" using Cons.prems(1) by auto
  have room: "10 * len m \<le> 7 * cap m" using Cons.prems(3) by simp
  then have s: "map_set_upto (Suc d) m k v = map_put m k v" by simp
  obtain m' where m': "map_put m k v = Some m'" "map_wf m'" "10 * (len m' + length ord) \<le> 7 * cap m' + 10"
    using put.put_ok [of m "length ord" k v] Cons.prems(2,3) by auto
  then show ?case using Cons.IH [OF _ m'(2,3)] Cons.prems(1) b s by (simp add: entries_def)
qed (simp add: entries_def)

lemma map_of_entries:
  assumes "map_wf m"
  shows "map_of (entries (buckets m) (order m)) = map_get m"
    and "map_of (rev (entries (buckets m) (order m))) = map_get m"
    and "distinct (map fst (entries (buckets m) (order m)))"
    and "map fst (entries (buckets m) (order m)) = map_keys m"
proof -
  let ?es = "entries (buckets m) (order m)"
  have inv: "map_inv m" using assms by (simp add: map_wf_def)
  have occ: "i < cap m \<and> buckets m ! i \<noteq> None" if "i \<in> set (order m)" for i
    using that inv by (simp add: map_inv_def)
  have fst_eq: "fst (the (buckets m ! i)) = key_at (buckets m) i" if "i \<in> set (order m)" for i
    using occ [OF that] by (auto simp: key_at_def)
  then show keys: "map fst ?es = map_keys m"
    unfolding map_keys_order [OF inv] by (simp add: entries_def)
  have "inj_on (\<lambda>i. fst (the (buckets m ! i))) (set (order m))"
  proof (rule inj_onI)
    fix i j assume "i \<in> set (order m)" "j \<in> set (order m)" "fst (the (buckets m ! i)) = fst (the (buckets m ! j))"
    moreover from this obtain k v w where "buckets m ! i = Some (k, v)" "buckets m ! j = Some (k, w)"
      using occ by fastforce
    ultimately show "i = j" using occ assms unfolding map_wf_def unique_keys_def by blast
  qed
  then show d: "distinct (map fst ?es)"
    using inv by (simp add: entries_def comp_def distinct_map map_inv_def)
  have "map_of ?es k = Some v \<longleftrightarrow> map_get m k = Some v" for k v
  proof -
    have "map_of ?es k = Some v \<longleftrightarrow> (k, v) \<in> set ?es" using d by (intro map_of_eq_Some_iff)
    also have "\<dots> \<longleftrightarrow> holds (buckets m) k v"
      using occ inv by (force simp: entries_def holds_def map_inv_def)
    finally show ?thesis by (simp add: map_get_holds [OF assms])
  qed
  then show e: "map_of ?es = map_get m" by (intro ext option_eqI)
  have "map_of (rev ?es) = map_of ?es" 
    using d by (intro ext option_eqI) (simp add: map_of_eq_Some_iff rev_map [symmetric])
  then show "map_of (rev ?es) = map_get m" using e by simp
qed

lemma map_grow_wf:
  assumes wf: "map_wf m" and load: "len m \<le> cap m"
  shows "\<exists>m'. map_grow (map_set_upto (Suc d)) m = Some m' \<and> map_wf m' \<and> 10 * len m' \<le> 7 * cap m' \<and>
    map_get m' = map_get m \<and> map_keys m' = map_keys m"
proof -
  define e where "e = \<lparr>buckets = replicate (cap m * 2) None :: (string \<times> 'a) option list, order = [], order_cap = order_cap m\<rparr>"
  let ?es = "entries (buckets m) (order m)"
  have inv: "map_inv m" using wf by (simp add: map_wf_def)
  have c: "8 \<le> cap m" using inv by (simp add: map_inv_def)
  then have e: "map_wf e" by (auto simp: e_def map_wf_def map_inv_def chains_def unique_keys_def)
  have empty: "map_get e = (\<lambda>k. None)" "map_keys e = []"
    by (simp_all add: fun_eq_iff map_get_None [OF e]) (simp_all add: e_def holds_def map_keys_def map_filter_simps)
  have room: "10 * (len e + (length ?es + 1)) \<le> 7 * cap e + 10"
    using load c by (simp add: e_def entries_def)
  have g: "map_grow (map_set_upto (Suc d)) m = fill map_put ?es e"
    unfolding map_grow_def e_def [symmetric] using room e inv
    by (intro grow_loop_fill) (auto simp: entries_def map_inv_def)
  obtain m' where m': "fill map_put ?es e = Some m'" "map_wf m'" "10 * (len m' + 1) \<le> 7 * cap m' + 10"
      "map_get m' = map_get e ++ map_of (rev ?es)"
    using put.fill_ok [of e ?es 1] e room by auto
  have "map_keys m' = map_keys e @ map fst ?es"
    using put.fill_fresh_keys [OF _ _ _ m'(1), of 1] e room map_of_entries(3) [OF wf] empty by simp
  then show ?thesis
    using g m' empty map_of_entries(2,4) [OF wf] by (simp add: map_add_def)
qed

lemma map_set_ok:
  assumes wf: "map_wf m"
  shows "\<exists>m'. map_set m k v = Some m' \<and> map_wf m' \<and> map_get m' = (map_get m)(k \<mapsto> v) \<and>
    map_keys m' = (if map_get m k = None then map_keys m @ [k] else map_keys m)"
proof (cases "7 * cap m < 10 * len m")
  case True
  have "len m \<le> cap m" using order_less_cap [of m] wf by (simp add: map_wf_def)
  then obtain m1 where m1: "map_grow (map_set_upto (Suc 0)) m = Some m1" "map_wf m1" "10 * len m1 \<le> 7 * cap m1"
      "map_get m1 = map_get m" "map_keys m1 = map_keys m"
    using map_grow_wf [OF wf] by blast
  have "map_set m k v = map_put m1 k v" using True m1(1) by (simp add: map_set_def numeral_2_eq_2)
  then show ?thesis using map_put_wf [OF m1(2,3), of k v] m1(4,5) by auto
next
  case False
  then have "map_set m k v = map_put m k v" by (simp add: map_set_def numeral_2_eq_2)
  then show ?thesis using map_put_wf [OF wf _, of k v] False by auto
qed

interpretation set: string_map "\<lambda>r. map_wf" map_get map_set map_keys
  by unfold_locales (rule map_set_ok)

section \<open>Copying\<close>

lemma copy_loop_fill:
  "\<forall>i \<in> set ord. b ! i \<noteq> None \<Longrightarrow> copy_loop b ord r = fill map_set (entries b ord) r"
proof (induction ord arbitrary: r)
  case (Cons i ord)
  then have "copy_loop b ord = fill map_set (entries b ord)" by (intro ext) simp
  then show ?case using Cons.prems by (auto simp: entries_def)
qed (simp add: entries_def)

lemma map_copy_ok:
  assumes "map_wf m"
  shows "\<exists>m'. map_copy m = Some m' \<and> map_wf m' \<and> map_get m' = map_get m \<and> map_keys m' = map_keys m"
proof -
  let ?es = "entries (buckets m) (order m)"
  have empty: "map_get (map_new :: 'a hmap) = (\<lambda>k. None)" "map_keys (map_new :: 'a hmap) = []"
    by (simp_all add: fun_eq_iff map_get_None [OF map_wf_new])
      (simp_all add: map_new_def holds_def map_keys_def map_filter_simps)
  have c: "map_copy m = fill map_set ?es map_new"
    using assms unfolding map_copy_def map_wf_def map_inv_def by (intro copy_loop_fill) auto
  obtain m' where m': "fill map_set ?es map_new = Some m'" "map_wf m'" "map_get m' = map_get map_new ++ map_of (rev ?es)"
    using set.fill_ok [OF map_wf_new] by blast
  moreover have "map_keys m' = map fst ?es"
    using set.fill_fresh_keys [OF map_wf_new _ _ m'(1)] map_of_entries(3) [OF assms] empty by simp
  ultimately show ?thesis using c empty map_of_entries(2,4) [OF assms] by (simp add: map_add_def)
qed

section \<open>Deletion\<close>

text \<open>
  Deletion keeps what makes the other operations end and stay in range, whatever the table.
\<close>

lemma drop_order_set:
  assumes "map_inv m" and "i \<in> set (order m)"
  shows "set (drop_order i (order m)) = set (order m) - {i}" and "distinct (drop_order i (order m))"
    and "length (drop_order i (order m)) = len m - 1"
  using assms by (auto simp: drop_order_def map_inv_def length_remove1)

lemma map_del_inv:
  assumes inv: "map_inv m"
  shows "\<exists>m'. map_del m k = Some m' \<and> map_inv m'"
proof -
  obtain j hit where p: "probe (buckets m) k (home (cap m) k) (cap m) = Some (j, hit)"
    using probe_total [OF inv] .
  note w = probe_range [OF inv p]
  show ?thesis
  proof (cases hit)
    case True
    then have j: "j \<in> set (order m)" using w inv by (auto simp: map_inv_def)
    have "{i. i < cap m \<and> (buckets m)[j := None] ! i \<noteq> None} = {i. i < cap m \<and> buckets m ! i \<noteq> None} - {j}"
      using w(1) by (auto simp: nth_list_update)
    then show ?thesis
      using p True inv drop_order_set [OF inv j] by (auto simp: map_del_def map_inv_def)
  next
    case False
    then show ?thesis using p inv by (simp add: map_del_def)
  qed
qed

lemma grow_loop_inv:
  "\<lbrakk>map_inv m; 10 * (len m + length ord) \<le> 7 * cap m\<rbrakk> \<Longrightarrow>
     \<exists>m'. grow_loop (map_set_upto (Suc d)) b ord m = Some m' \<and> map_inv m' \<and> 10 * len m' \<le> 7 * cap m'"
proof (induction ord arbitrary: m)
  case (Cons i ord)
  show ?case
  proof (cases "b ! i")
    case None
    then show ?thesis using Cons by simp
  next
    case (Some kv)
    obtain k v where kv: "kv = (k, v)" by fastforce
    obtain m' where m': "map_put m k v = Some m'" "map_inv m'" "cap m' = cap m" "len m' \<le> Suc (len m)"
      using map_put_inv [OF Cons.prems(1), of k v] Cons.prems(2) by auto
    then have "10 * (len m' + length ord) \<le> 7 * cap m'" using Cons.prems(2) by simp
    then show ?thesis using Cons.IH [OF m'(2)] m'(1) Some kv Cons.prems(2) by auto
  qed
qed simp

lemma map_set_inv:
  assumes inv: "map_inv m"
  shows "\<exists>m'. map_set m k v = Some m' \<and> map_inv m'"
proof (cases "7 * cap m < 10 * len m")
  case True
  define e where "e = \<lparr>buckets = replicate (cap m * 2) None :: (string \<times> 'a) option list, order = [], order_cap = order_cap m\<rparr>"
  have c: "8 \<le> cap m" "len m < cap m" using inv order_less_cap by (simp_all add: map_inv_def)
  then have e: "map_inv e" "10 * (len e + len m) \<le> 7 * cap e" by (auto simp: e_def map_inv_def)
  obtain m1 where m1: "map_grow (map_set_upto (Suc 0)) m = Some m1" "map_inv m1" "10 * len m1 \<le> 7 * cap m1"
    using grow_loop_inv [OF e] unfolding map_grow_def e_def [symmetric] by blast
  have "map_set m k v = map_put m1 k v" using True m1(1) by (simp add: map_set_def numeral_2_eq_2)
  then show ?thesis using map_put_inv [OF m1(2,3), of k v] by auto
next
  case False
  then have "map_set m k v = map_put m k v" by (simp add: map_set_def numeral_2_eq_2)
  then show ?thesis using map_put_inv [OF inv, of k v] False by auto
qed

text \<open>
  A deletion whose bucket is followed by an empty one keeps the chains, and is then the
  deletion of the key; inside a run of occupied buckets it cuts the chains behind it.
\<close>

lemma map_del_end_of_run:
  assumes wf: "map_wf m" and at: "map_get_at m k = Some (i, v)" and free: "buckets m ! (Suc i mod cap m) = None"
  shows "\<exists>m'. map_del m k = Some m' \<and> map_wf m' \<and> map_get m' = (map_get m)(k := None)"
proof -
  let ?n = "cap m" and ?b = "buckets m"
  let ?c = "?b[i := None]"
  have inv: "map_inv m" and ch: "chains ?b" and un: "unique_keys ?b" using wf by (simp_all add: map_wf_def)
  have n: "0 < ?n" using inv by (auto simp: map_inv_def)
  have i: "i < ?n" "?b ! i = Some (k, v)" using at map_get_at_holds [OF wf] by auto
  obtain m' where m': "map_del m k = Some m'" "map_inv m'" using map_del_inv [OF inv] by blast
  obtain j hit where p: "probe ?b k (home ?n k) ?n = Some (j, hit)" using probe_total [OF inv] .
  have h: "hit" using probe_wf(3) [OF wf p, of v] i by (auto simp: holds_def)
  then obtain w where "?b ! j = Some (k, w)" using probe_wf(2) [OF wf p] by blast
  then have "j = i" using un i probe_wf(1) [OF wf p] unfolding unique_keys_def by blast
  then have bk: "buckets m' = ?c" using m'(1) p h by (auto simp: map_del_def)
  have other: "?c ! x = Some (k', u) \<longleftrightarrow> x \<noteq> i \<and> ?b ! x = Some (k', u)" for x k' u
    using i(1) by (cases "x = i") auto
  have chains: "chains ?c"
    unfolding chains_def length_list_update
  proof (intro allI impI)
    fix x k' u assume x: "x < ?n" "?c ! x = Some (k', u)"
    then have b: "x \<noteq> i" "?b ! x = Some (k', u)" using other by auto
    obtain d where d: "d < ?n" "x = (home ?n k' + d) mod ?n" "\<forall>e < d. ?b ! ((home ?n k' + e) mod ?n) \<noteq> None"
      using ch x(1) b(2) unfolding chains_def by blast
    have "?c ! ((home ?n k' + e) mod ?n) \<noteq> None" if e: "e < d" for e
    proof -
      have "(home ?n k' + e) mod ?n \<noteq> i"
      proof
        assume "(home ?n k' + e) mod ?n = i"
        then have "(home ?n k' + Suc e) mod ?n = Suc i mod ?n" by (metis add_Suc_right mod_Suc_eq)
        then have "?b ! ((home ?n k' + Suc e) mod ?n) = None" using free by simp
        moreover have "Suc e < d \<or> Suc e = d" using e by linarith
        ultimately show False using d b(2) by (elim disjE) auto
      qed
      then show ?thesis using d(3) e by simp
    qed
    then show "\<exists>d < ?n. x = (home ?n k' + d) mod ?n \<and> (\<forall>e < d. ?c ! ((home ?n k' + e) mod ?n) \<noteq> None)"
      using d(1,2) by blast
  qed
  have "unique_keys ?c" using un unfolding unique_keys_def length_list_update other by blast
  then have wf': "map_wf m'" using chains m'(2) bk by (simp add: map_wf_def)
  have hold: "holds ?c k' u \<longleftrightarrow> k' \<noteq> k \<and> holds ?b k' u" for k' u
  proof
    assume "holds ?c k' u"
    then obtain x where x: "x < ?n" "x \<noteq> i" "?b ! x = Some (k', u)" by (auto simp: holds_def other)
    then have "k' \<noteq> k" using un i unfolding unique_keys_def by blast
    then show "k' \<noteq> k \<and> holds ?b k' u" using x by (auto simp: holds_def)
  next
    assume a: "k' \<noteq> k \<and> holds ?b k' u"
    then obtain x where x: "x < ?n" "?b ! x = Some (k', u)" by (auto simp: holds_def)
    moreover have "x \<noteq> i" using a i x by auto
    ultimately show "holds ?c k' u" by (auto simp: holds_def other)
  qed
  have "map_get m' k' = ((map_get m)(k := None)) k'" for k'
    by (rule option_eqI) (simp add: map_get_holds [OF wf'] bk hold map_get_holds [OF wf])
  then show ?thesis using m'(1) wf' by auto
qed

end
