(* ===== verification/XMapSpec.thy ===== *)
theory XMapSpec
  imports XMapProofs "HOL-Library.AList"
begin

text \<open>
  The hash map of \<open>src/core/value.c\<close> against its abstract specification: an association list
  in insertion order. Setting a key is \<open>AList.update\<close>, copying is the identity, reading is
  \<open>map_of\<close>; any sequence of sets and deletions keeps the table in shape, and the deletions
  for which the code is the abstract one are characterised.
\<close>

section \<open>The abstraction\<close>

definition abs_map :: "'v hmap \<Rightarrow> (string \<times> 'v) list" where
  "abs_map m = entries (buckets m) (order m)"

lemma abs_map_facts:
  assumes "map_wf m"
  shows "map_of (abs_map m) = map_get m" and "map fst (abs_map m) = map_keys m"
    and "distinct (map fst (abs_map m))"
  using map_of_entries [OF assms] by (simp_all add: abs_map_def)

lemma alist_eqI:
  "\<lbrakk>map fst xs = map fst ys; distinct (map fst xs); map_of xs = map_of ys\<rbrakk> \<Longrightarrow> xs = ys"
proof (induction xs arbitrary: ys)
  case (Cons x xs)
  obtain y ys' where ys: "ys = y # ys'" using Cons.prems(1) by (cases ys) auto
  have k: "fst x = fst y" "map fst xs = map fst ys'" using Cons.prems(1) ys by simp_all
  have "map_of (x # xs) (fst x) = map_of (y # ys') (fst x)" by (simp only: Cons.prems(3) ys)
  then have xy: "x = y" using k by (simp add: prod_eq_iff)
  have "map_of xs z = map_of ys' z" for z
  proof (cases "z = fst x")
    case True
    then have "z \<notin> fst ` set xs" "z \<notin> fst ` set ys'"
      using Cons.prems(2) k(2) by (auto simp flip: set_map)
    then show ?thesis by (simp flip: map_of_eq_None_iff)
  next
    case False
    then show ?thesis using fun_cong [OF Cons.prems(3), of z] ys k(1) by simp
  qed
  then show ?case using Cons.IH [OF k(2)] Cons.prems(2) ys xy by auto
qed simp

lemma abs_map_set:
  assumes "map_wf m"
  shows "\<exists>m'. map_set m k v = Some m' \<and> map_wf m' \<and> abs_map m' = AList.update k v (abs_map m)"
proof -
  obtain m' where m': "map_set m k v = Some m'" "map_wf m'" "map_get m' = (map_get m)(k \<mapsto> v)"
      "map_keys m' = (if map_get m k = None then map_keys m @ [k] else map_keys m)"
    using map_set_ok [OF assms] by blast
  have k: "k \<in> set (map_keys m) \<longleftrightarrow> map_get m k \<noteq> None"
    using abs_map_facts(1,2) [OF assms] by (metis map_of_eq_None_iff set_map)
  have "abs_map m' = AList.update k v (abs_map m)"
  proof (rule alist_eqI)
    show "map fst (abs_map m') = map fst (AList.update k v (abs_map m))"
      using abs_map_facts(2) [OF assms] abs_map_facts(2) [OF m'(2)] m'(4) k
      by (simp add: update_keys)
    show "distinct (map fst (abs_map m'))" by (rule abs_map_facts(3) [OF m'(2)])
    show "map_of (abs_map m') = map_of (AList.update k v (abs_map m))"
      using abs_map_facts(1) [OF assms] abs_map_facts(1) [OF m'(2)] m'(3) by (simp add: update_conv')
  qed
  then show ?thesis using m' by blast
qed

section \<open>Histories\<close>

text \<open>A history of calls on one map.\<close>

datatype 'v map_op = Set string 'v | Del string

fun run_ops :: "'v map_op list \<Rightarrow> 'v hmap \<Rightarrow> 'v hmap option" where
  "run_ops [] m = Some m"
| "run_ops (Set k v # ops) m = do { m' \<leftarrow> map_set m k v; run_ops ops m' }"
| "run_ops (Del k # ops) m = do { m' \<leftarrow> map_del m k; run_ops ops m' }"

lemma run_ops_inv: "map_inv m \<Longrightarrow> \<exists>m'. run_ops ops m = Some m' \<and> map_inv m'"
proof (induction ops arbitrary: m)
  case (Cons x ops)
  show ?case
  proof (cases x)
    case (Set k v)
    then show ?thesis using map_set_inv [OF Cons.prems, of k v] Cons.IH by auto
  next
    case (Del k)
    then show ?thesis using map_del_inv [OF Cons.prems, of k] Cons.IH by auto
  qed
qed simp

lemma run_sets:
  "map_wf m \<Longrightarrow> \<exists>m'. run_ops (map (\<lambda>(k, v). Set k v) kvs) m = Some m' \<and> map_wf m' \<and>
     abs_map m' = fold (\<lambda>(k, v). AList.update k v) kvs (abs_map m)"
proof (induction kvs arbitrary: m)
  case (Cons kv kvs)
  obtain k v where kv: "kv = (k, v)" by fastforce
  obtain m1 where "map_set m k v = Some m1" "map_wf m1" "abs_map m1 = AList.update k v (abs_map m)"
    using abs_map_set [OF Cons.prems] by blast
  then show ?case using Cons.IH [of m1] kv by auto
qed simp

lemma abs_map_new [simp]: "abs_map map_new = []"
  by (simp add: abs_map_def entries_def map_new_def)

section \<open>Properties\<close>

text \<open>C2. Setting a key is the update of the association list the table stands for: it always
  returns, keeps the table well formed (growth and rehashing included), an existing key
  keeps its position and a new one goes to the end.\<close>
theorem map_set_refines:
  assumes "map_wf m"
  shows "\<exists>m'. map_set m k v = Some m' \<and> map_wf m' \<and> abs_map m' = AList.update k v (abs_map m)"
  using assms by (rule abs_map_set)

theorem map_set_refines_witness:
  "\<exists>m'. map_set map_new ''a'' (1 :: int) = Some m' \<and> map_wf m' \<and>
     abs_map m' = AList.update ''a'' 1 (abs_map map_new)"
  by (rule map_set_refines [OF map_wf_new])

text \<open>A map built from scratch by any list of \<open>map_set\<close> calls is the association list of
  those updates, and \<open>map_get\<close>, \<open>map_has\<close> and \<open>map_keys\<close> read it.\<close>
theorem map_build_refines:
  "\<exists>m. run_ops (map (\<lambda>(k, v). Set k v) kvs) map_new = Some m \<and>
     (let al = fold (\<lambda>(k, v). AList.update k v) kvs []
      in map_get m = map_of al \<and> map_has m = (\<lambda>k. k \<in> fst ` set al) \<and> map_keys m = map fst al)"
proof -
  obtain m where m: "run_ops (map (\<lambda>(k, v). Set k v) kvs) map_new = Some m" "map_wf m"
      "abs_map m = fold (\<lambda>(k, v). AList.update k v) kvs []"
    using run_sets [OF map_wf_new, of kvs] by auto
  have "map_has m k \<longleftrightarrow> k \<in> fst ` set (abs_map m)" for k
    unfolding map_has_def abs_map_facts(1) [OF m(2), symmetric] map_of_eq_None_iff by simp
  then show ?thesis using m abs_map_facts [OF m(2)] by (auto simp: Let_def fun_eq_iff)
qed

text \<open>C21. Every history of sets and deletions on a new map returns (no probe goes round a full
  table) and keeps the structure: the insertion order lists the occupied buckets once each, in
  range, and the load stays below the limit that leaves an empty bucket.\<close>
theorem map_history_safe:
  "\<exists>m. run_ops ops map_new = Some m \<and> map_inv m"
  using run_ops_inv [of map_new ops] map_wf_new by (auto simp: map_wf_def)

text \<open>C22. Deleting a key whose bucket is followed by an empty bucket removes exactly that key.\<close>
theorem map_del_at_run_end:
  assumes "map_wf m" and "map_get_at m k = Some (i, v)" and "buckets m ! (Suc i mod cap m) = None"
  shows "\<exists>m'. map_del m k = Some m' \<and> map_wf m' \<and> map_get m' = (map_get m)(k := None)"
  using assms by (rule map_del_end_of_run)

theorem map_del_at_run_end_witness:
  "\<exists>m m'. map_set map_new ''a'' (1 :: int) = Some m \<and> map_del m ''a'' = Some m' \<and> map_wf m' \<and>
     map_get m' = (map_get m)(''a'' := None)"
proof -
  obtain m where m: "map_set map_new ''a'' (1 :: int) = Some m" "map_wf m"
    using map_set_ok [OF map_wf_new, of "''a''" "1 :: int"] by (elim exE conjE) (rule that)
  have h: "home 8 ''a'' = 6" by (simp add: home_def hash_str_def)
  have "map_set map_new ''a'' (1 :: int) =
      Some \<lparr>buckets = (replicate 8 None)[6 := Some (''a'', 1)], order = [6], order_cap = 8\<rparr>"
    by (simp add: map_set_def numeral_2_eq_2 map_new_def map_put_def h [simplified numeral_nat] numeral_nat)
  then have e: "m = \<lparr>buckets = (replicate 8 None)[6 := Some (''a'', 1)], order = [6], order_cap = 8\<rparr>"
    using m(1) by simp
  have "map_get_at m ''a'' = Some (6, 1)" by (simp add: e map_get_at_def h [simplified numeral_nat] numeral_nat)
  moreover have "buckets m ! (Suc 6 mod cap m) = None" by (simp add: e)
  ultimately obtain m' where "map_del m ''a'' = Some m'" "map_wf m'" "map_get m' = (map_get m)(''a'' := None)"
    using map_del_at_run_end [OF m(2)] by metis
  with m(1) show ?thesis by (intro exI [of _ m] exI [of _ m']) simp
qed


text \<open>Copying a map keeps its entries and their order.\<close>
theorem map_copy_same:
  assumes "map_wf m"
  shows "\<exists>m'. map_copy m = Some m' \<and> map_wf m' \<and> abs_map m' = abs_map m"
proof -
  obtain m' where m': "map_copy m = Some m'" "map_wf m'" "map_get m' = map_get m" "map_keys m' = map_keys m"
    using map_copy_ok [OF assms] by blast
  have "abs_map m' = abs_map m"
    using abs_map_facts [OF assms] abs_map_facts [OF m'(2)] m'(3,4) by (intro alist_eqI) simp_all
  then show ?thesis using m' by blast
qed

theorem map_copy_same_witness:
  "\<exists>m'. map_copy (map_new :: int hmap) = Some m' \<and> map_wf m' \<and> abs_map m' = abs_map (map_new :: int hmap)"
  by (rule map_copy_same [OF map_wf_new])

end
