(* ===== verification/XValue.thy ===== *)
theory XValue
  imports XNumeric XMap "HOL-Library.AList"
begin

text \<open>
  The language's values (\<open>src/core/value.c\<close>, \<open>src/core/xs.h\<close>) and their printed form. A
  map is the list of its entries in insertion order, which is what \<open>map_keys\<close> and
  \<open>map_get\<close> show of the hash map of \<open>XMap\<close>; \<open>map_set\<close> is then \<open>AList.update\<close>.
  Doubles are their bit patterns. \<open>VChar\<close> carries the address of its text besides the text.
  Classes, instances, signals, actors, overloads and closures are \<open>VOther\<close>, with their tag
  and their printed form.
\<close>

section \<open>Values\<close>

datatype value_t =
    VNull
  | VBool bool
  | VInt int
  | VFloat u64
  | VBig bigint
  | VDuration int
  | VStr string
  | VChar string u64
  | VRegex string
  | VArray "value_t list"
  | VTuple "value_t list"
  | VMap "(string \<times> value_t) list"
  | VRange int int int int
  | VStruct string "(string \<times> value_t) list"
  | VEnum string string bool "value_t list" bool "(string \<times> value_t) list"
  | VModule "(string \<times> value_t) list"
  | VFunc "string option"
  | VNative
  | VOther nat string

text \<open>
  A range is start, end, step and the inclusive flag; an enum value is its type, its variant,
  and whether it has positional data and named data, with them.
\<close>

section \<open>Doubles as bit patterns\<close>

definition fbits_nan :: "u64 \<Rightarrow> bool" where
  "fbits_nan x \<longleftrightarrow> 0x7FF0000000000000 < x AND 0x7FFFFFFFFFFFFFFF"

text \<open>Doubles that are not NaN are ordered by sign and magnitude; the two zeros are equal.\<close>

definition fbits_key :: "u64 \<Rightarrow> int" where
  "fbits_key x =
     (if bit x 63 then - uint (x AND 0x7FFFFFFFFFFFFFFF) else uint (x AND 0x7FFFFFFFFFFFFFFF))"

definition fbits_eq :: "u64 \<Rightarrow> u64 \<Rightarrow> bool" where
  "fbits_eq x y \<longleftrightarrow> \<not> fbits_nan x \<and> \<not> fbits_nan y \<and> fbits_key x = fbits_key y"

definition fbits_lt :: "u64 \<Rightarrow> u64 \<Rightarrow> bool" where
  "fbits_lt x y \<longleftrightarrow> \<not> fbits_nan x \<and> \<not> fbits_nan y \<and> fbits_key x < fbits_key y"

section \<open>Decimal numbers\<close>

text \<open>\<open>printf("%lld")\<close>.\<close>

fun dec_digits :: "nat \<Rightarrow> string" where
  "dec_digits n = (if n < 10 then [digit_chars ! n] else dec_digits (n div 10) @ [digit_chars ! (n mod 10)])"

declare dec_digits.simps [simp del]

definition fmt_int :: "int \<Rightarrow> string" where
  "fmt_int i = (if i < 0 then CHR ''-'' # dec_digits (nat (- i)) else dec_digits (nat i))"

fun join :: "string \<Rightarrow> string list \<Rightarrow> string" where
  "join sep [] = []"
| "join sep [s] = s"
| "join sep (s # t # ss) = s @ sep @ join sep (t # ss)"

section \<open>Durations\<close>

text \<open>\<open>"%03lld"\<close> and its like: at least \<open>w\<close> digits.\<close>

definition fmt_pad :: "nat \<Rightarrow> nat \<Rightarrow> string" where
  "fmt_pad w n = (let s = dec_digits n in replicate (w - length s) CHR ''0'' @ s)"

text \<open>A fraction of \<open>w\<close> digits loses its trailing zeros, then a trailing point.\<close>

definition trim_fraction :: "string \<Rightarrow> string" where
  "trim_fraction s =
     (let t = rev (dropWhile (\<lambda>c. c = CHR ''0'') (rev s))
      in if t \<noteq> [] \<and> last t = CHR ''.'' then butlast t else t)"

definition fmt_fraction :: "nat \<Rightarrow> nat \<Rightarrow> nat \<Rightarrow> string" where
  "fmt_fraction whole w part =
     (if part = 0 then dec_digits whole
      else trim_fraction (dec_digits whole @ ''.'' @ fmt_pad w part))"

text \<open>\<open>None\<close> on \<open>INT64_MIN\<close>, whose negation overflows.\<close>

definition duration_repr :: "int \<Rightarrow> string option" where
  "duration_repr ns =
     (if ns = 0 then Some ''0s''
      else if ns = INT64_MIN then None
      else let a = nat \<bar>ns\<bar>; sg = (if ns < 0 then ''-'' else [])
           in Some (sg @
             (if a < 1000 then dec_digits a @ ''ns''
              else if a < 1000000 then fmt_fraction (a div 1000) 3 (a mod 1000) @ ''us''
              else if a < 1000000000 then fmt_fraction (a div 1000000) 6 (a mod 1000000) @ ''ms''
              else let days = a div 86400000000000; a = a mod 86400000000000;
                       hours = a div 3600000000000; a = a mod 3600000000000;
                       mins = a div 60000000000; a = a mod 60000000000;
                       secs = a div 1000000000; sub = a mod 1000000000
                   in (if days \<noteq> 0 then dec_digits days @ ''d'' else []) @
                      (if hours \<noteq> 0 then dec_digits hours @ ''h'' else []) @
                      (if mins \<noteq> 0 then dec_digits mins @ ''m'' else []) @
                      (if secs \<noteq> 0 \<or> sub \<noteq> 0 then fmt_fraction secs 9 sub @ ''s'' else []))))"

section \<open>Printing\<close>

text \<open>The C library's conversions between doubles and text.\<close>

record libc_float =
  lc_fixed :: "nat \<Rightarrow> u64 \<Rightarrow> string"
  lc_general :: "nat \<Rightarrow> u64 \<Rightarrow> string"
  lc_strtod :: "string \<Rightarrow> u64"

definition shortest :: "(nat \<Rightarrow> u64 \<Rightarrow> string) \<Rightarrow> (string \<Rightarrow> u64) \<Rightarrow> nat list \<Rightarrow> u64 \<Rightarrow> string option" where
  "shortest fmt parse precs f = map_option (\<lambda>p. fmt p f) (find (\<lambda>p. fbits_eq (parse (fmt p f)) f) precs)"

definition float_repr :: "libc_float \<Rightarrow> u64 \<Rightarrow> string" where
  "float_repr L f =
     (if fbits_nan f then ''NaN''
      else if f = 0x7FF0000000000000 then ''Infinity''
      else if f = 0xFFF0000000000000 then ''-Infinity''
      else let absf = f AND 0x7FFFFFFFFFFFFFFF;
               use_fixed = (absf = 0 \<or> 0x3F1A36E2EB1C432D \<le> absf \<and> absf < 0x444B1AE4D6E2EF50);
               fixed = (if use_fixed then shortest (lc_fixed L) (lc_strtod L) [0..<18] f else None);
               short = (case fixed of Some s \<Rightarrow> s
                 | None \<Rightarrow> (case shortest (lc_general L) (lc_strtod L) [1..<18] f of Some s \<Rightarrow> s
                           | None \<Rightarrow> lc_general L 17 f));
               has_dot = list_ex (\<lambda>c. c = CHR ''.'' \<or> c = CHR ''e'' \<or> c = CHR ''E'') short
           in if \<not> has_dot \<and> length short + 2 < 64 then short @ ''.0'' else short)"

text \<open>
  \<open>value_repr\<close> at recursion depth \<open>g\<close> (\<open>g_repr_depth\<close>). \<open>repr_enum_payload\<close> finds the
  \<open>_val\<close> entry of an enum-like map and prints it, unwrapping a tuple.
\<close>

fun vstr_of :: "value_t option \<Rightarrow> string option" where
  "vstr_of (Some (VStr s)) = Some s"
| "vstr_of _ = None"

definition hidden_keys :: "string list" where
  "hidden_keys = [''__type'', ''__bases'', ''__name'', ''super'']"

fun is_method :: "value_t \<Rightarrow> bool" where
  "is_method (VFunc n) = True"
| "is_method VNative = True"
| "is_method (VOther t r) = (t = 23)"
| "is_method v = False"

text \<open>How a map prints: as an enum variant, as an instance, or in braces.\<close>

definition map_kind :: "(string \<times> value_t) list \<Rightarrow> (string \<times> string) option \<times> string option" where
  "map_kind es =
     (let tag = vstr_of (map_of es ''_tag''); ty = vstr_of (map_of es ''__type'')
      in (case (ty, tag) of (Some t, Some g) \<Rightarrow> Some (t, g) | _ \<Rightarrow> None,
          case ty of Some t \<Rightarrow> if t = [] then None else Some t | None \<Rightarrow> None))"

definition show_map :: "(string \<times> string) option \<times> string option \<Rightarrow> string option \<Rightarrow> string list \<Rightarrow> string" where
  "show_map kind payload parts =
     (case kind of
        (Some (t, g), _) \<Rightarrow> t @ ''::'' @ g @ (case payload of None \<Rightarrow> [] | Some p \<Rightarrow> ''('' @ p @ '')'')
      | (None, None) \<Rightarrow> ''{'' @ join '', '' parts @ ''}''
      | (None, Some n) \<Rightarrow> n @ '' {'' @ (if parts = [] then [] else '' '' @ join '', '' parts @ '' '') @ ''}'')"

fun repr :: "libc_float \<Rightarrow> nat \<Rightarrow> value_t \<Rightarrow> string"
  and repr_list :: "libc_float \<Rightarrow> nat \<Rightarrow> value_t list \<Rightarrow> string list"
  and repr_fields :: "libc_float \<Rightarrow> nat \<Rightarrow> bool \<Rightarrow> (string \<times> value_t) list \<Rightarrow> string list"
  and repr_enum_payload :: "libc_float \<Rightarrow> nat \<Rightarrow> (string \<times> value_t) list \<Rightarrow> string option"
where
  "repr L g v =
     (if 64 < g then ''...''
      else case v of
        VNull \<Rightarrow> ''null''
      | VBool b \<Rightarrow> if b then ''true'' else ''false''
      | VInt i \<Rightarrow> fmt_int i
      | VBig b \<Rightarrow> bigint_to_str b 10
      | VDuration ns \<Rightarrow> the (duration_repr ns)
      | VFloat f \<Rightarrow> float_repr L f
      | VStr s \<Rightarrow> s
      | VChar s p \<Rightarrow> s
      | VRegex s \<Rightarrow> ''/'' @ s @ ''/''
      | VArray xs \<Rightarrow> ''['' @ join '', '' (repr_list L (Suc g) xs) @ '']''
      | VTuple xs \<Rightarrow> ''('' @ join '', '' (repr_list L (Suc g) xs) @ '')''
      | VMap es \<Rightarrow>
          show_map (map_kind es) (repr_enum_payload L (Suc g) es)
            (repr_fields L (Suc g) (snd (map_kind es) \<noteq> None) es)
      | VFunc n \<Rightarrow> take 63 (''<fn '' @ (case n of Some s \<Rightarrow> s | None \<Rightarrow> ''<anonymous>'') @ ''>'')
      | VNative \<Rightarrow> ''<native fn>''
      | VRange s e st inc \<Rightarrow> fmt_int s @ (if inc \<noteq> 0 then ''..='' else ''..'') @ fmt_int e
      | VStruct n es \<Rightarrow>
          n @ '' '' @
          (if 63 < g then ''...''
           else show_map (map_kind es) (repr_enum_payload L (Suc (Suc g)) es)
                  (repr_fields L (Suc (Suc g)) (snd (map_kind es) \<noteq> None) es))
      | VEnum n var ha xs hm es \<Rightarrow>
          let prefix = (if n = var then var else n @ ''::'' @ var)
          in if ha \<and> xs \<noteq> [] then prefix @ ''('' @ join '', '' (repr_list L (Suc g) xs) @ '')''
             else take 63 prefix
      | VModule es \<Rightarrow> ''<module>''
      | VOther t r \<Rightarrow> r)"
| "repr_list L g [] = []"
| "repr_list L g (v # vs) = repr L g v # repr_list L g vs"
| "repr_fields L g inst [] = []"
| "repr_fields L g inst ((k, v) # es) =
     (if inst \<and> (k \<in> set hidden_keys \<or> is_method v) then repr_fields L g inst es
      else (k @ '': '' @ repr L g v) # repr_fields L g inst es)"
| "repr_enum_payload L g [] = None"
| "repr_enum_payload L g ((k, v) # es) =
     (if k = ''_val'' then
        (case v of
           VNull \<Rightarrow> None
         | VTuple xs \<Rightarrow> Some (join '', '' (repr_list L g xs))
         | _ \<Rightarrow> Some (repr L g v))
      else repr_enum_payload L g es)"

declare repr.simps [simp del]

definition value_str :: "libc_float \<Rightarrow> value_t \<Rightarrow> string" where
  "value_str L v = repr L 0 v"

end
