(* ===== verification/XMsgPack.thy ===== *)
theory XMsgPack
  imports XValue
begin

text \<open>
  The MessagePack codec of \<open>src/core/msgpack.c\<close>: the growing output buffer, the encoder, the
  reader with its sticky error, and the decoder.

  A string is its characters without the terminating NUL; \<open>bytes_of\<close> are its bytes. Lengths
  are cast to \<open>uint32_t\<close> where the code does so. The recursion of the decoder is bounded by
  fuel, the number of nested calls; \<open>XMsgPackProofs\<close> shows one more than the number of
  bytes left is enough.
\<close>

section \<open>The output buffer\<close>

text \<open>
  \<open>bdata\<close> are the \<open>len\<close> bytes written. A buffer lives between \<open>mp_buf_init\<close> and
  \<open>mp_buf_free\<close>, where \<open>cap\<close> is not 0; growing a freed buffer would not end and is not
  modelled (\<open>bcap = 0\<close> stays).
\<close>

record mbuf =
  bdata :: "u8 list"
  bcap :: nat

definition mp_buf_init :: mbuf where
  "mp_buf_init = \<lparr>bdata = [], bcap = 256\<rparr>"

function grow_cap :: "nat \<Rightarrow> nat \<Rightarrow> nat" where
  "grow_cap c want =
     (if c = 0 \<or> want \<le> c then c else grow_cap (if c < 1024 then c * 4 else c * 2) want)"
  by pat_completeness auto
termination
  by (relation "measure (\<lambda>(c, want). want - c)") auto

declare grow_cap.simps [simp del]

definition mp_buf_grow :: "mbuf \<Rightarrow> nat \<Rightarrow> mbuf" where
  "mp_buf_grow b need =
     (if length (bdata b) + need \<le> bcap b then b
      else b\<lparr>bcap := grow_cap (bcap b) (length (bdata b) + need)\<rparr>)"

definition mp_buf_write :: "mbuf \<Rightarrow> u8 list \<Rightarrow> mbuf" where
  "mp_buf_write b src =
     (let b' = mp_buf_grow b (length src) in b'\<lparr>bdata := bdata b' @ src\<rparr>)"

definition mp_buf_write_u8 :: "mbuf \<Rightarrow> u8 \<Rightarrow> mbuf" where
  "mp_buf_write_u8 b v =
     (let b' = mp_buf_grow b 1 in b'\<lparr>bdata := bdata b' @ [v]\<rparr>)"

definition mp_buf_write_u16 :: "mbuf \<Rightarrow> u16 \<Rightarrow> mbuf" where
  "mp_buf_write_u16 b v = mp_buf_write b [ucast (drop_bit 8 v), ucast v]"

definition mp_buf_write_u32 :: "mbuf \<Rightarrow> u32 \<Rightarrow> mbuf" where
  "mp_buf_write_u32 b v =
     mp_buf_write b [ucast (drop_bit 24 v), ucast (drop_bit 16 v), ucast (drop_bit 8 v), ucast v]"

definition mp_buf_write_u64 :: "mbuf \<Rightarrow> u64 \<Rightarrow> mbuf" where
  "mp_buf_write_u64 b v =
     mp_buf_write b [ucast (drop_bit 56 v), ucast (drop_bit 48 v), ucast (drop_bit 40 v),
       ucast (drop_bit 32 v), ucast (drop_bit 24 v), ucast (drop_bit 16 v), ucast (drop_bit 8 v), ucast v]"

text \<open>The signed writers cast to the unsigned type of their width.\<close>

definition mp_buf_write_i8 :: "mbuf \<Rightarrow> int \<Rightarrow> mbuf" where
  "mp_buf_write_i8 b v = mp_buf_write_u8 b (word_of_int v)"

definition mp_buf_write_i16 :: "mbuf \<Rightarrow> int \<Rightarrow> mbuf" where
  "mp_buf_write_i16 b v = mp_buf_write_u16 b (word_of_int v)"

definition mp_buf_write_i32 :: "mbuf \<Rightarrow> int \<Rightarrow> mbuf" where
  "mp_buf_write_i32 b v = mp_buf_write_u32 b (word_of_int v)"

definition mp_buf_write_i64 :: "mbuf \<Rightarrow> int \<Rightarrow> mbuf" where
  "mp_buf_write_i64 b v = mp_buf_write_u64 b (word_of_int v)"

section \<open>Primitive encoders\<close>

definition mp_pack_nil :: "mbuf \<Rightarrow> mbuf" where
  "mp_pack_nil b = mp_buf_write_u8 b 0xc0"

definition mp_pack_bool :: "mbuf \<Rightarrow> bool \<Rightarrow> mbuf" where
  "mp_pack_bool b v = mp_buf_write_u8 b (if v then 0xc3 else 0xc2)"

definition mp_pack_uint :: "mbuf \<Rightarrow> u64 \<Rightarrow> mbuf" where
  "mp_pack_uint b v =
     (if v \<le> 0x7f then mp_buf_write_u8 b (ucast v)
      else if v \<le> 0xff then mp_buf_write_u8 (mp_buf_write_u8 b 0xcc) (ucast v)
      else if v \<le> 0xffff then mp_buf_write_u16 (mp_buf_write_u8 b 0xcd) (ucast v)
      else if v \<le> 0xffffffff then mp_buf_write_u32 (mp_buf_write_u8 b 0xce) (ucast v)
      else mp_buf_write_u64 (mp_buf_write_u8 b 0xcf) v)"

definition mp_pack_int :: "mbuf \<Rightarrow> int \<Rightarrow> mbuf" where
  "mp_pack_int b v =
     (if 0 \<le> v then mp_pack_uint b (word_of_int v)
      else if -32 \<le> v then mp_buf_write_u8 b (word_of_int (v AND 0xff))
      else if -128 \<le> v then mp_buf_write_i8 (mp_buf_write_u8 b 0xd0) v
      else if -32768 \<le> v then mp_buf_write_i16 (mp_buf_write_u8 b 0xd1) v
      else if -2147483648 \<le> v then mp_buf_write_i32 (mp_buf_write_u8 b 0xd2) v
      else mp_buf_write_i64 (mp_buf_write_u8 b 0xd3) v)"

text \<open>The hardware's conversions between \<open>float\<close> and \<open>double\<close>, on bit patterns.\<close>

record fconv =
  fc_narrow :: "u64 \<Rightarrow> u32"
  fc_widen :: "u32 \<Rightarrow> u64"

definition mp_pack_float :: "fconv \<Rightarrow> mbuf \<Rightarrow> u64 \<Rightarrow> mbuf" where
  "mp_pack_float C b v =
     (let f32 = fc_narrow C v
      in if fbits_eq (fc_widen C f32) v \<and> \<not> fbits_nan v
         then mp_buf_write_u32 (mp_buf_write_u8 b 0xca) f32
         else mp_buf_write_u64 (mp_buf_write_u8 b 0xcb) v)"

definition bytes_of :: "string \<Rightarrow> u8 list" where
  "bytes_of s = map (\<lambda>c. word_of_int (of_char c)) s"

definition mp_pack_str_header :: "mbuf \<Rightarrow> u32 \<Rightarrow> mbuf" where
  "mp_pack_str_header b n =
     (if n \<le> 31 then mp_buf_write_u8 b (ucast (0xa0 OR n))
      else if n \<le> 0xff then mp_buf_write_u8 (mp_buf_write_u8 b 0xd9) (ucast n)
      else if n \<le> 0xffff then mp_buf_write_u16 (mp_buf_write_u8 b 0xda) (ucast n)
      else mp_buf_write_u32 (mp_buf_write_u8 b 0xdb) n)"

text \<open>\<open>mp_pack_str\<close> on a whole string: its length cast to \<open>uint32_t\<close>, then that many bytes.\<close>

definition mp_pack_str :: "mbuf \<Rightarrow> u8 list \<Rightarrow> mbuf" where
  "mp_pack_str b s =
     (let n = word_of_int (int (length s)) :: u32; b1 = mp_pack_str_header b n
      in if 0 < n then mp_buf_write b1 (take (unat n) s) else b1)"

definition mp_pack_bin :: "mbuf \<Rightarrow> u8 list \<Rightarrow> mbuf" where
  "mp_pack_bin b s =
     (let n = word_of_int (int (length s)) :: u32;
          b1 = (if n \<le> 0xff then mp_buf_write_u8 (mp_buf_write_u8 b 0xc4) (ucast n)
                else if n \<le> 0xffff then mp_buf_write_u16 (mp_buf_write_u8 b 0xc5) (ucast n)
                else mp_buf_write_u32 (mp_buf_write_u8 b 0xc6) n)
      in if 0 < n then mp_buf_write b1 (take (unat n) s) else b1)"

definition mp_pack_array_header :: "mbuf \<Rightarrow> u32 \<Rightarrow> mbuf" where
  "mp_pack_array_header b n =
     (if n \<le> 15 then mp_buf_write_u8 b (ucast (0x90 OR n))
      else if n \<le> 0xffff then mp_buf_write_u16 (mp_buf_write_u8 b 0xdc) (ucast n)
      else mp_buf_write_u32 (mp_buf_write_u8 b 0xdd) n)"

definition mp_pack_map_header :: "mbuf \<Rightarrow> u32 \<Rightarrow> mbuf" where
  "mp_pack_map_header b n =
     (if n \<le> 15 then mp_buf_write_u8 b (ucast (0x80 OR n))
      else if n \<le> 0xffff then mp_buf_write_u16 (mp_buf_write_u8 b 0xde) (ucast n)
      else mp_buf_write_u32 (mp_buf_write_u8 b 0xdf) n)"

definition mp_pack_ext_header :: "mbuf \<Rightarrow> u8 \<Rightarrow> u32 \<Rightarrow> mbuf" where
  "mp_pack_ext_header b ty n =
     (let b1 = (if n = 1 then mp_buf_write_u8 b 0xd4
                else if n = 2 then mp_buf_write_u8 b 0xd5
                else if n = 4 then mp_buf_write_u8 b 0xd6
                else if n = 8 then mp_buf_write_u8 b 0xd7
                else if n = 16 then mp_buf_write_u8 b 0xd8
                else if n \<le> 0xff then mp_buf_write_u8 (mp_buf_write_u8 b 0xc7) (ucast n)
                else if n \<le> 0xffff then mp_buf_write_u16 (mp_buf_write_u8 b 0xc8) (ucast n)
                else mp_buf_write_u32 (mp_buf_write_u8 b 0xc9) n)
      in mp_buf_write_u8 b1 ty)"

definition mp_pack_ext :: "mbuf \<Rightarrow> u8 \<Rightarrow> u8 list \<Rightarrow> mbuf" where
  "mp_pack_ext b ty s =
     (let n = word_of_int (int (length s)) :: u32; b1 = mp_pack_ext_header b ty n
      in if 0 < n then mp_buf_write b1 (take (unat n) s) else b1)"

section \<open>Encoding values\<close>

definition u32_len :: "'a list \<Rightarrow> u32" where
  "u32_len xs = word_of_int (int (length xs))"

fun is_callable :: "value_t \<Rightarrow> bool" where
  "is_callable (VFunc n) = True"
| "is_callable VNative = True"
| "is_callable v = False"

text \<open>
  The flag is \<open>mp_pack_value\<close>'s result: \<open>False\<close> for -1. \<open>mp_pack_struct\<close>,
  \<open>mp_pack_enum\<close> and the module case ignore the result of the nested calls, so they go
  through \<open>pack_fields_all\<close> and \<open>pack_list_all\<close>, which keep whatever the failed call wrote.
\<close>

function (sequential) mp_pack_value :: "fconv \<Rightarrow> mbuf \<Rightarrow> value_t \<Rightarrow> nat \<Rightarrow> mbuf \<times> bool"
  and pack_list :: "fconv \<Rightarrow> mbuf \<Rightarrow> value_t list \<Rightarrow> nat \<Rightarrow> mbuf \<times> bool"
  and pack_list_all :: "fconv \<Rightarrow> mbuf \<Rightarrow> value_t list \<Rightarrow> nat \<Rightarrow> mbuf"
  and pack_fields :: "fconv \<Rightarrow> mbuf \<Rightarrow> (string \<times> value_t) list \<Rightarrow> nat \<Rightarrow> mbuf \<times> bool"
  and pack_fields_all :: "fconv \<Rightarrow> mbuf \<Rightarrow> bool \<Rightarrow> (string \<times> value_t) list \<Rightarrow> nat \<Rightarrow> mbuf"
where
  "mp_pack_value C b v depth =
     (if 128 < depth then (b, False)
      else case v of
        VNull \<Rightarrow> (mp_pack_nil b, True)
      | VBool x \<Rightarrow> (mp_pack_bool b x, True)
      | VInt i \<Rightarrow> (mp_pack_int b i, True)
      | VFloat f \<Rightarrow> (mp_pack_float C b f, True)
      | VStr s \<Rightarrow> (mp_pack_str b (bytes_of s), True)
      | VChar s p \<Rightarrow> (mp_pack_str b [ucast p], True)
      | VArray xs \<Rightarrow> pack_list C (mp_pack_array_header b (u32_len xs)) xs (Suc depth)
      | VTuple xs \<Rightarrow>
          (let (inner, ok) = pack_list C (mp_pack_array_header mp_buf_init (u32_len xs)) xs (Suc depth)
           in if ok then (mp_pack_ext b 5 (bdata inner), True) else (b, False))
      | VMap es \<Rightarrow> pack_fields C (mp_pack_map_header b (u32_len es)) es (Suc depth)
      | VStruct n es \<Rightarrow>
          (let b1 = mp_pack_map_header b (word_of_int (int (length es) + 1));
               b2 = mp_pack_str b1 (bytes_of ''__type'');
               b3 = mp_pack_str b2 (bytes_of n)
           in (pack_fields_all C b3 False es (Suc depth), True))
      | VEnum n var ha xs hm es \<Rightarrow>
          (let data = ha \<and> xs \<noteq> []; flds = hm \<and> es \<noteq> [];
               total = 2 + (if data then 1 else 0) + (if flds then 1 else 0);
               b1 = mp_pack_map_header b total;
               b2 = mp_pack_str (mp_pack_str b1 (bytes_of ''__enum'')) (bytes_of n);
               b3 = mp_pack_str (mp_pack_str b2 (bytes_of ''__variant'')) (bytes_of var);
               b4 = (if data
                     then pack_list_all C (mp_pack_array_header (mp_pack_str b3 (bytes_of ''__data'')) (u32_len xs))
                            xs (Suc depth)
                     else b3);
               b5 = (if flds
                     then pack_fields_all C (mp_pack_map_header (mp_pack_str b4 (bytes_of ''__fields'')) (u32_len es))
                            False es (Suc depth)
                     else b4)
           in (b5, True))
      | VRange s e st inc \<Rightarrow>
          (let inner = mp_pack_int (mp_pack_int (mp_pack_int (mp_pack_int mp_buf_init s) e) st) inc
           in (mp_pack_ext b 4 (bdata inner), True))
      | VRegex s \<Rightarrow> (mp_pack_ext b 1 (bytes_of s), True)
      | VBig n \<Rightarrow> (mp_pack_ext b 3 (bytes_of (bigint_to_str n 10)), True)
      | VModule es \<Rightarrow>
          (let kept = filter (\<lambda>(k, x). \<not> is_callable x) es
           in (pack_fields_all C (mp_pack_map_header b (u32_len kept)) True es (Suc depth), True))
      | _ \<Rightarrow> (mp_pack_nil b, True))"
| "pack_list C b [] d = (b, True)"
| "pack_list C b (v # vs) d =
     (let (b1, ok) = mp_pack_value C b v d in if ok then pack_list C b1 vs d else (b1, False))"
| "pack_list_all C b [] d = b"
| "pack_list_all C b (v # vs) d = pack_list_all C (fst (mp_pack_value C b v d)) vs d"
| "pack_fields C b [] d = (b, True)"
| "pack_fields C b ((k, v) # es) d =
     (let (b1, ok) = mp_pack_value C (mp_pack_str b (bytes_of k)) v d
      in if ok then pack_fields C b1 es d else (b1, False))"
| "pack_fields_all C b skip [] d = b"
| "pack_fields_all C b skip ((k, v) # es) d =
     (if skip \<and> is_callable v then pack_fields_all C b skip es d
      else pack_fields_all C (fst (mp_pack_value C (mp_pack_str b (bytes_of k)) v d)) skip es d)"

  by pat_completeness auto
termination
  by (relation "measure (case_sum
        (case_sum (\<lambda>(C, b, v, d). size v) (\<lambda>(C, b, vs, d). size_list size vs))
        (case_sum (\<lambda>(C, b, vs, d). size_list size vs)
          (case_sum (\<lambda>(C, b, es, d). size_list (size_prod (\<lambda>_. 0) size) es)
            (\<lambda>(C, b, s, es, d). size_list (size_prod (\<lambda>_. 0) size) es))))")
    simp_all

declare mp_pack_value.simps [simp del]

section \<open>The reader\<close>

text \<open>The error is its message and offset; \<open>None\<close> is \<open>has_error = 0\<close>.\<close>

record reader =
  rdata :: "u8 list"
  rpos :: nat
  rerr :: "(string \<times> nat) option"

definition mp_reader_init :: "u8 list \<Rightarrow> reader" where
  "mp_reader_init d = \<lparr>rdata = d, rpos = 0, rerr = None\<rparr>"

definition mp_reader_has_data :: "reader \<Rightarrow> bool" where
  "mp_reader_has_data r \<longleftrightarrow> rerr r = None \<and> rpos r < length (rdata r)"

definition mp_reader_set_error :: "reader \<Rightarrow> string \<Rightarrow> reader" where
  "mp_reader_set_error r msg = (if rerr r = None then r\<lparr>rerr := Some (msg, rpos r)\<rparr> else r)"

definition mp_reader_ensure :: "reader \<Rightarrow> nat \<Rightarrow> reader \<times> bool" where
  "mp_reader_ensure r n =
     (if length (rdata r) < rpos r + n then (mp_reader_set_error r ''unexpected end of data'', False)
      else (r, True))"

text \<open>The next \<open>n\<close> bytes, or the error; the common step of the fixed-size readers.\<close>

definition read_bytes :: "reader \<Rightarrow> nat \<Rightarrow> u8 list option \<times> reader" where
  "read_bytes r n =
     (let (r', ok) = mp_reader_ensure r n
      in if ok then (Some (take n (drop (rpos r') (rdata r'))), r'\<lparr>rpos := rpos r' + n\<rparr>) else (None, r'))"

definition mp_reader_peek :: "reader \<Rightarrow> u8 \<times> reader" where
  "mp_reader_peek r =
     (let (r', ok) = mp_reader_ensure r 1 in (if ok then rdata r' ! rpos r' else 0, r'))"

definition mp_reader_read_u8 :: "reader \<Rightarrow> u8 \<times> reader" where
  "mp_reader_read_u8 r =
     (let (r', ok) = mp_reader_ensure r 1
      in if ok then (rdata r' ! rpos r', r'\<lparr>rpos := rpos r' + 1\<rparr>) else (0, r'))"

definition mp_reader_read_u16 :: "reader \<Rightarrow> u16 \<times> reader" where
  "mp_reader_read_u16 r =
     (let (r', ok) = mp_reader_ensure r 2
      in if ok
         then (push_bit 8 (ucast (rdata r' ! rpos r')) OR ucast (rdata r' ! (rpos r' + 1)),
               r'\<lparr>rpos := rpos r' + 2\<rparr>)
         else (0, r'))"

definition mp_reader_read_u32 :: "reader \<Rightarrow> u32 \<times> reader" where
  "mp_reader_read_u32 r =
     (let (r', ok) = mp_reader_ensure r 4
      in if ok
         then (push_bit 24 (ucast (rdata r' ! rpos r')) OR push_bit 16 (ucast (rdata r' ! (rpos r' + 1))) OR
                 push_bit 8 (ucast (rdata r' ! (rpos r' + 2))) OR ucast (rdata r' ! (rpos r' + 3)),
               r'\<lparr>rpos := rpos r' + 4\<rparr>)
         else (0, r'))"

fun be_fold :: "u64 \<Rightarrow> u8 list \<Rightarrow> u64" where
  "be_fold v [] = v"
| "be_fold v (x # xs) = be_fold (push_bit 8 v OR ucast x) xs"

definition mp_reader_read_u64 :: "reader \<Rightarrow> u64 \<times> reader" where
  "mp_reader_read_u64 r =
     (let (r', ok) = mp_reader_ensure r 8
      in if ok then (be_fold 0 (take 8 (drop (rpos r') (rdata r'))), r'\<lparr>rpos := rpos r' + 8\<rparr>)
         else (0, r'))"

definition mp_reader_read_i8 :: "reader \<Rightarrow> int \<times> reader" where
  "mp_reader_read_i8 r = map_prod sint id (mp_reader_read_u8 r)"

definition mp_reader_read_i16 :: "reader \<Rightarrow> int \<times> reader" where
  "mp_reader_read_i16 r = map_prod sint id (mp_reader_read_u16 r)"

definition mp_reader_read_i32 :: "reader \<Rightarrow> int \<times> reader" where
  "mp_reader_read_i32 r = map_prod sint id (mp_reader_read_u32 r)"

definition mp_reader_read_i64 :: "reader \<Rightarrow> int \<times> reader" where
  "mp_reader_read_i64 r = map_prod sint id (mp_reader_read_u64 r)"

section \<open>Decoding\<close>

text \<open>A C string ends at its first NUL.\<close>

definition c_string :: "u8 list \<Rightarrow> string" where
  "c_string bs = map (\<lambda>w. char_of (uint w)) (takeWhile (\<lambda>w. w \<noteq> 0) bs)"

definition mp_unpack_str_raw :: "reader \<Rightarrow> nat \<Rightarrow> value_t \<times> reader" where
  "mp_unpack_str_raw r n =
     (case read_bytes r n of (None, r') \<Rightarrow> (VNull, r') | (Some bs, r') \<Rightarrow> (VStr (c_string bs), r'))"

definition mp_unpack_bin_raw :: "reader \<Rightarrow> nat \<Rightarrow> value_t \<times> reader" where
  "mp_unpack_bin_raw r n =
     (case read_bytes r n of
        (None, r') \<Rightarrow> (VNull, r')
      | (Some bs, r') \<Rightarrow> (VArray (map (\<lambda>w. VInt (uint w)) bs), r'))"

text \<open>\<open>strtoll(s, NULL, 10)\<close>: blanks, a sign, digits, saturating at the limits of 64 bits.\<close>

definition strtoll10 :: "string \<Rightarrow> int" where
  "strtoll10 s =
     (let s1 = dropWhile (\<lambda>c. c = CHR '' '' \<or> of_char c \<in> {9..13 :: nat}) s;
          sg = (s1 \<noteq> [] \<and> hd s1 = CHR ''-'');
          s2 = (if s1 \<noteq> [] \<and> (hd s1 = CHR ''-'' \<or> hd s1 = CHR ''+'') then tl s1 else s1);
          v = foldl (\<lambda>v c. v * 10 + (of_char c - 48)) 0
                (takeWhile (\<lambda>c. of_char c \<in> {48..57 :: nat}) s2)
      in max INT64_MIN (min INT64_MAX (if sg then - v else v)))"

definition xs_range_step :: "int \<Rightarrow> int \<Rightarrow> int \<Rightarrow> int \<Rightarrow> value_t" where
  "xs_range_step s e inc st = VRange s e (if st \<noteq> 0 then st else 1) inc"

definition int_or :: "int \<Rightarrow> value_t \<Rightarrow> int" where
  "int_or d v = (case v of VInt i \<Rightarrow> i | _ \<Rightarrow> d)"

text \<open>
  The decoders of compound values take \<open>mp_unpack_value\<close> as \<open>un\<close>; a result \<open>None\<close> is
  its fuel running out.
\<close>

type_synonym unpacker = "reader \<Rightarrow> (value_t \<times> reader) option"

fun unpack_list :: "unpacker \<Rightarrow> nat \<Rightarrow> reader \<Rightarrow> (value_t list \<times> reader) option" where
  "unpack_list un 0 r = Some ([], r)"
| "unpack_list un (Suc n) r =
     (if rerr r \<noteq> None then Some ([], r)
      else do { (v, r1) \<leftarrow> un r; (vs, r2) \<leftarrow> unpack_list un n r1; Some (v # vs, r2) })"

definition mp_unpack_array :: "unpacker \<Rightarrow> reader \<Rightarrow> nat \<Rightarrow> (value_t \<times> reader) option" where
  "mp_unpack_array un r n = map_option (map_prod VArray id) (unpack_list un n r)"

fun unpack_entries :: "libc_float \<Rightarrow> unpacker \<Rightarrow> nat \<Rightarrow> reader \<Rightarrow> (string \<times> value_t) list \<Rightarrow>
    ((string \<times> value_t) list \<times> reader) option" where
  "unpack_entries L un 0 r m = Some (m, r)"
| "unpack_entries L un (Suc n) r m =
     (if rerr r \<noteq> None then Some (m, r)
      else do {
        (k, r1) \<leftarrow> un r;
        (v, r2) \<leftarrow> un r1;
        unpack_entries L un n r2 (AList.update (value_str L k) v m) })"

definition mp_unpack_map :: "libc_float \<Rightarrow> unpacker \<Rightarrow> reader \<Rightarrow> nat \<Rightarrow> (value_t \<times> reader) option" where
  "mp_unpack_map L un r n = map_option (map_prod VMap id) (unpack_entries L un n r [])"

definition unpack_range :: "unpacker \<Rightarrow> u8 list \<Rightarrow> value_t option" where
  "unpack_range un bs = do {
     (a, r1) \<leftarrow> un (mp_reader_init bs);
     (b, r2) \<leftarrow> un r1;
     (c, r3) \<leftarrow> un r2;
     (d, r4) \<leftarrow> un r3;
     Some (xs_range_step (int_or 0 a) (int_or 0 b) (sint (word_of_int (int_or 0 d) :: u32)) (int_or 1 c)) }"

definition unpack_tuple :: "unpacker \<Rightarrow> u8 list \<Rightarrow> value_t option" where
  "unpack_tuple un bs = do {
     (v, r1) \<leftarrow> un (mp_reader_init bs);
     Some (case v of VArray xs \<Rightarrow> VTuple xs | _ \<Rightarrow> v) }"

definition mp_unpack_ext_raw :: "unpacker \<Rightarrow> reader \<Rightarrow> nat \<Rightarrow> (value_t \<times> reader) option" where
  "mp_unpack_ext_raw un r n =
     (let (ty, r1) = mp_reader_read_i8 r
      in if rerr r1 \<noteq> None then Some (VNull, r1)
         else case read_bytes r1 n of
           (None, r2) \<Rightarrow> Some (VNull, r2)
         | (Some bs, r2) \<Rightarrow>
             map_option (\<lambda>v. (v, r2))
               (if ty = 1 then Some (VRegex (c_string bs))
                else if ty = 3 then Some (VInt (strtoll10 (c_string bs)))
                else if ty = 4 then unpack_range un bs
                else if ty = 5 then unpack_tuple un bs
                else if ty = 2 then Some (VStr (c_string bs))
                else Some (VArray (map (\<lambda>w. VInt (uint w)) bs))))"

text \<open>The dispatch on the tag byte, which \<open>mp_unpack_value\<close> has just read.\<close>

definition unpack_tag :: "fconv \<Rightarrow> libc_float \<Rightarrow> unpacker \<Rightarrow> u8 \<Rightarrow> reader \<Rightarrow> (value_t \<times> reader) option" where
  "unpack_tag C L un tag r =
     (if tag \<le> 0x7f then Some (VInt (uint tag), r)
      else if tag AND 0xf0 = 0x80 then mp_unpack_map L un r (unat (tag AND 0x0f))
      else if tag AND 0xf0 = 0x90 then mp_unpack_array un r (unat (tag AND 0x0f))
      else if tag AND 0xe0 = 0xa0 then Some (mp_unpack_str_raw r (unat (tag AND 0x1f)))
      else if 0xe0 \<le> tag then Some (VInt (sint tag), r)
      else if tag = 0xc0 then Some (VNull, r)
      else if tag = 0xc2 then Some (VBool False, r)
      else if tag = 0xc3 then Some (VBool True, r)
      else if tag = 0xcc then Some (map_prod (\<lambda>w. VInt (uint w)) id (mp_reader_read_u8 r))
      else if tag = 0xcd then Some (map_prod (\<lambda>w. VInt (uint w)) id (mp_reader_read_u16 r))
      else if tag = 0xce then Some (map_prod (\<lambda>w. VInt (uint w)) id (mp_reader_read_u32 r))
      else if tag = 0xcf then Some (map_prod (\<lambda>w. VInt (sint w)) id (mp_reader_read_u64 r))
      else if tag = 0xd0 then Some (map_prod VInt id (mp_reader_read_i8 r))
      else if tag = 0xd1 then Some (map_prod VInt id (mp_reader_read_i16 r))
      else if tag = 0xd2 then Some (map_prod VInt id (mp_reader_read_i32 r))
      else if tag = 0xd3 then Some (map_prod VInt id (mp_reader_read_i64 r))
      else if tag = 0xca then Some (map_prod (\<lambda>w. VFloat (fc_widen C w)) id (mp_reader_read_u32 r))
      else if tag = 0xcb then Some (map_prod VFloat id (mp_reader_read_u64 r))
      else if tag = 0xd9 then let (n, r1) = mp_reader_read_u8 r in Some (mp_unpack_str_raw r1 (unat n))
      else if tag = 0xda then let (n, r1) = mp_reader_read_u16 r in Some (mp_unpack_str_raw r1 (unat n))
      else if tag = 0xdb then let (n, r1) = mp_reader_read_u32 r in Some (mp_unpack_str_raw r1 (unat n))
      else if tag = 0xc4 then let (n, r1) = mp_reader_read_u8 r in Some (mp_unpack_bin_raw r1 (unat n))
      else if tag = 0xc5 then let (n, r1) = mp_reader_read_u16 r in Some (mp_unpack_bin_raw r1 (unat n))
      else if tag = 0xc6 then let (n, r1) = mp_reader_read_u32 r in Some (mp_unpack_bin_raw r1 (unat n))
      else if tag = 0xdc then let (n, r1) = mp_reader_read_u16 r in mp_unpack_array un r1 (unat n)
      else if tag = 0xdd then let (n, r1) = mp_reader_read_u32 r in mp_unpack_array un r1 (unat n)
      else if tag = 0xde then let (n, r1) = mp_reader_read_u16 r in mp_unpack_map L un r1 (unat n)
      else if tag = 0xdf then let (n, r1) = mp_reader_read_u32 r in mp_unpack_map L un r1 (unat n)
      else if tag = 0xd4 then mp_unpack_ext_raw un r 1
      else if tag = 0xd5 then mp_unpack_ext_raw un r 2
      else if tag = 0xd6 then mp_unpack_ext_raw un r 4
      else if tag = 0xd7 then mp_unpack_ext_raw un r 8
      else if tag = 0xd8 then mp_unpack_ext_raw un r 16
      else if tag = 0xc7 then let (n, r1) = mp_reader_read_u8 r in mp_unpack_ext_raw un r1 (unat n)
      else if tag = 0xc8 then let (n, r1) = mp_reader_read_u16 r in mp_unpack_ext_raw un r1 (unat n)
      else if tag = 0xc9 then let (n, r1) = mp_reader_read_u32 r in mp_unpack_ext_raw un r1 (unat n)
      else Some (VNull, mp_reader_set_error r ''unknown msgpack tag''))"

primrec mp_unpack_value :: "fconv \<Rightarrow> libc_float \<Rightarrow> nat \<Rightarrow> unpacker" where
  "mp_unpack_value C L 0 = (\<lambda>r. None)"
| "mp_unpack_value C L (Suc fuel) =
     (\<lambda>r. if rerr r \<noteq> None \<or> length (rdata r) \<le> rpos r then Some (VNull, r)
          else let (tag, r1) = mp_reader_read_u8 r
               in if rerr r1 \<noteq> None then Some (VNull, r1)
                  else unpack_tag C L (mp_unpack_value C L fuel) tag r1)"

section \<open>The high-level functions\<close>

definition byte_array :: "u8 list \<Rightarrow> value_t" where
  "byte_array bs = VArray (map (\<lambda>w. VInt (uint w)) bs)"

definition mp_encode :: "fconv \<Rightarrow> value_t \<Rightarrow> value_t" where
  "mp_encode C v =
     (let (b, ok) = mp_pack_value C mp_buf_init v 0 in if ok then byte_array (bdata b) else VNull)"

fun byte_of :: "value_t \<Rightarrow> u8" where
  "byte_of (VInt i) = word_of_int i"
| "byte_of v = 0"

definition mp_decode :: "fconv \<Rightarrow> libc_float \<Rightarrow> nat \<Rightarrow> value_t \<Rightarrow> value_t option" where
  "mp_decode C L fuel bytes =
     (case bytes of
        VArray xs \<Rightarrow>
          do { (v, r) \<leftarrow> mp_unpack_value C L fuel (mp_reader_init (map byte_of xs));
               Some (if rerr r \<noteq> None then VNull else v) }
      | _ \<Rightarrow> Some VNull)"

fun encode_each :: "fconv \<Rightarrow> mbuf \<Rightarrow> value_t list \<Rightarrow> mbuf \<times> bool" where
  "encode_each C b [] = (b, True)"
| "encode_each C b (v # vs) =
     (let (b1, ok) = mp_pack_value C b v 0 in if ok then encode_each C b1 vs else (b1, False))"

definition mp_encode_stream :: "fconv \<Rightarrow> value_t \<Rightarrow> value_t" where
  "mp_encode_stream C v =
     (case v of
        VArray xs \<Rightarrow> (let (b, ok) = encode_each C mp_buf_init xs in if ok then byte_array (bdata b) else VNull)
      | _ \<Rightarrow> VNull)"

text \<open>The loop of \<open>mp_decode_stream\<close>; its first argument bounds the rounds.\<close>

fun decode_each :: "unpacker \<Rightarrow> nat \<Rightarrow> reader \<Rightarrow> value_t list option" where
  "decode_each un 0 r = None"
| "decode_each un (Suc n) r =
     (if mp_reader_has_data r
      then do { (v, r1) \<leftarrow> un r;
                if rerr r1 \<noteq> None then Some [] else map_option ((#) v) (decode_each un n r1) }
      else Some [])"

definition mp_decode_stream :: "fconv \<Rightarrow> libc_float \<Rightarrow> nat \<Rightarrow> value_t \<Rightarrow> value_t option" where
  "mp_decode_stream C L fuel bytes =
     (case bytes of
        VArray xs \<Rightarrow>
          map_option VArray
            (decode_each (mp_unpack_value C L fuel) fuel (mp_reader_init (map byte_of xs)))
      | _ \<Rightarrow> Some VNull)"

end
