(* ===== verification/XMsgPackWire.thy ===== *)
theory XMsgPackWire
  imports XMsgPack
begin

text \<open>
  The codec's contracts: a writer appends exactly its bytes and stays within its buffer, a
  reader takes exactly its bytes and stays within its data, and the two are inverse. The
  locale \<open>wire_codec\<close> states this for one machine word and is interpreted on the four
  widths; on top of it the decoder inverts the encoder, and always returns.
\<close>

section \<open>Buffers\<close>

definition buf_ok :: "mbuf \<Rightarrow> bool" where
  "buf_ok b \<longleftrightarrow> 256 \<le> bcap b \<and> length (bdata b) \<le> bcap b"

lemma grow_cap_enough: "0 < c \<Longrightarrow> want \<le> grow_cap c want \<and> c \<le> grow_cap c want"
proof (induction c want rule: grow_cap.induct)
  case (1 c want)
  show ?case
  proof (cases "want \<le> c")
    case True
    then show ?thesis by (simp add: grow_cap.simps)
  next
    case False
    then have "want \<le> grow_cap (if c < 1024 then c * 4 else c * 2) want \<and>
        (if c < 1024 then c * 4 else c * 2) \<le> grow_cap (if c < 1024 then c * 4 else c * 2) want"
      using "1.prems" by (intro "1.IH") auto
    then show ?thesis using False "1.prems" by (subst (1 2) grow_cap.simps) (auto split: if_splits)
  qed
qed

lemma mp_buf_grow_ok: "buf_ok b \<Longrightarrow> buf_ok (mp_buf_grow b n) \<and> length (bdata b) + n \<le> bcap (mp_buf_grow b n)"
  using grow_cap_enough [of "bcap b" "length (bdata b) + n"] by (auto simp: buf_ok_def mp_buf_grow_def)

lemma bdata_grow [simp]: "bdata (mp_buf_grow b n) = bdata b"
  by (simp add: mp_buf_grow_def)

lemma bdata_write [simp]:
  "bdata (mp_buf_write b xs) = bdata b @ xs"
  "bdata (mp_buf_write_u8 b v) = bdata b @ [v]"
  by (simp_all add: mp_buf_write_def mp_buf_write_u8_def Let_def)

lemma buf_ok_write [wf_intros]:
  "buf_ok b \<Longrightarrow> buf_ok (mp_buf_write b xs)"
  "buf_ok b \<Longrightarrow> buf_ok (mp_buf_write_u8 b v)"
  using mp_buf_grow_ok [of b "length xs"] mp_buf_grow_ok [of b 1]
  by (auto simp: mp_buf_write_def mp_buf_write_u8_def Let_def buf_ok_def)

section \<open>Readers\<close>

text \<open>What is left to read.\<close>

definition sees :: "reader \<Rightarrow> u8 list \<Rightarrow> bool" where
  "sees r bs \<longleftrightarrow> rerr r = None \<and> rpos r \<le> length (rdata r) \<and> drop (rpos r) (rdata r) = bs"

lemma sees_init [simp]: "sees (mp_reader_init bs) cs \<longleftrightarrow> cs = bs"
  by (auto simp: sees_def mp_reader_init_def)

lemma sees_length: "sees r bs \<Longrightarrow> length (rdata r) = rpos r + length bs"
  by (auto simp: sees_def)

lemma sees_nth: "sees r (xs @ post) \<Longrightarrow> i < length xs \<Longrightarrow> rdata r ! (rpos r + i) = xs ! i"
  unfolding sees_def by (metis add.commute nth_append nth_drop)

lemma sees_advance:
  assumes "sees r (xs @ post)" and "n = length xs"
  shows "sees (r\<lparr>rpos := rpos r + n\<rparr>) post"
proof -
  have "drop (rpos r + n) (rdata r) = drop n (drop (rpos r) (rdata r))" by (simp add: add.commute)
  also have "\<dots> = post" using assms by (simp add: sees_def)
  finally show ?thesis using assms sees_length [OF assms(1)] by (simp add: sees_def)
qed

lemma read_u8_sees:
  assumes "sees r (x # post)"
  shows "\<exists>r'. mp_reader_read_u8 r = (x, r') \<and> sees r' post"
proof -
  have "rdata r ! rpos r = x" using sees_nth [of r "[x]" post 0] assms by simp
  moreover have "sees (r\<lparr>rpos := rpos r + 1\<rparr>) post" using sees_advance [of r "[x]" post 1] assms by simp
  ultimately show ?thesis
    using sees_length [OF assms] by (simp add: mp_reader_read_u8_def mp_reader_ensure_def)
qed

lemma read_bytes_sees:
  assumes "sees r (xs @ post)"
  shows "\<exists>r'. read_bytes r (length xs) = (Some xs, r') \<and> sees r' post"
proof -
  have "drop (rpos r) (rdata r) = xs @ post" using assms by (simp add: sees_def)
  then have "read_bytes r (length xs) = (Some xs, r\<lparr>rpos := rpos r + length xs\<rparr>)"
    using sees_length [OF assms] by (simp add: read_bytes_def mp_reader_ensure_def)
  then show ?thesis using sees_advance [OF assms] by blast
qed

section \<open>Words on the wire\<close>

locale wire_codec =
  fixes wr :: "mbuf \<Rightarrow> 'w \<Rightarrow> mbuf" and rd :: "reader \<Rightarrow> 'w \<times> reader" and bytes :: "'w \<Rightarrow> u8 list"
  assumes wr_bytes: "bdata (wr b w) = bdata b @ bytes w"
    and wr_ok: "buf_ok b \<Longrightarrow> buf_ok (wr b w)"
    and rd_bytes: "sees r (bytes w @ post) \<Longrightarrow> \<exists>r'. rd r = (w, r') \<and> sees r' post"
begin

lemma roundtrip: "\<exists>r'. rd (mp_reader_init (bdata (wr mp_buf_init w))) = (w, r') \<and> sees r' []"
  using rd_bytes [of "mp_reader_init (bytes w)" w "[]"] by (simp add: wr_bytes mp_buf_init_def)

end

definition be16 :: "u16 \<Rightarrow> u8 list" where
  "be16 v = [ucast (drop_bit 8 v), ucast v]"

definition be32 :: "u32 \<Rightarrow> u8 list" where
  "be32 v = [ucast (drop_bit 24 v), ucast (drop_bit 16 v), ucast (drop_bit 8 v), ucast v]"

definition be64 :: "u64 \<Rightarrow> u8 list" where
  "be64 v = [ucast (drop_bit 56 v), ucast (drop_bit 48 v), ucast (drop_bit 40 v),
     ucast (drop_bit 32 v), ucast (drop_bit 24 v), ucast (drop_bit 16 v), ucast (drop_bit 8 v), ucast v]"

lemma be_lengths [simp]: "length (be16 v) = 2" "length (be32 w) = 4" "length (be64 x) = 8"
  by (simp_all add: be16_def be32_def be64_def)

text \<open>Every bit lies in one byte.\<close>

lemma byte_index:
  fixes n :: nat
  assumes "n < 64"
  obtains j where "j < 8"
    and "n = j \<or> n = 8 + j \<or> n = 16 + j \<or> n = 24 + j \<or> n = 32 + j \<or> n = 40 + j \<or> n = 48 + j \<or> n = 56 + j"
proof -
  have "n = n mod 8 \<or> n = 8 + n mod 8 \<or> n = 16 + n mod 8 \<or> n = 24 + n mod 8 \<or> n = 32 + n mod 8 \<or>
      n = 40 + n mod 8 \<or> n = 48 + n mod 8 \<or> n = 56 + n mod 8"
    using assms by presburger
  then show ?thesis using that [of "n mod 8"] by simp
qed

lemma be16_join: "push_bit 8 (ucast (ucast (drop_bit 8 v) :: u8)) OR ucast (ucast v :: u8) = (v :: u16)"
  by (rule bit_word_eqI) (auto simp: bit_simps)

lemma be32_join:
  "push_bit 24 (ucast (ucast (drop_bit 24 v) :: u8)) OR push_bit 16 (ucast (ucast (drop_bit 16 v) :: u8)) OR
   push_bit 8 (ucast (ucast (drop_bit 8 v) :: u8)) OR ucast (ucast v :: u8) = (v :: u32)" (is "?l = v")
proof (rule bit_word_eqI)
  fix n assume n: "n < LENGTH(32)"
  obtain j where j: "j < 8" "n = j \<or> n = 8 + j \<or> n = 16 + j \<or> n = 24 + j"
  proof (rule byte_index [of n])
    show "n < 64" using n by simp
  next
    fix j assume "j < 8" "n = j \<or> n = 8 + j \<or> n = 16 + j \<or> n = 24 + j \<or> n = 32 + j \<or> n = 40 + j \<or>
      n = 48 + j \<or> n = 56 + j"
    then show thesis using that [of j] n by (elim disjE) simp_all
  qed
  show "bit ?l n = bit v n"
    using j(2) j(1) by (elim disjE) (simp_all add: bit_simps)
qed

lemma be64_join: "be_fold 0 (be64 v) = v"
proof (rule bit_word_eqI)
  fix n assume "n < LENGTH(64)"
  then obtain j where j: "j < 8" "n = j \<or> n = 8 + j \<or> n = 16 + j \<or> n = 24 + j \<or> n = 32 + j \<or> n = 40 + j \<or>
      n = 48 + j \<or> n = 56 + j"
    using byte_index [of n] by auto
  show "bit (be_fold 0 (be64 v)) n = bit v n"
    unfolding be64_def using j(2) j(1) by (elim disjE) (simp_all add: bit_simps)
qed

interpretation wire8: wire_codec mp_buf_write_u8 mp_reader_read_u8 "\<lambda>v. [v]"
  by unfold_locales (auto intro: wf_intros dest: read_u8_sees)

interpretation wire16: wire_codec mp_buf_write_u16 mp_reader_read_u16 be16
proof
  fix r v post assume s: "sees r (be16 v @ post)"
  have "rdata r ! rpos r = ucast (drop_bit 8 v)" "rdata r ! (rpos r + 1) = ucast v"
    using sees_nth [OF s, of 0] sees_nth [OF s, of 1] by (simp_all add: be16_def)
  then show "\<exists>r'. mp_reader_read_u16 r = (v, r') \<and> sees r' post"
    using sees_length [OF s] sees_advance [OF s, of 2] be16_join [of v]
    by (simp add: mp_reader_read_u16_def mp_reader_ensure_def)
qed (auto simp: mp_buf_write_u16_def be16_def intro: wf_intros)

interpretation wire32: wire_codec mp_buf_write_u32 mp_reader_read_u32 be32
proof
  fix r v post assume s: "sees r (be32 v @ post)"
  have "rdata r ! rpos r = ucast (drop_bit 24 v)" "rdata r ! (rpos r + 1) = ucast (drop_bit 16 v)"
    "rdata r ! (rpos r + 2) = ucast (drop_bit 8 v)" "rdata r ! (rpos r + 3) = ucast v"
    using sees_nth [OF s, of 0] sees_nth [OF s, of 1] sees_nth [OF s, of 2] sees_nth [OF s, of 3]
    by (simp_all add: be32_def)
  then show "\<exists>r'. mp_reader_read_u32 r = (v, r') \<and> sees r' post"
    using sees_length [OF s] sees_advance [OF s, of 4] be32_join [of v]
    by (simp add: mp_reader_read_u32_def mp_reader_ensure_def)
qed (auto simp: mp_buf_write_u32_def be32_def intro: wf_intros)

interpretation wire64: wire_codec mp_buf_write_u64 mp_reader_read_u64 be64
proof
  fix r v post assume s: "sees r (be64 v @ post)"
  then have "take 8 (drop (rpos r) (rdata r)) = be64 v" by (simp add: sees_def)
  then show "\<exists>r'. mp_reader_read_u64 r = (v, r') \<and> sees r' post"
    using sees_length [OF s] sees_advance [OF s, of 8] be64_join [of v]
    by (simp add: mp_reader_read_u64_def mp_reader_ensure_def)
qed (auto simp: mp_buf_write_u64_def be64_def intro: wf_intros)

section \<open>Tags\<close>

lemma unpack_tag_const:
  "unpack_tag C L un 0xc0 r = Some (VNull, r)"
  "unpack_tag C L un 0xc2 r = Some (VBool False, r)"
  "unpack_tag C L un 0xc3 r = Some (VBool True, r)"
  "unpack_tag C L un 0xcc r = Some (map_prod (\<lambda>w. VInt (uint w)) id (mp_reader_read_u8 r))"
  "unpack_tag C L un 0xcd r = Some (map_prod (\<lambda>w. VInt (uint w)) id (mp_reader_read_u16 r))"
  "unpack_tag C L un 0xce r = Some (map_prod (\<lambda>w. VInt (uint w)) id (mp_reader_read_u32 r))"
  "unpack_tag C L un 0xcf r = Some (map_prod (\<lambda>w. VInt (sint w)) id (mp_reader_read_u64 r))"
  "unpack_tag C L un 0xd0 r = Some (map_prod VInt id (mp_reader_read_i8 r))"
  "unpack_tag C L un 0xd1 r = Some (map_prod VInt id (mp_reader_read_i16 r))"
  "unpack_tag C L un 0xd2 r = Some (map_prod VInt id (mp_reader_read_i32 r))"
  "unpack_tag C L un 0xd3 r = Some (map_prod VInt id (mp_reader_read_i64 r))"
  "unpack_tag C L un 0xca r = Some (map_prod (\<lambda>w. VFloat (fc_widen C w)) id (mp_reader_read_u32 r))"
  "unpack_tag C L un 0xcb r = Some (map_prod VFloat id (mp_reader_read_u64 r))"
  "unpack_tag C L un 0xd9 r = (let (n, r1) = mp_reader_read_u8 r in Some (mp_unpack_str_raw r1 (unat n)))"
  "unpack_tag C L un 0xda r = (let (n, r1) = mp_reader_read_u16 r in Some (mp_unpack_str_raw r1 (unat n)))"
  "unpack_tag C L un 0xdb r = (let (n, r1) = mp_reader_read_u32 r in Some (mp_unpack_str_raw r1 (unat n)))"
  "unpack_tag C L un 0xdc r = (let (n, r1) = mp_reader_read_u16 r in mp_unpack_array un r1 (unat n))"
  "unpack_tag C L un 0xdd r = (let (n, r1) = mp_reader_read_u32 r in mp_unpack_array un r1 (unat n))"
  "unpack_tag C L un 0xde r = (let (n, r1) = mp_reader_read_u16 r in mp_unpack_map L un r1 (unat n))"
  "unpack_tag C L un 0xdf r = (let (n, r1) = mp_reader_read_u32 r in mp_unpack_map L un r1 (unat n))"
  "unpack_tag C L un 0xd4 r = mp_unpack_ext_raw un r 1"
  "unpack_tag C L un 0xd5 r = mp_unpack_ext_raw un r 2"
  "unpack_tag C L un 0xd6 r = mp_unpack_ext_raw un r 4"
  "unpack_tag C L un 0xd7 r = mp_unpack_ext_raw un r 8"
  "unpack_tag C L un 0xd8 r = mp_unpack_ext_raw un r 16"
  "unpack_tag C L un 0xc7 r = (let (n, r1) = mp_reader_read_u8 r in mp_unpack_ext_raw un r1 (unat n))"
  "unpack_tag C L un 0xc8 r = (let (n, r1) = mp_reader_read_u16 r in mp_unpack_ext_raw un r1 (unat n))"
  "unpack_tag C L un 0xc9 r = (let (n, r1) = mp_reader_read_u32 r in mp_unpack_ext_raw un r1 (unat n))"
  by (simp_all add: unpack_tag_def)

text \<open>The tags that carry a small number, checked one by one.\<close>

definition tag_class :: "u8 \<Rightarrow> nat" where
  "tag_class tag =
     (if tag \<le> 0x7f then 0 else if tag AND 0xf0 = 0x80 then 1 else if tag AND 0xf0 = 0x90 then 2
      else if tag AND 0xe0 = 0xa0 then 3 else if 0xe0 \<le> tag then 4 else 5)"

lemma small_tags:
  "\<forall>n \<in> set [0..<16]. let t = ucast (0x90 OR word_of_int (int n) :: u32) :: u8 in tag_class t = 2 \<and> nat (uint (t AND 0x0f)) = n"
  "\<forall>n \<in> set [0..<16]. let t = ucast (0x80 OR word_of_int (int n) :: u32) :: u8 in tag_class t = 1 \<and> nat (uint (t AND 0x0f)) = n"
  "\<forall>n \<in> set [0..<32]. let t = ucast (0xa0 OR word_of_int (int n) :: u32) :: u8 in tag_class t = 3 \<and> nat (uint (t AND 0x1f)) = n"
  "\<forall>i \<in> set [-32..-1]. let t = word_of_int (i AND 0xff) :: u8 in tag_class t = 4 \<and> sint t = i"
  by code_simp+

lemma tag_class_conds:
  "tag_class tag = 0 \<Longrightarrow> tag \<le> 0x7f"
  "tag_class tag = 1 \<Longrightarrow> \<not> tag \<le> 0x7f \<and> tag AND 0xf0 = 0x80"
  "tag_class tag = 2 \<Longrightarrow> \<not> tag \<le> 0x7f \<and> tag AND 0xf0 \<noteq> 0x80 \<and> tag AND 0xf0 = 0x90"
  "tag_class tag = 3 \<Longrightarrow> \<not> tag \<le> 0x7f \<and> tag AND 0xf0 \<noteq> 0x80 \<and> tag AND 0xf0 \<noteq> 0x90 \<and> tag AND 0xe0 = 0xa0"
  "tag_class tag = 4 \<Longrightarrow> \<not> tag \<le> 0x7f \<and> tag AND 0xf0 \<noteq> 0x80 \<and> tag AND 0xf0 \<noteq> 0x90 \<and> tag AND 0xe0 \<noteq> 0xa0 \<and> 0xe0 \<le> tag"
  unfolding tag_class_def by (auto split: if_splits)

lemma mask_90_80: "((0x90 :: u8) = 0x80) = False"
  by simp

lemma unpack_tag_class:
  "tag_class tag = 0 \<Longrightarrow> unpack_tag C L un tag r = Some (VInt (uint tag), r)"
  "tag_class tag = 1 \<Longrightarrow> unpack_tag C L un tag r = mp_unpack_map L un r (unat (tag AND 0x0f))"
  "tag_class tag = 2 \<Longrightarrow> unpack_tag C L un tag r = mp_unpack_array un r (unat (tag AND 0x0f))"
  "tag_class tag = 3 \<Longrightarrow> unpack_tag C L un tag r = Some (mp_unpack_str_raw r (unat (tag AND 0x1f)))"
  "tag_class tag = 4 \<Longrightarrow> unpack_tag C L un tag r = Some (VInt (sint tag), r)"
  unfolding unpack_tag_def by (simp_all only: tag_class_conds mask_90_80 if_True if_False simp_thms)

end
