(* ===== verification/XMsgPackProofs.thy ===== *)
theory XMsgPackProofs
  imports XMsgPackWire
begin

text \<open>
  Decoding inverts encoding: \<open>decodes\<close> says what a byte sequence decodes to wherever it
  stands, every encoder is shown to append such a sequence, and \<open>norm\<close> is the value that
  comes back. The second half shows the decoder total and within its data on any bytes.
\<close>

definition decodes :: "fconv \<Rightarrow> libc_float \<Rightarrow> u8 list \<Rightarrow> value_t \<Rightarrow> bool" where
  "decodes C L bs v \<longleftrightarrow> bs \<noteq> [] \<and>
     (\<forall>fuel r post. length bs \<le> fuel \<longrightarrow> sees r (bs @ post) \<longrightarrow>
        (\<exists>r'. mp_unpack_value C L fuel r = Some (v, r') \<and> sees r' post))"

lemma decodesD:
  "\<lbrakk>decodes C L bs v; length bs \<le> fuel; sees r (bs @ post)\<rbrakk> \<Longrightarrow>
     \<exists>r'. mp_unpack_value C L fuel r = Some (v, r') \<and> sees r' post"
  unfolding decodes_def by blast

lemma decodesI:
  assumes "\<And>f r post. \<lbrakk>length bs \<le> f; sees r (bs @ post)\<rbrakk> \<Longrightarrow>
    \<exists>r'. unpack_tag C L (mp_unpack_value C L f) tag r = Some (v, r') \<and> sees r' post"
  shows "decodes C L (tag # bs) v"
  unfolding decodes_def
proof (intro conjI allI impI)
  fix fuel r post assume f: "length (tag # bs) \<le> fuel" and s: "sees r ((tag # bs) @ post)"
  then obtain f' where f': "fuel = Suc f'" "length bs \<le> f'" by (cases fuel) auto
  obtain r1 where r1: "mp_reader_read_u8 r = (tag, r1)" "sees r1 (bs @ post)"
    using read_u8_sees [of r tag "bs @ post"] s by auto
  have "rerr r = None" "rpos r < length (rdata r)" "rerr r1 = None"
    using s r1(2) sees_length [OF s] by (simp_all add: sees_def)
  then show "\<exists>r'. mp_unpack_value C L fuel r = Some (v, r') \<and> sees r' post"
    using assms [OF f'(2) r1(2)] r1(1) f'(1) by auto
qed simp

section \<open>Scalars\<close>

lemma decodes_const:
  "decodes C L [0xc0] VNull" "decodes C L [0xc2] (VBool False)" "decodes C L [0xc3] (VBool True)"
  by (rule decodesI, simp add: unpack_tag_const)+

lemma decodes_class0: "tag \<le> 0x7f \<Longrightarrow> decodes C L [tag] (VInt (uint tag))"
  by (rule decodesI) (simp add: unpack_tag_class tag_class_def)

lemma decodes_class4: "tag_class tag = 4 \<Longrightarrow> decodes C L [tag] (VInt (sint tag))"
  by (rule decodesI) (simp add: unpack_tag_class)

lemma decodes_rd:
  assumes "wire_codec wr rd bytes" and "\<And>un r. unpack_tag C L un tag r = Some (map_prod f id (rd r))"
  shows "decodes C L (tag # bytes w) (f w)"
proof (rule decodesI)
  fix fuel r post assume "sees r (bytes w @ post)"
  then obtain r' where "rd r = (w, r')" "sees r' post" using wire_codec.rd_bytes [OF assms(1)] by blast
  then show "\<exists>r'. unpack_tag C L (mp_unpack_value C L fuel) tag r = Some (f w, r') \<and> sees r' post"
    by (simp add: assms(2))
qed

lemmas signed_readers = mp_reader_read_i8_def mp_reader_read_i16_def mp_reader_read_i32_def
  mp_reader_read_i64_def prod.map_comp comp_def id_def

lemma decodes_word:
  "decodes C L [0xcc, w8] (VInt (uint w8))"
  "decodes C L (0xcd # be16 w16) (VInt (uint w16))"
  "decodes C L (0xce # be32 w32) (VInt (uint w32))"
  "decodes C L (0xcf # be64 w64) (VInt (sint w64))"
  "decodes C L [0xd0, w8] (VInt (sint w8))"
  "decodes C L (0xd1 # be16 w16) (VInt (sint w16))"
  "decodes C L (0xd2 # be32 w32) (VInt (sint w32))"
  "decodes C L (0xd3 # be64 w64) (VInt (sint w64))"
  "decodes C L (0xca # be32 w32) (VFloat (fc_widen C w32))"
  "decodes C L (0xcb # be64 w64) (VFloat w64)"
  using
    decodes_rd [OF wire8.wire_codec_axioms, where C = C and L = L and tag = "0xcc" and f = "\<lambda>w. VInt (uint w)" and w = w8]
    decodes_rd [OF wire16.wire_codec_axioms, where C = C and L = L and tag = "0xcd" and f = "\<lambda>w. VInt (uint w)" and w = w16]
    decodes_rd [OF wire32.wire_codec_axioms, where C = C and L = L and tag = "0xce" and f = "\<lambda>w. VInt (uint w)" and w = w32]
    decodes_rd [OF wire64.wire_codec_axioms, where C = C and L = L and tag = "0xcf" and f = "\<lambda>w. VInt (sint w)" and w = w64]
    decodes_rd [OF wire8.wire_codec_axioms, where C = C and L = L and tag = "0xd0" and f = "\<lambda>w. VInt (sint w)" and w = w8]
    decodes_rd [OF wire16.wire_codec_axioms, where C = C and L = L and tag = "0xd1" and f = "\<lambda>w. VInt (sint w)" and w = w16]
    decodes_rd [OF wire32.wire_codec_axioms, where C = C and L = L and tag = "0xd2" and f = "\<lambda>w. VInt (sint w)" and w = w32]
    decodes_rd [OF wire64.wire_codec_axioms, where C = C and L = L and tag = "0xd3" and f = "\<lambda>w. VInt (sint w)" and w = w64]
    decodes_rd [OF wire32.wire_codec_axioms, where C = C and L = L and tag = "0xca" and f = "\<lambda>w. VFloat (fc_widen C w)" and w = w32]
    decodes_rd [OF wire64.wire_codec_axioms, where C = C and L = L and tag = "0xcb" and f = "VFloat" and w = w64]
  by (simp_all add: unpack_tag_const signed_readers)

definition uint_bytes :: "u64 \<Rightarrow> u8 list" where
  "uint_bytes v =
     (if v \<le> 0x7f then [ucast v]
      else if v \<le> 0xff then [0xcc, ucast v]
      else if v \<le> 0xffff then 0xcd # be16 (ucast v)
      else if v \<le> 0xffffffff then 0xce # be32 (ucast v)
      else 0xcf # be64 v)"

definition int_bytes :: "int \<Rightarrow> u8 list" where
  "int_bytes v =
     (if 0 \<le> v then uint_bytes (word_of_int v)
      else if -32 \<le> v then [word_of_int (v AND 0xff)]
      else if -128 \<le> v then [0xd0, word_of_int v]
      else if -32768 \<le> v then 0xd1 # be16 (word_of_int v)
      else if -2147483648 \<le> v then 0xd2 # be32 (word_of_int v)
      else 0xd3 # be64 (word_of_int v))"

lemma bdata_pack_int: "bdata (mp_pack_int b v) = bdata b @ int_bytes v"
  by (simp add: mp_pack_int_def int_bytes_def mp_pack_uint_def uint_bytes_def wire16.wr_bytes
      wire32.wr_bytes wire64.wr_bytes mp_buf_write_i8_def mp_buf_write_i16_def mp_buf_write_i32_def
      mp_buf_write_i64_def)

lemma uint_ucast_small:
  "uint (v :: u64) < 2 ^ LENGTH('a) \<Longrightarrow> uint (ucast v :: 'a::len word) = uint v"
  by (simp add: uint_up_ucast take_bit_int_eq_self unsigned_ucast_eq)

lemma sint_word_small:
  "- (2 ^ (LENGTH('a) - 1)) \<le> v \<Longrightarrow> v < 2 ^ (LENGTH('a) - 1) \<Longrightarrow> sint (word_of_int v :: 'a::len word) = v"
  by (simp add: sint_uint uint_word_of_int_eq signed_take_bit_take_bit signed_take_bit_int_eq_self)

lemma decodes_int:
  assumes "in_i64 v"
  shows "decodes C L (int_bytes v) (VInt v)"
proof (cases "0 \<le> v")
  case True
  let ?w = "word_of_int v :: u64"
  have u: "uint ?w = v" using True assms by (simp add: uint_word_of_int i64_defs)
  have s: "sint ?w = v" using True assms by (intro sint_word_small) (simp_all add: i64_defs)
  consider "v \<le> 127" | "127 < v" "v \<le> 255" | "255 < v" "v \<le> 65535" | "65535 < v" "v \<le> 4294967295"
    | "4294967295 < v" by linarith
  then show ?thesis
  proof cases
    case 1
    then have "uint (ucast ?w :: u8) = v" using u by (subst uint_ucast_small) simp_all
    moreover from this have "(ucast ?w :: u8) \<le> 0x7f" using 1 by (simp add: word_le_def)
    ultimately show ?thesis
      using decodes_class0 [of "ucast ?w"] True 1 u by (simp add: int_bytes_def uint_bytes_def word_le_def)
  next
    case 2
    then have "uint (ucast ?w :: u8) = v" using u by (subst uint_ucast_small) simp_all
    then show ?thesis
      using decodes_word(1) [of C L "ucast ?w"] True 2 u by (simp add: int_bytes_def uint_bytes_def word_le_def)
  next
    case 3
    then have "uint (ucast ?w :: u16) = v" using u by (subst uint_ucast_small) simp_all
    then show ?thesis
      using decodes_word(2) [of C L "ucast ?w"] True 3 u by (simp add: int_bytes_def uint_bytes_def word_le_def)
  next
    case 4
    then have "uint (ucast ?w :: u32) = v" using u by (subst uint_ucast_small) simp_all
    then show ?thesis
      using decodes_word(3) [of C L "ucast ?w"] True 4 u by (simp add: int_bytes_def uint_bytes_def word_le_def)
  next
    case 5
    then show ?thesis
      using decodes_word(4) [of C L ?w] True u s by (simp add: int_bytes_def uint_bytes_def word_le_def)
  qed
next
  case False
  consider "-32 \<le> v" | "v < -32" "-128 \<le> v" | "v < -128" "-32768 \<le> v" | "v < -32768" "-2147483648 \<le> v"
    | "v < -2147483648" by linarith
  then show ?thesis
  proof cases
    case 1
    then have "v \<in> set [-32..-1]" using False by simp
    then have "tag_class (word_of_int (v AND 0xff)) = 4" "sint (word_of_int (v AND 0xff) :: u8) = v"
      using small_tags(4) by (auto simp: Let_def)
    then show ?thesis
      using decodes_class4 [of "word_of_int (v AND 0xff)"] False 1 by (simp add: int_bytes_def)
  qed (use False assms decodes_word(5) [of C L "word_of_int v"] decodes_word(6) [of C L "word_of_int v"]
      decodes_word(7) [of C L "word_of_int v"] decodes_word(8) [of C L "word_of_int v"]
      in \<open>simp_all add: int_bytes_def sint_word_small i64_defs\<close>)
qed

section \<open>Counted headers\<close>

text \<open>
  Strings, arrays, maps and extensions start with a count in the shortest of three forms; the
  decoder continues with the same count whichever form it meets.
\<close>

lemma u32_of_nat: "n < B32 \<Longrightarrow> unat (word_of_nat n :: u32) = n"
  by (simp add: unsigned_of_nat take_bit_nat_eq_self)

lemma u32_small:
  fixes n :: nat
  defines "w \<equiv> word_of_nat n :: u32"
  assumes "n < B32"
  shows "unat w = n" and "w \<le> 31 \<longleftrightarrow> n \<le> 31" and "w \<le> 15 \<longleftrightarrow> n \<le> 15" and "w \<le> 0xff \<longleftrightarrow> n \<le> 255"
    and "w \<le> 0xffff \<longleftrightarrow> n \<le> 65535" and "0 < w \<longleftrightarrow> 0 < n"
    and "n \<le> 255 \<Longrightarrow> unat (ucast w :: u8) = n" and "n \<le> 65535 \<Longrightarrow> unat (ucast w :: u16) = n"
    and "w = 1 \<longleftrightarrow> n = 1" and "w = 2 \<longleftrightarrow> n = 2" and "w = 4 \<longleftrightarrow> n = 4" and "w = 8 \<longleftrightarrow> n = 8" and "w = 16 \<longleftrightarrow> n = 16"
proof -
  show u: "unat w = n" using assms by (simp add: u32_of_nat)
  show "w \<le> 31 \<longleftrightarrow> n \<le> 31" "w \<le> 15 \<longleftrightarrow> n \<le> 15" "w \<le> 0xff \<longleftrightarrow> n \<le> 255" "w \<le> 0xffff \<longleftrightarrow> n \<le> 65535"
    "0 < w \<longleftrightarrow> 0 < n"
    using u by (simp_all add: word_le_nat_alt word_less_nat_alt)
  show "w = 1 \<longleftrightarrow> n = 1" "w = 2 \<longleftrightarrow> n = 2" "w = 4 \<longleftrightarrow> n = 4" "w = 8 \<longleftrightarrow> n = 8" "w = 16 \<longleftrightarrow> n = 16"
    using u by (simp_all add: word_unat_eq_iff)
  show "n \<le> 255 \<Longrightarrow> unat (ucast w :: u8) = n" "n \<le> 65535 \<Longrightarrow> unat (ucast w :: u16) = n"
    using u by (simp_all add: unsigned_ucast_eq take_bit_nat_eq_self)
qed

definition counted :: "nat \<Rightarrow> nat \<Rightarrow> u32 \<Rightarrow> u8 \<Rightarrow> u8 option \<Rightarrow> u8 \<Rightarrow> u8 \<Rightarrow> u8 list" where
  "counted lim n fixed base t8 t16 t32 =
     (let w = word_of_nat n :: u32
      in if n \<le> lim then [ucast (fixed OR w)]
         else if t8 \<noteq> None \<and> n \<le> 255 then [the t8, ucast w]
         else if n \<le> 65535 then t16 # be16 (ucast w)
         else t32 # be32 w)"

abbreviation "str_head n \<equiv> counted 31 n 0xa0 0xa0 (Some 0xd9) 0xda 0xdb"
abbreviation "arr_head n \<equiv> counted 15 n 0x90 0x90 None 0xdc 0xdd"
abbreviation "map_head n \<equiv> counted 15 n 0x80 0x80 None 0xde 0xdf"

lemma bdata_headers:
  assumes "n < B32"
  shows "bdata (mp_pack_str_header b (word_of_int (int n))) = bdata b @ str_head n"
    and "bdata (mp_pack_array_header b (word_of_int (int n))) = bdata b @ arr_head n"
    and "bdata (mp_pack_map_header b (word_of_int (int n))) = bdata b @ map_head n"
  using u32_small [OF assms]
  by (simp_all add: mp_pack_str_header_def mp_pack_array_header_def mp_pack_map_header_def counted_def Let_def
      wire16.wr_bytes wire32.wr_bytes)

text \<open>Reading the count after the tag \<open>t\<close>, with the rest of the decoder as \<open>k\<close>.\<close>

lemma counted_decodes:
  assumes n: "n < B32"
    and body: "\<And>f r post. \<lbrakk>length bs \<le> f; sees r (bs @ post)\<rbrakk> \<Longrightarrow>
      \<exists>r'. k (mp_unpack_value C L f) r n = Some (v, r') \<and> sees r' post"
    and fixed: "\<And>un r. n \<le> lim \<Longrightarrow> unpack_tag C L un (ucast (fx OR (word_of_nat n :: u32))) r = k un r n"
    and t8: "\<And>un r t. t8 = Some t \<Longrightarrow> unpack_tag C L un t r = (let (m, r1) = mp_reader_read_u8 r in k un r1 (unat m))"
    and t16: "\<And>un r. unpack_tag C L un t16 r = (let (m, r1) = mp_reader_read_u16 r in k un r1 (unat m))"
    and t32: "\<And>un r. unpack_tag C L un t32 r = (let (m, r1) = mp_reader_read_u32 r in k un r1 (unat m))"
  shows "decodes C L (counted lim n fx base t8 t16 t32 @ bs) v"
proof -
  let ?w = "word_of_nat n :: u32"
  note w = u32_small [OF n]
  have long: "decodes C L (t # xs @ bs) v"
    if "wire_codec wr rd bytes" "bytes x = xs" "conv x = n"
      "\<And>un r. unpack_tag C L un t r = (let (m, r1) = rd r in k un r1 (conv m))"
    for t xs and x :: 'w and wr rd bytes conv
  proof (rule decodesI)
    note codec = that
    fix f r post assume f: "length (xs @ bs) \<le> f" and s: "sees r ((xs @ bs) @ post)"
    then obtain r1 where r1: "rd r = (x, r1)" "sees r1 (bs @ post)"
      using wire_codec.rd_bytes [OF codec(1), of r x "bs @ post"] codec(2) by auto
    show "\<exists>r'. unpack_tag C L (mp_unpack_value C L f) t r = Some (v, r') \<and> sees r' post"
      using body [OF _ r1(2), of f] f r1(1) codec(3,4) by simp
  qed
  consider "n \<le> lim" | "lim < n" "t8 \<noteq> None" "n \<le> 255" | "lim < n" "t8 = None \<or> 255 < n" "n \<le> 65535"
    | "lim < n" "t8 = None \<or> 255 < n" "65535 < n" by linarith
  then show ?thesis
  proof cases
    case 1
    then show ?thesis using body fixed by (auto simp: counted_def intro!: decodesI)
  next
    case 2
    then obtain t where "t8 = Some t" by blast
    then show ?thesis using 2 long [OF wire8.wire_codec_axioms, of "ucast ?w" _ unat t] w(7) t8
      by (auto simp: counted_def)
  next
    case 3
    then show ?thesis using long [OF wire16.wire_codec_axioms, of "ucast ?w" _ unat t16] w(8) t16
      by (auto simp: counted_def Let_def)
  next
    case 4
    then show ?thesis using long [OF wire32.wire_codec_axioms, of ?w _ unat t32] w(1) t32
      by (auto simp: counted_def Let_def)
  qed
qed

section \<open>Strings\<close>

lemma decodes_str:
  assumes "length s < B32"
  shows "decodes C L (str_head (length s) @ s) (VStr (c_string s))"
proof (rule counted_decodes [OF assms, where k = "\<lambda>un r n. Some (mp_unpack_str_raw r n)"])
  fix f r post assume "sees r (s @ post)"
  then show "\<exists>r'. Some (mp_unpack_str_raw r (length s)) = Some (VStr (c_string s), r') \<and> sees r' post"
    using read_bytes_sees by (fastforce simp: mp_unpack_str_raw_def)
next
  fix un r assume "length s \<le> 31"
  then have "length s \<in> set [0..<32]" by simp
  then show "unpack_tag C L un (ucast (0xA0 OR (word_of_nat (length s) :: u32))) r = Some (mp_unpack_str_raw r (length s))"
    using small_tags(3) by (fastforce simp: unpack_tag_class Let_def)
qed (auto simp: unpack_tag_const)

lemma bdata_pack_str: "length s < B32 \<Longrightarrow> bdata (mp_pack_str b s) = bdata b @ str_head (length s) @ s"
  using bdata_headers(1) [of "length s" b] u32_small(1,6) [of "length s"]
  by (cases "s = []") (simp_all add: mp_pack_str_def Let_def)

section \<open>Arrays and maps\<close>

lemma unpack_list_decodes:
  "\<lbrakk>list_all2 (decodes C L) bss vs; length (concat bss) \<le> f; sees r (concat bss @ post)\<rbrakk> \<Longrightarrow>
     \<exists>r'. unpack_list (mp_unpack_value C L f) (length vs) r = Some (vs, r') \<and> sees r' post"
proof (induction bss vs arbitrary: r rule: list_all2_induct)
  case (Cons bs bss v vs)
  have s: "sees r (bs @ concat bss @ post)" using Cons.prems by simp
  obtain r1 where r1: "mp_unpack_value C L f r = Some (v, r1)" "sees r1 (concat bss @ post)"
    using decodesD [OF Cons.hyps(1) _ s, of f] Cons.prems by auto
  then show ?case using Cons.IH [OF _ r1(2)] Cons.prems by (auto simp: sees_def)
qed auto

lemma decodes_array:
  assumes "list_all2 (decodes C L) bss vs" and "length vs < B32"
  shows "decodes C L (arr_head (length vs) @ concat bss) (VArray vs)"
proof (rule counted_decodes [OF assms(2), where k = "\<lambda>un r n. mp_unpack_array un r n"])
  fix f r post assume "length (concat bss) \<le> f" "sees r (concat bss @ post)"
  then show "\<exists>r'. mp_unpack_array (mp_unpack_value C L f) r (length vs) = Some (VArray vs, r') \<and> sees r' post"
    using unpack_list_decodes [OF assms(1)] by (fastforce simp: mp_unpack_array_def)
next
  fix un r assume "length vs \<le> 15"
  then have "length vs \<in> set [0..<16]" by simp
  then show "unpack_tag C L un (ucast (0x90 OR (word_of_nat (length vs) :: u32))) r = mp_unpack_array un r (length vs)"
    using small_tags(1) by (fastforce simp: unpack_tag_class Let_def)
qed (auto simp: unpack_tag_const)

text \<open>Entries on the wire: the bytes of each key and of each value.\<close>

definition entry_decodes :: "fconv \<Rightarrow> libc_float \<Rightarrow> u8 list \<times> u8 list \<Rightarrow> string \<times> value_t \<Rightarrow> bool" where
  "entry_decodes C L bb kv \<longleftrightarrow> decodes C L (fst bb) (VStr (fst kv)) \<and> decodes C L (snd bb) (snd kv)"

definition entry_bytes :: "(u8 list \<times> u8 list) list \<Rightarrow> u8 list" where
  "entry_bytes bbs = concat (map (\<lambda>(k, v). k @ v) bbs)"

definition update_all :: "(string \<times> value_t) list \<Rightarrow> (string \<times> value_t) list \<Rightarrow> (string \<times> value_t) list" where
  "update_all kvs m = fold (\<lambda>(k, v). AList.update k v) kvs m"

lemma update_all_simps [simp]:
  "update_all [] m = m"
  "update_all ((k, v) # kvs) m = update_all kvs (AList.update k v m)"
  by (simp_all add: update_all_def)

lemma value_str_VStr [simp]: "value_str L (VStr k) = k"
  by (simp add: value_str_def repr.simps)

lemma unpack_entries_decodes:
  "\<lbrakk>list_all2 (entry_decodes C L) bbs kvs; length (entry_bytes bbs) \<le> f; sees r (entry_bytes bbs @ post)\<rbrakk> \<Longrightarrow>
     \<exists>r'. unpack_entries L (mp_unpack_value C L f) (length kvs) r m = Some (update_all kvs m, r') \<and> sees r' post"
proof (induction bbs kvs arbitrary: r m rule: list_all2_induct)
  case Nil
  then show ?case by (simp add: entry_bytes_def)
next
  case (Cons bb bbs kv kvs)
  obtain kb vb k v where e: "bb = (kb, vb)" "kv = (k, v)" by fastforce
  have d: "decodes C L kb (VStr k)" "decodes C L vb v" using Cons.hyps(1) e by (simp_all add: entry_decodes_def)
  have s: "sees r (kb @ vb @ entry_bytes bbs @ post)" using Cons.prems(2) e by (simp add: entry_bytes_def)
  have f: "length kb \<le> f" "length vb \<le> f" "length (entry_bytes bbs) \<le> f"
    using Cons.prems(1) e by (simp_all add: entry_bytes_def)
  obtain r1 where r1: "mp_unpack_value C L f r = Some (VStr k, r1)" "sees r1 (vb @ entry_bytes bbs @ post)"
    using decodesD [OF d(1) f(1) s] by blast
  obtain r2 where r2: "mp_unpack_value C L f r1 = Some (v, r2)" "sees r2 (entry_bytes bbs @ post)"
    using decodesD [OF d(2) f(2) r1(2)] by blast
  have "rerr r = None" using s by (simp add: sees_def)
  then show ?case using Cons.IH [OF f(3) r2(2), of "AList.update k v m"] r1(1) r2(1) e by simp
qed

lemma decodes_map:
  assumes "list_all2 (entry_decodes C L) bbs kvs" and "length kvs < B32"
  shows "decodes C L (map_head (length kvs) @ entry_bytes bbs) (VMap (update_all kvs []))"
proof (rule counted_decodes [OF assms(2), where k = "\<lambda>un r n. mp_unpack_map L un r n"])
  fix f r post assume "length (entry_bytes bbs) \<le> f" "sees r (entry_bytes bbs @ post)"
  then show "\<exists>r'. mp_unpack_map L (mp_unpack_value C L f) r (length kvs) = Some (VMap (update_all kvs []), r') \<and> sees r' post"
    using unpack_entries_decodes [OF assms(1)] by (fastforce simp: mp_unpack_map_def)
next
  fix un r assume "length kvs \<le> 15"
  then have "length kvs \<in> set [0..<16]" by simp
  then show "unpack_tag C L un (ucast (0x80 OR (word_of_nat (length kvs) :: u32))) r = mp_unpack_map L un r (length kvs)"
    using small_tags(2) by (fastforce simp: unpack_tag_class Let_def)
qed (auto simp: unpack_tag_const)

section \<open>Extensions\<close>

definition ext_head :: "nat \<Rightarrow> u8 list" where
  "ext_head n =
     (if n = 1 then [0xd4] else if n = 2 then [0xd5] else if n = 4 then [0xd6] else if n = 8 then [0xd7]
      else if n = 16 then [0xd8] else if n \<le> 255 then [0xc7, word_of_nat n]
      else if n \<le> 65535 then 0xc8 # be16 (word_of_nat n) else 0xc9 # be32 (word_of_nat n))"

lemma ucast_of_nat_u32: "(ucast (word_of_nat n :: u32) :: u8) = word_of_nat n" "(ucast (word_of_nat n :: u32) :: u16) = word_of_nat n"
  by (simp_all add: word_unat_eq_iff unsigned_ucast_eq unsigned_of_nat)

lemma bdata_pack_ext:
  assumes "length s < B32"
  shows "bdata (mp_pack_ext b ty s) = bdata b @ ext_head (length s) @ ty # s"
  using u32_small [OF assms]
  by (cases "s = []") (simp_all add: mp_pack_ext_def mp_pack_ext_header_def ext_head_def Let_def ucast_of_nat_u32
      wire16.wr_bytes wire32.wr_bytes)

text \<open>What an extension's payload decodes to.\<close>

definition ext_value :: "unpacker \<Rightarrow> u8 \<Rightarrow> u8 list \<Rightarrow> value_t option" where
  "ext_value un ty bs =
     (if ty = 1 then Some (VRegex (c_string bs))
      else if ty = 3 then Some (VInt (strtoll10 (c_string bs)))
      else if ty = 4 then unpack_range un bs
      else if ty = 5 then unpack_tuple un bs
      else None)"

lemma ext_raw_sees:
  assumes "sees r (ty # s @ post)" and "ext_value un ty s = Some v"
  shows "\<exists>r'. mp_unpack_ext_raw un r (length s) = Some (v, r') \<and> sees r' post"
proof -
  obtain r1 where r1: "mp_reader_read_u8 r = (ty, r1)" "sees r1 (s @ post)"
    using read_u8_sees [OF assms(1)] by blast
  obtain r2 where r2: "read_bytes r1 (length s) = (Some s, r2)" "sees r2 post"
    using read_bytes_sees [OF r1(2)] by blast
  have t: "ty \<in> {1, 3, 4, 5}" using assms(2) by (auto simp: ext_value_def split: if_splits)
  have "rerr r1 = None" using r1(2) by (simp add: sees_def)
  then show ?thesis
    using r1(1) r2 t assms(2) by (auto simp: mp_unpack_ext_raw_def mp_reader_read_i8_def ext_value_def)
qed

lemma decodes_ext:
  assumes n: "length s < B32" and v: "\<And>f. length s \<le> f \<Longrightarrow> ext_value (mp_unpack_value C L f) ty s = Some v"
  shows "decodes C L (ext_head (length s) @ ty # s) v"
proof -
  let ?n = "length s"
  have fixed: "decodes C L (t # ty # s) v" if "\<And>un r. unpack_tag C L un t r = mp_unpack_ext_raw un r ?n" for t
  proof (rule decodesI)
    fix f r post assume "length (ty # s) \<le> f" "sees r ((ty # s) @ post)"
    then show "\<exists>r'. unpack_tag C L (mp_unpack_value C L f) t r = Some (v, r') \<and> sees r' post"
      using ext_raw_sees [of r ty s post "mp_unpack_value C L f" v] v [of f] that by auto
  qed
  have long: "decodes C L ((t # xs) @ ty # s) v"
    if codec: "wire_codec wr rd bytes" "bytes x = xs" "conv x = ?n"
      and tag: "\<And>un r. unpack_tag C L un t r = (let (m, r1) = rd r in mp_unpack_ext_raw un r1 (conv m))"
    for t xs and x :: 'w and wr rd bytes conv
    unfolding append_Cons
  proof (rule decodesI)
    fix f r post assume f: "length (xs @ ty # s) \<le> f" and s: "sees r ((xs @ ty # s) @ post)"
    then obtain r1 where r1: "rd r = (x, r1)" "sees r1 (ty # s @ post)"
      using wire_codec.rd_bytes [OF codec(1), of r x "ty # s @ post"] codec(2) by auto
    show "\<exists>r'. unpack_tag C L (mp_unpack_value C L f) t r = Some (v, r') \<and> sees r' post"
      using ext_raw_sees [OF r1(2)] v [of f] f r1(1) codec(3) tag by simp
  qed
  have w: "unat (word_of_nat ?n :: u32) = ?n" "?n \<le> 255 \<Longrightarrow> unat (word_of_nat ?n :: u8) = ?n"
    "?n \<le> 65535 \<Longrightarrow> unat (word_of_nat ?n :: u16) = ?n"
    using n by (simp_all add: unsigned_of_nat take_bit_nat_eq_self)
  consider "?n \<in> {1, 2, 4, 8, 16}" | "?n \<notin> {1, 2, 4, 8, 16}" "?n \<le> 255" | "255 < ?n" "?n \<le> 65535" | "65535 < ?n"
    by force
  then show ?thesis
  proof cases
    case 1
    then show ?thesis by (auto simp: ext_head_def intro!: fixed) (simp_all add: unpack_tag_const)
  next
    case 2
    then show ?thesis using long [OF wire8.wire_codec_axioms, of "word_of_nat ?n" _ unat "0xc7"] w(2)
      by (simp add: ext_head_def unpack_tag_const)
  next
    case 3
    then show ?thesis using long [OF wire16.wire_codec_axioms, of "word_of_nat ?n" _ unat "0xc8"] w(3)
      by (simp add: ext_head_def unpack_tag_const)
  next
    case 4
    then show ?thesis using long [OF wire32.wire_codec_axioms, of "word_of_nat ?n" _ unat "0xc9"] w(1)
      by (simp add: ext_head_def unpack_tag_const)
  qed
qed

section \<open>Values that come back\<close>

definition c_str :: "string \<Rightarrow> bool" where
  "c_str s \<longleftrightarrow> CHR 0x00 \<notin> set s"

lemma of_char_range: "0 \<le> (of_char c :: int) \<and> (of_char c :: int) < 256"
  using pos_mod_sign [of "256 :: int" "of_char c"] pos_mod_bound [of "256 :: int" "of_char c"] by simp

lemma c_string_bytes: "c_str s \<Longrightarrow> c_string (bytes_of s) = s"
proof (induction s)
  case (Cons c s)
  have u: "uint (word_of_int (of_char c) :: u8) = of_char c"
    using of_char_range [of c] by (simp add: uint_word_of_int)
  have "(of_char c :: int) \<noteq> of_char (CHR 0x00)"
    unfolding of_char_eq_iff using Cons.prems by (auto simp: c_str_def)
  then have "(word_of_int (of_char c) :: u8) \<noteq> 0" using u by auto
  then show ?case using Cons u by (simp add: c_string_def bytes_of_def c_str_def)
qed (simp add: c_string_def bytes_of_def)

lemma length_bytes_of [simp]: "length (bytes_of s) = length s"
  by (simp add: bytes_of_def)

text \<open>The value decoding an encoded value gives.\<close>

fun norm :: "fconv \<Rightarrow> value_t \<Rightarrow> value_t"
  and norm_list :: "fconv \<Rightarrow> value_t list \<Rightarrow> value_t list"
  and norm_entries :: "fconv \<Rightarrow> bool \<Rightarrow> (string \<times> value_t) list \<Rightarrow> (string \<times> value_t) list"
where
  "norm C (VFloat f) =
     VFloat (if fbits_eq (fc_widen C (fc_narrow C f)) f then fc_widen C (fc_narrow C f) else f)"
| "norm C (VBig b) = VInt (strtoll10 (c_string (bytes_of (bigint_to_str b 10))))"
| "norm C (VChar s p) = VStr (c_string [ucast p])"
| "norm C (VArray xs) = VArray (norm_list C xs)"
| "norm C (VTuple xs) = VTuple (norm_list C xs)"
| "norm C (VMap es) = VMap (update_all (norm_entries C False es) [])"
| "norm C (VRange s e st inc) = xs_range_step s e (sint (word_of_int inc :: u32)) st"
| "norm C (VStruct n es) = VMap (update_all ((''__type'', VStr n) # norm_entries C False es) [])"
| "norm C (VEnum n var ha xs hm es) =
     VMap (update_all
       ([(''__enum'', VStr n), (''__variant'', VStr var)] @
        (if ha \<and> xs \<noteq> [] then [(''__data'', VArray (norm_list C xs))] else []) @
        (if hm \<and> es \<noteq> [] then [(''__fields'', VMap (update_all (norm_entries C False es) []))] else [])) [])"
| "norm C (VModule es) = VMap (update_all (norm_entries C True es) [])"
| "norm C (VDuration n) = VNull"
| "norm C (VFunc n) = VNull"
| "norm C VNative = VNull"
| "norm C (VOther t r) = VNull"
| "norm C v = v"
| "norm_list C [] = []"
| "norm_list C (v # vs) = norm C v # norm_list C vs"
| "norm_entries C skip [] = []"
| "norm_entries C skip ((k, v) # es) =
     (if skip \<and> is_callable v then norm_entries C skip es else (k, norm C v) # norm_entries C skip es)"

text \<open>An upper bound on the bytes of a value, and its nesting depth.\<close>

fun wsize :: "value_t \<Rightarrow> nat"
  and wsize_list :: "value_t list \<Rightarrow> nat"
  and wsize_entries :: "(string \<times> value_t) list \<Rightarrow> nat"
where
  "wsize (VBig b) = 6 + length (bigint_to_str b 10)"
| "wsize (VStr s) = 5 + length s"
| "wsize (VRegex s) = 6 + length s"
| "wsize (VArray xs) = 5 + wsize_list xs"
| "wsize (VTuple xs) = 11 + wsize_list xs"
| "wsize (VMap es) = 5 + wsize_entries es"
| "wsize (VRange s e st inc) = 42"
| "wsize (VStruct n es) = 30 + length n + wsize_entries es"
| "wsize (VEnum n var ha xs hm es) = 90 + length n + length var + wsize_list xs + wsize_entries es"
| "wsize (VModule es) = 5 + wsize_entries es"
| "wsize v = 9"
| "wsize_list [] = 0"
| "wsize_list (v # vs) = wsize v + wsize_list vs"
| "wsize_entries [] = 0"
| "wsize_entries ((k, v) # es) = 5 + length k + wsize v + wsize_entries es"

fun height :: "value_t \<Rightarrow> nat"
  and height_list :: "value_t list \<Rightarrow> nat"
  and height_entries :: "(string \<times> value_t) list \<Rightarrow> nat"
where
  "height (VArray xs) = height_list xs"
| "height (VTuple xs) = height_list xs"
| "height (VMap es) = height_entries es"
| "height (VStruct n es) = height_entries es"
| "height (VEnum n var ha xs hm es) = max (height_list xs) (height_entries es)"
| "height (VModule es) = height_entries es"
| "height v = 0"
| "height_list [] = 0"
| "height_list (v # vs) = max (Suc (height v)) (height_list vs)"
| "height_entries [] = 0"
| "height_entries ((k, v) # es) = max (Suc (height v)) (height_entries es)"

text \<open>Integers in range and strings without NUL: what every value the runtime builds satisfies.\<close>

fun clean :: "value_t \<Rightarrow> bool"
  and clean_list :: "value_t list \<Rightarrow> bool"
  and clean_entries :: "(string \<times> value_t) list \<Rightarrow> bool"
where
  "clean (VInt i) = in_i64 i"
| "clean (VStr s) = c_str s"
| "clean (VRegex s) = c_str s"
| "clean (VArray xs) = clean_list xs"
| "clean (VTuple xs) = clean_list xs"
| "clean (VMap es) = clean_entries es"
| "clean (VRange s e st inc) = (in_i64 s \<and> in_i64 e \<and> in_i64 st \<and> in_i64 inc)"
| "clean (VStruct n es) = (c_str n \<and> clean_entries es)"
| "clean (VEnum n var ha xs hm es) = (c_str n \<and> c_str var \<and> clean_list xs \<and> clean_entries es)"
| "clean (VModule es) = clean_entries es"
| "clean v = True"
| "clean_list [] = True"
| "clean_list (v # vs) = (clean v \<and> clean_list vs)"
| "clean_entries [] = True"
| "clean_entries ((k, v) # es) = (c_str k \<and> clean v \<and> clean_entries es)"

section \<open>The encoder writes what the decoder reads\<close>

definition packs :: "fconv \<Rightarrow> libc_float \<Rightarrow> value_t \<Rightarrow> nat \<Rightarrow> bool" where
  "packs C L v d \<longleftrightarrow>
     (\<forall>b. \<exists>b' bs. mp_pack_value C b v d = (b', True) \<and> bdata b' = bdata b @ bs \<and>
        length bs \<le> wsize v \<and> decodes C L bs (norm C v))"

lemma packsD:
  "packs C L v d \<Longrightarrow> \<exists>b' bs. mp_pack_value C b v d = (b', True) \<and> bdata b' = bdata b @ bs \<and>
     length bs \<le> wsize v \<and> decodes C L bs (norm C v)"
  by (simp add: packs_def)

lemma packs_list:
  "\<forall>x \<in> set xs. packs C L x d \<Longrightarrow>
     \<exists>b' bss. pack_list C b xs d = (b', True) \<and> pack_list_all C b xs d = b' \<and> bdata b' = bdata b @ concat bss \<and>
       list_all2 (decodes C L) bss (norm_list C xs) \<and> length (concat bss) \<le> wsize_list xs"
proof (induction xs arbitrary: b)
  case (Cons x xs)
  obtain b1 bs where b1: "mp_pack_value C b x d = (b1, True)" "bdata b1 = bdata b @ bs" "length bs \<le> wsize x"
      "decodes C L bs (norm C x)"
    using packsD [of C L x d b] Cons.prems by auto
  obtain b' bss where "pack_list C b1 xs d = (b', True)" "pack_list_all C b1 xs d = b'"
      "bdata b' = bdata b1 @ concat bss" "list_all2 (decodes C L) bss (norm_list C xs)"
      "length (concat bss) \<le> wsize_list xs"
    using Cons.IH [of b1] Cons.prems by auto
  then show ?case using b1 by (intro exI [of _ b'] exI [of _ "bs # bss"]) simp
qed simp

lemma str_head_length: "length (str_head n) \<le> 5"
  by (simp add: counted_def Let_def)

lemma entry_decodes_pair: "entry_decodes C L (a, c) (k, v) \<longleftrightarrow> decodes C L a (VStr k) \<and> decodes C L c v"
  by (simp add: entry_decodes_def)

lemma packs_fields:
  "\<lbrakk>\<forall>(k, v) \<in> set es. c_str k \<and> length k < B32 \<and> packs C L v d\<rbrakk> \<Longrightarrow>
     \<exists>b' bbs. pack_fields_all C b skip es d = b' \<and> (\<not> skip \<longrightarrow> pack_fields C b es d = (b', True)) \<and>
       bdata b' = bdata b @ entry_bytes bbs \<and>
       list_all2 (entry_decodes C L) bbs (norm_entries C skip es) \<and> length (entry_bytes bbs) \<le> wsize_entries es"
proof (induction es arbitrary: b)
  case Nil
  then show ?case by (simp add: entry_bytes_def)
next
  case (Cons kv es)
  obtain k v where kv: "kv = (k, v)" by fastforce
  show ?case
  proof (cases "skip \<and> is_callable v")
    case True
    then show ?thesis using Cons.IH [of b] Cons.prems kv by auto
  next
    case False
    have k: "c_str k" "length k < B32" and v: "packs C L v d" using Cons.prems kv by auto
    let ?kb = "str_head (length k) @ bytes_of k"
    have kd: "decodes C L ?kb (VStr k)"
      using decodes_str [of "bytes_of k" C L] k by (simp add: c_string_bytes)
    have kw: "bdata (mp_pack_str b (bytes_of k)) = bdata b @ ?kb"
      using bdata_pack_str [of "bytes_of k" b] k by simp
    obtain b1 bs where b1: "mp_pack_value C (mp_pack_str b (bytes_of k)) v d = (b1, True)"
        "bdata b1 = bdata b @ ?kb @ bs" "length bs \<le> wsize v" "decodes C L bs (norm C v)"
      using v kw unfolding packs_def by (metis append.assoc)
    obtain b' bbs where r: "pack_fields_all C b1 skip es d = b'" "\<not> skip \<longrightarrow> pack_fields C b1 es d = (b', True)"
        "bdata b' = bdata b1 @ entry_bytes bbs"
        "list_all2 (entry_decodes C L) bbs (norm_entries C skip es)" "length (entry_bytes bbs) \<le> wsize_entries es"
      using Cons.IH [of b1] Cons.prems kv by auto
    show ?thesis
      using r b1 kd False kv str_head_length [of "length k"]
      by (intro exI [of _ b'] exI [of _ "(?kb, bs) # bbs"]) (auto simp: entry_bytes_def entry_decodes_pair)
  qed
qed

lemma int_bytes_length: "length (int_bytes v) \<le> 9"
  by (simp add: int_bytes_def uint_bytes_def)

lemma wsize_pos: "1 \<le> wsize v"
  by (cases v) simp_all

lemma wsize_list_length: "length xs \<le> wsize_list xs"
proof (induction xs)
  case (Cons x xs)
  then show ?case using wsize_pos [of x] by simp
qed simp

lemma wsize_entries_length: "length es \<le> wsize_entries es"
  by (induction es) (auto simp: split_paired_all)

lemma norm_list_length [simp]: "length (norm_list C xs) = length xs"
  by (induction xs) simp_all

lemma norm_entries_length:
  "length (norm_entries C False es) = length es"
  "length (norm_entries C True es) = length (filter (\<lambda>(k, x). \<not> is_callable x) es)"
  by (induction es) auto

lemma heads_length: "length (arr_head n) \<le> 5" "length (map_head n) \<le> 5" "length (ext_head n) \<le> 5"
  by (simp_all add: counted_def ext_head_def Let_def)

text \<open>Members of a list or of the entries inherit the bounds.\<close>

lemma list_members:
  "\<lbrakk>clean_list xs; wsize_list xs < B32; height_list xs + d \<le> 128; x \<in> set xs\<rbrakk> \<Longrightarrow>
     clean x \<and> wsize x < B32 \<and> height x + Suc d \<le> 128"
  by (induction xs) auto

lemma entry_members:
  "\<lbrakk>clean_entries es; wsize_entries es < B32; height_entries es + d \<le> 128; (k, x) \<in> set es\<rbrakk> \<Longrightarrow>
     c_str k \<and> length k < B32 \<and> clean x \<and> wsize x < B32 \<and> height x + Suc d \<le> 128"
  by (induction es) auto

lemma no_callables [simp]: "length (filter (\<lambda>(k, x). \<not> is_callable x) es) \<le> length es"
  by (rule length_filter_le)

lemma word_plus_one: "(word_of_int (int n + 1) :: u32) = word_of_int (int (Suc n))"
  by simp

text \<open>The cases of compound values, from their members.\<close>

lemma packs_array:
  assumes "\<forall>x \<in> set xs. packs C L x (Suc d)" and "wsize (VArray xs) < B32" and "d \<le> 128"
  shows "packs C L (VArray xs) d"
  unfolding packs_def
proof
  fix b
  have n: "length xs < B32" using assms(2) wsize_list_length [of xs] by simp
  obtain b' bss where p: "pack_list C (mp_pack_array_header b (u32_len xs)) xs (Suc d) = (b', True)"
      "bdata b' = bdata (mp_pack_array_header b (u32_len xs)) @ concat bss"
      "list_all2 (decodes C L) bss (norm_list C xs)" "length (concat bss) \<le> wsize_list xs"
    using packs_list [OF assms(1)] by metis
  have "decodes C L (arr_head (length xs) @ concat bss) (VArray (norm_list C xs))"
    using decodes_array [OF p(3)] n by simp
  then show "\<exists>b' bs. mp_pack_value C b (VArray xs) d = (b', True) \<and> bdata b' = bdata b @ bs \<and>
      length bs \<le> wsize (VArray xs) \<and> decodes C L bs (norm C (VArray xs))"
    using p(1,2,4) bdata_headers(2) [OF n, of b] heads_length(1) [of "length xs"] assms(3)
    by (intro exI [of _ b'] exI [of _ "arr_head (length xs) @ concat bss"])
      (simp add: mp_pack_value.simps u32_len_def)
qed

lemma packs_tuple:
  assumes "\<forall>x \<in> set xs. packs C L x (Suc d)" and "wsize (VTuple xs) < B32" and "d \<le> 128"
  shows "packs C L (VTuple xs) d"
  unfolding packs_def
proof
  fix b
  have n: "length xs < B32" using assms(2) wsize_list_length [of xs] by simp
  obtain i bss where p: "pack_list C (mp_pack_array_header mp_buf_init (u32_len xs)) xs (Suc d) = (i, True)"
      "bdata i = bdata (mp_pack_array_header mp_buf_init (u32_len xs)) @ concat bss"
      "list_all2 (decodes C L) bss (norm_list C xs)" "length (concat bss) \<le> wsize_list xs"
    using packs_list [OF assms(1)] by metis
  let ?s = "arr_head (length xs) @ concat bss"
  have bi: "bdata i = ?s" using p(2) bdata_headers(2) [OF n, of mp_buf_init] by (simp add: u32_len_def mp_buf_init_def)
  have dec: "decodes C L ?s (VArray (norm_list C xs))"
    using decodes_array [OF p(3)] n by simp
  have s: "length ?s \<le> 5 + wsize_list xs" "length ?s < B32"
    using p(4) heads_length(1) [of "length xs"] assms(2) by simp_all
  have "ext_value (mp_unpack_value C L f) 5 ?s = Some (VTuple (norm_list C xs))" if "length ?s \<le> f" for f
    using decodesD [OF dec that, of "mp_reader_init ?s" "[]"] by (auto simp: ext_value_def unpack_tuple_def)
  then have "decodes C L (ext_head (length ?s) @ 5 # ?s) (VTuple (norm_list C xs))"
    by (intro decodes_ext s)
  then show "\<exists>b' bs. mp_pack_value C b (VTuple xs) d = (b', True) \<and> bdata b' = bdata b @ bs \<and>
      length bs \<le> wsize (VTuple xs) \<and> decodes C L bs (norm C (VTuple xs))"
    using p(1) bi bdata_pack_ext [OF s(2), of b 5] s(1) heads_length(3) [of "length ?s"] assms(3)
    by (intro exI [of _ "mp_pack_ext b 5 ?s"] exI [of _ "ext_head (length ?s) @ 5 # ?s"])
      (simp add: mp_pack_value.simps)
qed

lemma packs_map:
  assumes "\<forall>(k, v) \<in> set es. c_str k \<and> length k < B32 \<and> packs C L v (Suc d)"
    and "wsize_entries es + 5 < B32" and "d \<le> 128"
  shows "packs C L (VMap es) d" and "packs C L (VModule es) d"
proof -
  have n: "length es < B32" using assms(2) wsize_entries_length [of es] by simp
  show "packs C L (VMap es) d"
    unfolding packs_def
  proof
    fix b
    obtain b' bbs where p: "pack_fields C (mp_pack_map_header b (u32_len es)) es (Suc d) = (b', True)"
        "bdata b' = bdata (mp_pack_map_header b (u32_len es)) @ entry_bytes bbs"
        "list_all2 (entry_decodes C L) bbs (norm_entries C False es)" "length (entry_bytes bbs) \<le> wsize_entries es"
      using packs_fields [OF assms(1), of "mp_pack_map_header b (u32_len es)" False] by blast
    have "decodes C L (map_head (length es) @ entry_bytes bbs) (norm C (VMap es))"
      using decodes_map [OF p(3)] n by (simp add: norm_entries_length)
    then show "\<exists>b' bs. mp_pack_value C b (VMap es) d = (b', True) \<and> bdata b' = bdata b @ bs \<and>
        length bs \<le> wsize (VMap es) \<and> decodes C L bs (norm C (VMap es))"
      using p(1,2,4) bdata_headers(3) [OF n, of b] heads_length(2) [of "length es"] assms(3)
      by (intro exI [of _ b'] exI [of _ "map_head (length es) @ entry_bytes bbs"])
        (simp add: mp_pack_value.simps u32_len_def)
  qed
  let ?kept = "filter (\<lambda>(k, x). \<not> is_callable x) es"
  have m: "length ?kept < B32" using n no_callables [of es] by linarith
  show "packs C L (VModule es) d"
    unfolding packs_def
  proof
    fix b
    obtain b' bbs where p: "pack_fields_all C (mp_pack_map_header b (u32_len ?kept)) True es (Suc d) = b'"
        "bdata b' = bdata (mp_pack_map_header b (u32_len ?kept)) @ entry_bytes bbs"
        "list_all2 (entry_decodes C L) bbs (norm_entries C True es)" "length (entry_bytes bbs) \<le> wsize_entries es"
      using packs_fields [OF assms(1), of "mp_pack_map_header b (u32_len ?kept)" True] by blast
    have "decodes C L (map_head (length ?kept) @ entry_bytes bbs) (norm C (VModule es))"
      using decodes_map [OF p(3)] m by (simp add: norm_entries_length)
    then show "\<exists>b' bs. mp_pack_value C b (VModule es) d = (b', True) \<and> bdata b' = bdata b @ bs \<and>
        length bs \<le> wsize (VModule es) \<and> decodes C L bs (norm C (VModule es))"
      using p(1,2,4) bdata_headers(3) [OF m, of b] heads_length(2) [of "length ?kept"] assms(3)
      by (intro exI [of _ b'] exI [of _ "map_head (length ?kept) @ entry_bytes bbs"])
        (simp add: mp_pack_value.simps u32_len_def Let_def)
  qed
qed

lemma decodes_text: "c_str s \<Longrightarrow> length s < B32 \<Longrightarrow> decodes C L (str_head (length s) @ bytes_of s) (VStr s)"
  using decodes_str [of "bytes_of s" C L] by (simp add: c_string_bytes)

lemma bdata_pack_text: "length s < B32 \<Longrightarrow> bdata (mp_pack_str b (bytes_of s)) = bdata b @ str_head (length s) @ bytes_of s"
  using bdata_pack_str [of "bytes_of s" b] by simp

abbreviation "text_bytes s \<equiv> str_head (length s) @ bytes_of s"

lemma text_bytes_length: "length (text_bytes s) \<le> 5 + length s"
  using str_head_length [of "length s"] by simp

lemma key_c_str [simp]: "c_str ''__type''" "c_str ''__enum''" "c_str ''__variant''" "c_str ''__data''" "c_str ''__fields''"
  by (simp_all add: c_str_def)

lemma packs_struct:
  assumes "\<forall>(k, v) \<in> set es. c_str k \<and> length k < B32 \<and> packs C L v (Suc d)"
    and "wsize (VStruct n es) < B32" and "c_str n" and "d \<le> 128"
  shows "packs C L (VStruct n es) d"
  unfolding packs_def
proof
  fix b
  have ln: "length n < B32" "length es + 1 < B32" using assms(2) wsize_entries_length [of es] by simp_all
  define b3 where "b3 = mp_pack_str (mp_pack_str (mp_pack_map_header b (word_of_int (int (length es) + 1)))
    (bytes_of ''__type'')) (bytes_of n)"
  have b3: "bdata b3 = bdata b @ map_head (length es + 1) @ text_bytes ''__type'' @ text_bytes n"
    using bdata_headers(3) [OF ln(2), of b] ln(1) by (simp add: b3_def bdata_pack_text add.commute)
  obtain b' bbs where p: "pack_fields_all C b3 False es (Suc d) = b'" "bdata b' = bdata b3 @ entry_bytes bbs"
      "list_all2 (entry_decodes C L) bbs (norm_entries C False es)" "length (entry_bytes bbs) \<le> wsize_entries es"
    using packs_fields [OF assms(1), of b3 False] by blast
  let ?bbs = "(text_bytes ''__type'', text_bytes n) # bbs"
  have "list_all2 (entry_decodes C L) ?bbs ((''__type'', VStr n) # norm_entries C False es)"
    using p(3) assms(3) ln(1) decodes_text [of "''__type''" C L] by (simp add: entry_decodes_pair decodes_text)
  from decodes_map [OF this] have "decodes C L (map_head (length es + 1) @ entry_bytes ?bbs) (norm C (VStruct n es))"
    using ln(2) by (simp add: norm_entries_length del: append.simps)
  moreover have "length (map_head (length es + 1) @ entry_bytes ?bbs) \<le> wsize (VStruct n es)"
    using p(4) heads_length(2) [of "length es + 1"] text_bytes_length [of n] text_bytes_length [of "''__type''"]
    by (simp add: entry_bytes_def)
  moreover have "mp_pack_value C b (VStruct n es) d = (b', True)"
    using p(1) assms(4) by (simp add: mp_pack_value.simps Let_def b3_def)
  moreover have "bdata b' = bdata b @ map_head (length es + 1) @ entry_bytes ?bbs"
    using p(2) b3 by (simp add: entry_bytes_def)
  ultimately show "\<exists>b' bs. mp_pack_value C b (VStruct n es) d = (b', True) \<and> bdata b' = bdata b @ bs \<and>
      length bs \<le> wsize (VStruct n es) \<and> decodes C L bs (norm C (VStruct n es))"
    by blast
qed

text \<open>The optional payload entries of an enum value.\<close>

lemma packs_enum_data:
  assumes "\<forall>x \<in> set xs. packs C L x (Suc d)" and "length xs < B32"
  shows "\<exists>b' bs. pack_list_all C (mp_pack_array_header (mp_pack_str b (bytes_of ''__data'')) (u32_len xs)) xs (Suc d) = b' \<and>
    bdata b' = bdata b @ text_bytes ''__data'' @ bs \<and> decodes C L bs (VArray (norm_list C xs)) \<and>
    length bs \<le> 5 + wsize_list xs"
proof -
  let ?b = "mp_pack_array_header (mp_pack_str b (bytes_of ''__data'')) (u32_len xs)"
  obtain b' bss where p: "pack_list_all C ?b xs (Suc d) = b'" "bdata b' = bdata ?b @ concat bss"
      "list_all2 (decodes C L) bss (norm_list C xs)" "length (concat bss) \<le> wsize_list xs"
    using packs_list [OF assms(1)] by metis
  have "bdata ?b = bdata b @ text_bytes ''__data'' @ arr_head (length xs)"
    using bdata_headers(2) [OF assms(2)] by (simp add: u32_len_def bdata_pack_text)
  then show ?thesis
    using p decodes_array [OF p(3)] assms(2) heads_length(1) [of "length xs"]
    by (intro exI [of _ b'] exI [of _ "arr_head (length xs) @ concat bss"]) simp
qed

lemma packs_enum_fields:
  assumes "\<forall>(k, v) \<in> set es. c_str k \<and> length k < B32 \<and> packs C L v (Suc d)" and "length es < B32"
  shows "\<exists>b' bs. pack_fields_all C (mp_pack_map_header (mp_pack_str b (bytes_of ''__fields'')) (u32_len es)) False es (Suc d) = b' \<and>
    bdata b' = bdata b @ text_bytes ''__fields'' @ bs \<and>
    decodes C L bs (VMap (update_all (norm_entries C False es) [])) \<and> length bs \<le> 5 + wsize_entries es"
proof -
  let ?b = "mp_pack_map_header (mp_pack_str b (bytes_of ''__fields'')) (u32_len es)"
  obtain b' bbs where p: "pack_fields_all C ?b False es (Suc d) = b'" "bdata b' = bdata ?b @ entry_bytes bbs"
      "list_all2 (entry_decodes C L) bbs (norm_entries C False es)" "length (entry_bytes bbs) \<le> wsize_entries es"
    using packs_fields [OF assms(1), of ?b False] by blast
  have "bdata ?b = bdata b @ text_bytes ''__fields'' @ map_head (length es)"
    using bdata_headers(3) [OF assms(2)] by (simp add: u32_len_def bdata_pack_text)
  then show ?thesis
    using p decodes_map [OF p(3)] assms(2) heads_length(2) [of "length es"]
    by (intro exI [of _ b'] exI [of _ "map_head (length es) @ entry_bytes bbs"]) (simp add: norm_entries_length)
qed

lemma packs_enum:
  assumes xs: "\<forall>x \<in> set xs. packs C L x (Suc d)"
    and es: "\<forall>(k, v) \<in> set es. c_str k \<and> length k < B32 \<and> packs C L v (Suc d)"
    and w: "wsize (VEnum n var ha xs hm es) < B32" and c: "c_str n" "c_str var" and d: "d \<le> 128"
  shows "packs C L (VEnum n var ha xs hm es) d"
  unfolding packs_def
proof
  fix b
  let ?v = "VEnum n var ha xs hm es"
  have ln: "length n < B32" "length var < B32" "length xs < B32" "length es < B32"
    using w wsize_entries_length [of es] wsize_list_length [of xs] by simp_all
  let ?data = "ha \<and> xs \<noteq> []" and ?flds = "hm \<and> es \<noteq> []"
  define total where "total = 2 + (if ?data then 1 else 0) + (if ?flds then 1 else 0 :: nat)"
  have tot: "(2 + (if ?data then 1 else 0) + (if ?flds then 1 else 0) :: u32) = word_of_int (int total)"
    by (simp add: total_def)
  define b3 where "b3 = mp_pack_str (mp_pack_str (mp_pack_str (mp_pack_str (mp_pack_map_header b (word_of_int (int total)))
    (bytes_of ''__enum'')) (bytes_of n)) (bytes_of ''__variant'')) (bytes_of var)"
  have b3: "bdata b3 = bdata b @ map_head total @ text_bytes ''__enum'' @ text_bytes n @
      text_bytes ''__variant'' @ text_bytes var"
    using bdata_headers(3) [of total b] ln by (simp add: b3_def bdata_pack_text total_def)
  define b4 where "b4 = (if ?data then pack_list_all C
      (mp_pack_array_header (mp_pack_str b3 (bytes_of ''__data'')) (u32_len xs)) xs (Suc d) else b3)"
  define b5 where "b5 = (if ?flds then pack_fields_all C
      (mp_pack_map_header (mp_pack_str b4 (bytes_of ''__fields'')) (u32_len es)) False es (Suc d) else b4)"
  have run: "mp_pack_value C b ?v d = (b5, True)"
    unfolding b5_def b4_def b3_def tot [symmetric] using d by (simp add: mp_pack_value.simps Let_def)
  obtain dbs where dbs: "bdata b4 = bdata b3 @ entry_bytes dbs"
      "list_all2 (entry_decodes C L) dbs (if ?data then [(''__data'', VArray (norm_list C xs))] else [])"
      "length (entry_bytes dbs) \<le> 16 + wsize_list xs"
  proof (cases ?data)
    case True
    then obtain bs where "bdata b4 = bdata b3 @ text_bytes ''__data'' @ bs" "decodes C L bs (VArray (norm_list C xs))"
        "length bs \<le> 5 + wsize_list xs"
      using packs_enum_data [OF xs ln(3), of b3] by (auto simp: b4_def)
    then show ?thesis using that [of "[(text_bytes ''__data'', bs)]"] True text_bytes_length [of "''__data''"]
        decodes_text [of "''__data''" C L]
      by (simp add: entry_bytes_def entry_decodes_pair)
  next
    case False
    have "b4 = b3" unfolding b4_def using False by (rule if_not_P)
    then show ?thesis using that [of "[]"] False by (auto simp: entry_bytes_def)
  qed
  obtain fbs where fbs: "bdata b5 = bdata b4 @ entry_bytes fbs"
      "list_all2 (entry_decodes C L) fbs
        (if ?flds then [(''__fields'', VMap (update_all (norm_entries C False es) []))] else [])"
      "length (entry_bytes fbs) \<le> 18 + wsize_entries es"
  proof (cases ?flds)
    case True
    then obtain bs where "bdata b5 = bdata b4 @ text_bytes ''__fields'' @ bs"
        "decodes C L bs (VMap (update_all (norm_entries C False es) []))" "length bs \<le> 5 + wsize_entries es"
      using packs_enum_fields [OF es ln(4), of b4] by (auto simp: b5_def)
    then show ?thesis using that [of "[(text_bytes ''__fields'', bs)]"] True text_bytes_length [of "''__fields''"]
        decodes_text [of "''__fields''" C L]
      by (simp add: entry_bytes_def entry_decodes_pair)
  next
    case False
    have "b5 = b4" unfolding b5_def using False by (rule if_not_P)
    then show ?thesis using that [of "[]"] False by (auto simp: entry_bytes_def)
  qed
  let ?kvs = "[(''__enum'', VStr n), (''__variant'', VStr var)] @
        (if ?data then [(''__data'', VArray (norm_list C xs))] else []) @
        (if ?flds then [(''__fields'', VMap (update_all (norm_entries C False es) []))] else [])"
  let ?bbs = "[(text_bytes ''__enum'', text_bytes n), (text_bytes ''__variant'', text_bytes var)] @ dbs @ fbs"
  have "list_all2 (entry_decodes C L) ?bbs ?kvs"
    using dbs(2) fbs(2) c ln decodes_text [of "''__enum''" C L] decodes_text [of "''__variant''" C L]
    by (intro list_all2_appendI) (simp_all add: entry_decodes_pair decodes_text)
  then have "decodes C L (map_head (length ?kvs) @ entry_bytes ?bbs) (norm C ?v)"
    unfolding norm.simps by (intro decodes_map) (simp_all add: total_def)
  moreover have "length ?kvs = total" by (simp add: total_def)
  moreover have "length (map_head total @ entry_bytes ?bbs) \<le> wsize ?v"
    using dbs(3) fbs(3) heads_length(2) [of total] text_bytes_length [of n] text_bytes_length [of var]
      text_bytes_length [of "''__enum''"] text_bytes_length [of "''__variant''"]
    by (simp add: entry_bytes_def)
  moreover have "bdata b5 = bdata b @ map_head total @ entry_bytes ?bbs"
    using b3 dbs(1) fbs(1) by (simp add: entry_bytes_def)
  ultimately show "\<exists>b' bs. mp_pack_value C b ?v d = (b', True) \<and> bdata b' = bdata b @ bs \<and>
      length bs \<le> wsize ?v \<and> decodes C L bs (norm C ?v)"
    using run by metis
qed

lemma packs_scalar:
  assumes "\<And>b. mp_pack_value C b v d = (f b, True)" and "\<And>b. bdata (f b) = bdata b @ bs"
    and "length bs \<le> wsize v" and "decodes C L bs (norm C v)"
  shows "packs C L v d"
  using assms unfolding packs_def by blast

lemma packs_float: "d \<le> 128 \<Longrightarrow> packs C L (VFloat f) d"
proof -
  assume d: "d \<le> 128"
  let ?n = "fc_narrow C f"
  show ?thesis
  proof (cases "fbits_eq (fc_widen C ?n) f")
    case True
    then have "\<not> fbits_nan f" by (simp add: fbits_eq_def)
    then show ?thesis
      using True d decodes_word(9) [of C L ?n]
      by (intro packs_scalar [where f = "\<lambda>b. mp_pack_float C b f" and bs = "0xca # be32 ?n"])
        (simp_all add: mp_pack_value.simps mp_pack_float_def wire32.wr_bytes)
  next
    case False
    then show ?thesis
      using d decodes_word(10) [of C L f]
      by (intro packs_scalar [where f = "\<lambda>b. mp_pack_float C b f" and bs = "0xcb # be64 f"])
        (simp_all add: mp_pack_value.simps mp_pack_float_def wire64.wr_bytes)
  qed
qed

lemma packs_range:
  assumes "clean (VRange s e st inc)" and "d \<le> 128"
  shows "packs C L (VRange s e st inc) d"
proof -
  let ?bs = "int_bytes s @ int_bytes e @ int_bytes st @ int_bytes inc"
  have len: "length ?bs \<le> 36"
    using int_bytes_length [of s] int_bytes_length [of e] int_bytes_length [of st] int_bytes_length [of inc] by simp
  have i: "in_i64 s" "in_i64 e" "in_i64 st" "in_i64 inc" using assms(1) by simp_all
  have "ext_value (mp_unpack_value C L f) 4 ?bs = Some (norm C (VRange s e st inc))" if f: "length ?bs \<le> f" for f
  proof -
    obtain r1 where r1: "mp_unpack_value C L f (mp_reader_init ?bs) = Some (VInt s, r1)"
        "sees r1 (int_bytes e @ int_bytes st @ int_bytes inc)"
      using decodesD [OF decodes_int [OF i(1), of C L], of f "mp_reader_init ?bs"] f by auto
    obtain r2 where r2: "mp_unpack_value C L f r1 = Some (VInt e, r2)" "sees r2 (int_bytes st @ int_bytes inc)"
      using decodesD [OF decodes_int [OF i(2), of C L] _ r1(2), of f] f by auto
    obtain r3 where r3: "mp_unpack_value C L f r2 = Some (VInt st, r3)" "sees r3 (int_bytes inc @ [])"
      using decodesD [OF decodes_int [OF i(3), of C L] _ r2(2), of f] f by auto
    obtain r4 where "mp_unpack_value C L f r3 = Some (VInt inc, r4)"
      using decodesD [OF decodes_int [OF i(4), of C L] _ r3(2), of f] f by auto
    then show ?thesis using r1(1) r2(1) r3(1) by (simp add: ext_value_def unpack_range_def int_or_def)
  qed
  then have "decodes C L (ext_head (length ?bs) @ 4 # ?bs) (norm C (VRange s e st inc))"
    using len by (intro decodes_ext) simp_all
  then show ?thesis
    using len heads_length(3) [of "length ?bs"] assms(2) bdata_pack_ext [of ?bs _ 4]
    by (intro packs_scalar [where f = "\<lambda>b. mp_pack_ext b 4 ?bs" and bs = "ext_head (length ?bs) @ 4 # ?bs"])
      (simp_all add: mp_pack_value.simps Let_def bdata_pack_int mp_buf_init_def)
qed

lemma packs_ext_text:
  assumes "length s < B32" and "\<And>b. mp_pack_value C b v d = (mp_pack_ext b ty s, True)"
    and "\<And>f. ext_value (mp_unpack_value C L f) ty s = Some (norm C v)" and "6 + length s \<le> wsize v"
  shows "packs C L v d"
  using assms heads_length(3) [of "length s"]
  by (intro packs_scalar [where f = "\<lambda>b. mp_pack_ext b ty s" and bs = "ext_head (length s) @ ty # s"])
    (simp_all add: bdata_pack_ext decodes_ext)

lemma packs_value:
  "clean v \<Longrightarrow> wsize v < B32 \<Longrightarrow> height v + d \<le> 128 \<Longrightarrow> packs C L v d"
proof (induction v arbitrary: d)
  case (VInt i)
  then show ?case
    using decodes_int int_bytes_length [of i] by (intro packs_scalar [OF _ bdata_pack_int]) (auto simp: mp_pack_value.simps)
next
  case (VStr s)
  then show ?case using text_bytes_length [of s]
    by (intro packs_scalar [where bs = "text_bytes s" and f = "\<lambda>b. mp_pack_str b (bytes_of s)"])
      (auto simp: mp_pack_value.simps bdata_pack_text decodes_text)
next
  case (VChar s p)
  then show ?case using decodes_str [of "[ucast p]" C L] str_head_length [of 1]
    by (intro packs_scalar [where bs = "str_head 1 @ [ucast p]" and f = "\<lambda>b. mp_pack_str b [ucast p]"])
      (auto simp: mp_pack_value.simps bdata_pack_str)
next
  case (VRegex s)
  then show ?case
    by (intro packs_ext_text [where ty = 1 and s = "bytes_of s"])
      (auto simp: mp_pack_value.simps ext_value_def c_string_bytes)
next
  case (VBig n)
  then show ?case
    by (intro packs_ext_text [where ty = 3 and s = "bytes_of (bigint_to_str n 10)"])
      (auto simp: mp_pack_value.simps ext_value_def)
next
  case (VArray xs)
  then show ?case using list_members [of xs d] by (intro packs_array) auto
next
  case (VTuple xs)
  then show ?case using list_members [of xs d] by (intro packs_tuple) auto
next
  case (VMap es)
  then show ?case using entry_members [of es d] by (intro packs_map) (auto intro: snds.intros)
next
  case (VModule es)
  then show ?case using entry_members [of es d] by (intro packs_map) (auto intro: snds.intros)
next
  case (VStruct n es)
  then show ?case using entry_members [of es d] by (intro packs_struct) (auto intro: snds.intros)
next
  case (VEnum n var ha xs hm es)
  then show ?case using entry_members [of es d] list_members [of xs d] by (intro packs_enum) (auto intro: snds.intros)
next
  case (VRange s e st inc)
  then show ?case by (intro packs_range) simp_all
next
  case (VFloat f)
  then show ?case by (intro packs_float) simp
next
  case (VBool x)
  then show ?case
    by (intro packs_scalar [where f = "\<lambda>b. mp_pack_bool b x" and bs = "[if x then 0xc3 else 0xc2]"])
      (simp_all add: mp_pack_value.simps mp_pack_bool_def decodes_const)
qed (intro packs_scalar [where f = mp_pack_nil and bs = "[0xc0]"],
     simp_all add: mp_pack_value.simps mp_pack_nil_def decodes_const)+

end
