(* ===== verification/XMsgPackTotal.thy ===== *)
theory XMsgPackTotal
  imports XMsgPackProofs
begin

text \<open>
  The decoder on arbitrary bytes: it always returns, never reads past its data and only moves
  forward. One unit of fuel more than the bytes left is enough, because every nested call
  comes after the tag byte of its caller.
\<close>

definition adv :: "reader \<Rightarrow> reader \<Rightarrow> bool" where
  "adv r r' \<longleftrightarrow> rdata r' = rdata r \<and> rpos r \<le> rpos r' \<and> rpos r' \<le> length (rdata r)"

definition good :: "reader \<Rightarrow> ('a \<times> reader) option \<Rightarrow> bool" where
  "good r res \<longleftrightarrow> (\<exists>v r'. res = Some (v, r') \<and> adv r r')"

definition left :: "reader \<Rightarrow> nat" where
  "left r = length (rdata r) - rpos r"

definition total_upto :: "nat \<Rightarrow> unpacker \<Rightarrow> bool" where
  "total_upto n un \<longleftrightarrow> (\<forall>r. rpos r \<le> length (rdata r) \<longrightarrow> left r \<le> n \<longrightarrow> good r (un r))"

lemma adv_refl: "rpos r \<le> length (rdata r) \<Longrightarrow> adv r r"
  by (simp add: adv_def)

lemma adv_trans: "adv r s \<Longrightarrow> adv s t \<Longrightarrow> adv r t"
  by (simp add: adv_def)

lemma adv_left: "adv r s \<Longrightarrow> left s \<le> left r" "adv r s \<Longrightarrow> rpos s \<le> length (rdata s)"
  by (auto simp: adv_def left_def)

lemma good_Some: "good r (Some x) \<longleftrightarrow> adv r (snd x)"
  by (cases x) (simp add: good_def)

lemma good_if: "good r a \<Longrightarrow> good r b \<Longrightarrow> good r (if c then a else b)"
  by simp

lemma good_map: "good r x \<Longrightarrow> good r (map_option (map_prod f id) x)"
  by (auto simp: good_def)

lemma total_uptoD: "total_upto n un \<Longrightarrow> adv r s \<Longrightarrow> left r \<le> n \<Longrightarrow> good s (un s)"
  unfolding total_upto_def using adv_left [of r s] by auto

lemma adv_error: "rpos r \<le> length (rdata r) \<Longrightarrow> adv r (mp_reader_set_error r m)"
  by (simp add: adv_def mp_reader_set_error_def)

lemma adv_reads:
  assumes "rpos r \<le> length (rdata r)"
  shows "adv r (snd (mp_reader_read_u8 r))" and "adv r (snd (mp_reader_read_u16 r))"
    and "adv r (snd (mp_reader_read_u32 r))" and "adv r (snd (mp_reader_read_u64 r))"
    and "adv r (snd (mp_reader_read_i8 r))" and "adv r (snd (mp_reader_read_i16 r))"
    and "adv r (snd (mp_reader_read_i32 r))" and "adv r (snd (mp_reader_read_i64 r))"
    and "adv r (snd (read_bytes r n))"
  using assms
  by (auto simp: mp_reader_read_u8_def mp_reader_read_u16_def mp_reader_read_u32_def mp_reader_read_u64_def
      mp_reader_read_i8_def mp_reader_read_i16_def mp_reader_read_i32_def mp_reader_read_i64_def read_bytes_def
      mp_reader_ensure_def mp_reader_set_error_def adv_def)

lemma adv_raw:
  assumes "rpos r \<le> length (rdata r)"
  shows "adv r (snd (mp_unpack_str_raw r n))" and "adv r (snd (mp_unpack_bin_raw r n))"
  using adv_reads(9) [OF assms, of n]
  by (auto simp: mp_unpack_str_raw_def mp_unpack_bin_raw_def split: prod.splits option.splits)

lemma read_bytes_length: "read_bytes r n = (Some bs, r') \<Longrightarrow> length bs = n \<and> length bs \<le> left r"
  by (auto simp: read_bytes_def mp_reader_ensure_def left_def split: if_splits)

lemma good_bind:
  assumes "good r x" and "\<And>v s. x = Some (v, s) \<Longrightarrow> adv r s \<Longrightarrow> good s (f (v, s))"
  shows "good r (x \<bind> f)"
proof -
  obtain v s where x: "x = Some (v, s)" "adv r s" using assms(1) by (auto simp: good_def)
  then obtain w t where "f (v, s) = Some (w, t)" "adv s t" using assms(2) by (auto simp: good_def)
  then show ?thesis using x adv_trans by (auto simp: good_def)
qed

lemma unpack_list_good:
  assumes "total_upto m un"
  shows "rpos r \<le> length (rdata r) \<Longrightarrow> left r \<le> m \<Longrightarrow> good r (unpack_list un n r)"
proof (induction n arbitrary: r)
  case 0
  then show ?case by (simp add: good_Some adv_refl)
next
  case (Suc n)
  have g: "good r (un r)" using assms Suc.prems by (simp add: total_upto_def)
  have "good s (unpack_list un n s \<bind> (\<lambda>(vs, r2). Some (v # vs, r2)))" if "adv r s" for v s
    using that adv_left [OF that] Suc.prems by (intro good_bind Suc.IH) (auto simp: good_Some adv_def)
  then have "good r (un r \<bind> (\<lambda>(v, s). unpack_list un n s \<bind> (\<lambda>(vs, r2). Some (v # vs, r2))))"
    by (intro good_bind [OF g]) simp
  then show ?case using Suc.prems by (cases "rerr r") (simp_all add: good_Some adv_refl)
qed

lemma unpack_entries_good:
  assumes "total_upto m un"
  shows "rpos r \<le> length (rdata r) \<Longrightarrow> left r \<le> m \<Longrightarrow> good r (unpack_entries L un n r es)"
proof (induction n arbitrary: r es)
  case 0
  then show ?case by (simp add: good_Some adv_refl)
next
  case (Suc n)
  have g: "good r (un r)" using assms Suc.prems by (simp add: total_upto_def)
  have "good s (un s \<bind> (\<lambda>(v, r2). unpack_entries L un n r2 (AList.update (value_str L k) v es)))" if "adv r s" for k s
  proof (rule good_bind)
    show "good s (un s)" using assms that Suc.prems(2) by (rule total_uptoD)
  next
    fix v t assume "adv s t"
    then show "good t (case (v, t) of (v, r2) \<Rightarrow> unpack_entries L un n r2 (AList.update (value_str L k) v es))"
      using adv_left [OF that] adv_left [of s t] Suc.prems by (simp add: Suc.IH)
  qed
  then have "good r (un r \<bind> (\<lambda>(k, s). un s \<bind>
      (\<lambda>(v, r2). unpack_entries L un n r2 (AList.update (value_str L k) v es))))"
    by (intro good_bind [OF g]) simp
  then show ?case using Suc.prems by (cases "rerr r") (simp_all add: good_Some adv_refl)
qed

lemma unpack_sub_defined:
  assumes "total_upto m un" and "length bs \<le> m"
  shows "unpack_range un bs \<noteq> None" and "unpack_tuple un bs \<noteq> None"
proof -
  let ?r = "mp_reader_init bs"
  have b: "adv ?r ?r" "left ?r \<le> m" using assms(2) by (simp_all add: adv_def mp_reader_init_def left_def)
  note go = total_uptoD [OF assms(1) _ b(2), unfolded good_def]
  obtain v1 r1 where 1: "un ?r = Some (v1, r1)" "adv ?r r1" using go [OF b(1)] by blast
  obtain v2 r2 where 2: "un r1 = Some (v2, r2)" "adv r1 r2" using go [OF 1(2)] by blast
  have a2: "adv ?r r2" using 1(2) 2(2) by (rule adv_trans)
  obtain v3 r3 where 3: "un r2 = Some (v3, r3)" "adv r2 r3" using go [OF a2] by blast
  have a3: "adv ?r r3" using a2 3(2) by (rule adv_trans)
  obtain v4 r4 where 4: "un r3 = Some (v4, r4)" using go [OF a3] by blast
  show "unpack_range un bs \<noteq> None" "unpack_tuple un bs \<noteq> None"
    using 1 2 3 4 by (simp_all add: unpack_range_def unpack_tuple_def)
qed

lemma ext_raw_good:
  assumes "total_upto m un" and "rpos r \<le> length (rdata r)" and "left r \<le> m"
  shows "good r (mp_unpack_ext_raw un r n)"
proof -
  obtain ty r1 where r1: "mp_reader_read_i8 r = (ty, r1)" "adv r r1"
    using adv_reads(5) [OF assms(2)] by (cases "mp_reader_read_i8 r") simp
  obtain obs r2 where r2: "read_bytes r1 n = (obs, r2)" "adv r r2"
    using adv_reads(9) [of r1 n] adv_left(2) [OF r1(2)] adv_trans [OF r1(2)] by (cases "read_bytes r1 n") simp
  show ?thesis
  proof (cases obs)
    case None
    then show ?thesis using r1 r2 by (simp add: mp_unpack_ext_raw_def good_Some)
  next
    case (Some bs)
    then have "length bs \<le> m" using read_bytes_length r2(1) adv_left(1) [OF r1(2)] assms(3) by (meson le_trans)
    then show ?thesis
      using Some r1 r2 unpack_sub_defined [OF assms(1)]
      by (auto simp: mp_unpack_ext_raw_def good_Some) (auto simp: good_def)
  qed
qed

lemma good_after_read:
  assumes "adv r (snd rd)" and "\<And>s. adv r s \<Longrightarrow> good s (f (fst rd) s)"
  shows "good r (let (n, s) = rd in f n s)"
proof -
  obtain n s where rd: "rd = (n, s)" by fastforce
  then have "adv r s" using assms(1) by simp
  moreover from this have "good s (f n s)" using assms(2) rd by simp
  ultimately show ?thesis using rd adv_trans by (auto simp: good_def)
qed

lemma unpack_tag_good:
  assumes t: "total_upto m un" and r: "rpos r \<le> length (rdata r)" and l: "left r \<le> m"
  shows "good r (unpack_tag C L un tag r)"
proof -
  have sub: "rpos s \<le> length (rdata s)" "left s \<le> m" if "adv r s" for s
    using adv_left [OF that] l by simp_all
  have arr: "good s (mp_unpack_array un s n)" if "adv r s" for s n
    unfolding mp_unpack_array_def using sub [OF that] by (intro good_map unpack_list_good [OF t])
  have mp: "good s (mp_unpack_map L un s n)" if "adv r s" for s n
    unfolding mp_unpack_map_def using sub [OF that] by (intro good_map unpack_entries_good [OF t])
  have ext: "good s (mp_unpack_ext_raw un s n)" if "adv r s" for s n
    using sub [OF that] by (intro ext_raw_good [OF t])
  have raw: "good s (Some (mp_unpack_str_raw s n))" "good s (Some (mp_unpack_bin_raw s n))" if "adv r s" for s n
    using adv_raw [OF sub(1) [OF that]] by (simp_all add: good_Some)
  note here = adv_refl [OF r]
  show ?thesis
    unfolding unpack_tag_def
    by (intro good_if good_after_read adv_reads [OF r] arr mp ext raw here)
      (simp_all add: good_Some here adv_reads [OF r] adv_error [OF r])
qed

lemma mp_unpack_value_total: "total_upto n (mp_unpack_value C L (Suc n))"
proof (induction n)
  case 0
  then show ?case by (auto simp: total_upto_def left_def good_Some adv_refl)
next
  case (Suc n)
  show ?case
    unfolding total_upto_def
  proof (intro allI impI)
    fix r :: reader assume r: "rpos r \<le> length (rdata r)" and l: "left r \<le> Suc n"
    show "good r (mp_unpack_value C L (Suc (Suc n)) r)"
    proof (cases "rerr r \<noteq> None \<or> length (rdata r) \<le> rpos r")
      case True
      then show ?thesis using r by (simp add: good_Some adv_refl)
    next
      case False
      then have rd: "mp_reader_read_u8 r = (rdata r ! rpos r, r\<lparr>rpos := rpos r + 1\<rparr>)"
        by (simp add: mp_reader_read_u8_def mp_reader_ensure_def)
      let ?s = "r\<lparr>rpos := rpos r + 1\<rparr>"
      have s: "adv r ?s" "left ?s \<le> n" "rpos ?s \<le> length (rdata ?s)"
        using False l by (simp_all add: adv_def left_def)
      have "good ?s (unpack_tag C L (mp_unpack_value C L (Suc n)) (rdata r ! rpos r) ?s)"
        using Suc.IH s(3,2) by (rule unpack_tag_good)
      then show ?thesis using False rd s(1) by (auto simp: good_def del: mp_unpack_value.simps dest: adv_trans)
    qed
  qed
qed

section \<open>The encoder's buffer\<close>

lemma buf_ok_init [simp]: "buf_ok mp_buf_init"
  by (simp add: buf_ok_def mp_buf_init_def)

lemmas buf_writers = wire8.wr_ok wire16.wr_ok wire32.wr_ok wire64.wr_ok buf_ok_write

lemma buf_ok_packers [wf_intros]:
  assumes "buf_ok b"
  shows "buf_ok (mp_pack_nil b)" "buf_ok (mp_pack_bool b x)" "buf_ok (mp_pack_int b i)"
    "buf_ok (mp_pack_float C b f)" "buf_ok (mp_pack_str b s)" "buf_ok (mp_pack_array_header b n)"
    "buf_ok (mp_pack_map_header b n)" "buf_ok (mp_pack_ext b ty s)" "buf_ok (mp_pack_bin b s)"
  using assms
  by (auto simp: mp_pack_nil_def mp_pack_bool_def mp_pack_int_def mp_pack_uint_def mp_pack_float_def
      mp_pack_str_def mp_pack_str_header_def mp_pack_array_header_def mp_pack_map_header_def mp_pack_ext_def
      mp_pack_ext_header_def mp_pack_bin_def mp_buf_write_i8_def mp_buf_write_i16_def mp_buf_write_i32_def
      mp_buf_write_i64_def Let_def intro!: buf_writers)

lemma pack_keeps_buf_ok:
  "buf_ok b \<Longrightarrow> buf_ok (fst (mp_pack_value C b v d))"
  "buf_ok b \<Longrightarrow> buf_ok (fst (pack_list C b vs d))"
  "buf_ok b \<Longrightarrow> buf_ok (pack_list_all C b vs d)"
  "buf_ok b \<Longrightarrow> buf_ok (fst (pack_fields C b es d))"
  "buf_ok b \<Longrightarrow> buf_ok (pack_fields_all C b skip es d)"
proof (induction C b v d and C b vs d and C b vs d and C b es d and C b skip es d
    rule: mp_pack_value_pack_list_pack_list_all_pack_fields_pack_fields_all.induct)
  case (1 C b v d)
  show ?case
  proof (cases "128 < d")
    case True
    then show ?thesis using "1.prems" by (simp add: mp_pack_value.simps)
  next
    case False
    note d = this
    show ?thesis
    proof (cases v)
      case (VArray xs)
      show ?thesis
        using "1.IH"(1)[OF d VArray] "1.prems" d VArray
        by (simp add: mp_pack_value.simps buf_ok_packers)
    next
      case (VTuple xs)
      then show ?thesis
        using "1.prems" d
        by (simp add: mp_pack_value.simps buf_ok_packers split: prod.split)
    next
      case (VMap es)
      show ?thesis
        using "1.IH"(3)[OF d VMap] "1.prems" d VMap
        by (simp add: mp_pack_value.simps buf_ok_packers)
    next
      case (VStruct n es)
      show ?thesis
        using "1.IH"(4)[OF d VStruct refl refl refl] "1.prems" d VStruct
        by (simp add: mp_pack_value.simps buf_ok_packers Let_def)
    next
      case (VEnum n var ha xs hm es)
      note l = "1.IH"(5)[OF d VEnum refl refl refl refl refl refl]
        and f = "1.IH"(6)[OF d VEnum refl refl refl refl refl refl refl]
      show ?thesis
        using l f "1.prems" d VEnum
        by (cases "ha \<and> xs \<noteq> []"; cases "hm \<and> es \<noteq> []")
          (simp_all add: mp_pack_value.simps buf_ok_packers Let_def cong: conj_cong)
    next
      case (VModule es)
      show ?thesis
        using "1.IH"(7)[OF d VModule refl] "1.prems" d VModule
        by (simp add: mp_pack_value.simps buf_ok_packers Let_def)
    qed (use "1.prems" d in \<open>simp_all add: mp_pack_value.simps buf_ok_packers Let_def\<close>)
  qed
qed (auto split: prod.split intro!: buf_ok_packers simp: buf_ok_packers)

end
