(* ===== verification/XMsgPackSpec.thy ===== *)
theory XMsgPackSpec
  imports XMsgPackTotal
begin

text \<open>
  What the MessagePack codec promises: decoding inverts encoding up to the normal form
  \<open>norm\<close>, which is the identity on plain data; the decoder returns on every input and reads
  only its input; the encoder stays within its buffer.
\<close>

section \<open>Plain data\<close>

text \<open>Values made of null, booleans, integers, doubles, strings, patterns, arrays, tuples and maps.\<close>

fun plain :: "value_t \<Rightarrow> bool"
  and plain_list :: "value_t list \<Rightarrow> bool"
  and plain_entries :: "(string \<times> value_t) list \<Rightarrow> bool"
where
  "plain VNull = True"
| "plain (VBool b) = True"
| "plain (VInt i) = True"
| "plain (VFloat f) = True"
| "plain (VStr s) = True"
| "plain (VRegex s) = True"
| "plain (VArray xs) = plain_list xs"
| "plain (VTuple xs) = plain_list xs"
| "plain (VMap es) = (plain_entries es \<and> distinct (map fst es))"
| "plain v = False"
| "plain_list [] = True"
| "plain_list (v # vs) = (plain v \<and> plain_list vs)"
| "plain_entries [] = True"
| "plain_entries ((k, v) # es) = (plain v \<and> plain_entries es)"

text \<open>Narrowing a double that a \<open>float\<close> represents exactly, and widening it again, keeps its bits.\<close>

definition float_exact :: "fconv \<Rightarrow> bool" where
  "float_exact C \<longleftrightarrow>
     (\<forall>f. fbits_eq (fc_widen C (fc_narrow C f)) f \<longrightarrow> fc_widen C (fc_narrow C f) = f)"

lemma fbits_eq_same_sign:
  assumes "fbits_eq x y" and "bit x 63 = bit y 63"
  shows "x = y"
proof (rule bit_word_eqI)
  have m: "(0x7FFFFFFFFFFFFFFF :: u64) = mask 63" by (simp add: mask_eq_exp_minus_1)
  have "uint (take_bit 63 x) = uint (take_bit 63 y)"
    using assms by (auto simp: fbits_eq_def fbits_key_def m take_bit_eq_mask split: if_splits)
  then have e: "take_bit 63 x = take_bit 63 y" by (simp only: word_uint_eq_iff)
  fix n assume n: "n < LENGTH(64)"
  show "bit x n = bit y n"
  proof (cases "n = 63")
    case False
    then show ?thesis using n arg_cong [OF e, of "\<lambda>w. bit w n"] by (simp add: bit_take_bit_iff)
  qed (simp add: assms(2))
qed

lemma update_all_fresh:
  "distinct (map fst es) \<Longrightarrow> \<forall>k \<in> fst ` set es. k \<notin> fst ` set m \<Longrightarrow> update_all es m = m @ es"
proof (induction es arbitrary: m)
  case (Cons e es)
  obtain k v where e: "e = (k, v)" by fastforce
  have "k \<notin> fst ` set m" using Cons.prems(2) e by simp
  then have "AList.update k v m = m @ [(k, v)]" by (induction m) auto
  then show ?case using Cons.IH [of "m @ [(k, v)]"] Cons.prems e by auto
qed simp

lemma norm_plain:
  assumes "float_exact C"
  shows "plain v \<Longrightarrow> norm C v = v"
    and "plain_list vs \<Longrightarrow> norm_list C vs = vs"
    and "plain_entries es \<Longrightarrow> norm_entries C False es = es"
  using assms
  by (induction v and vs and es rule: plain_plain_list_plain_entries.induct)
    (auto simp: float_exact_def update_all_fresh)

section \<open>Decimal text\<close>

lemma digit_char_code:
  assumes "d < 10"
  shows "of_char (digit_chars ! d) = (48 + int d)" "of_char (digit_chars ! d) = 48 + d"
proof -
  have "d \<in> {0..<10}" using assms by simp
  then have "d \<in> set [0..<10]" by simp
  then have "d \<in> {0,1,2,3,4,5,6,7,8,9}" by auto
  then show "of_char (digit_chars ! d) = (48 + int d)" "of_char (digit_chars ! d) = 48 + d"
   by (auto simp: digit_chars_def)
qed

lemma strtoll10_digits:
  assumes "\<forall>d \<in> set ds. d < 10" and "ds \<noteq> []"
  shows "strtoll10 ((if neg then ''-'' else []) @ map ((!) digit_chars) ds) =
    max INT64_MIN (min INT64_MAX (if neg then - digits_val 10 0 ds else digits_val 10 0 ds))"
proof -
  define t where "t = map ((!) digit_chars) ds"
  have dig: "of_char c \<in> {48..57::nat}" if ct: "c \<in> set t" for c
  proof -
    obtain d where d: "d \<in> set ds" "c = digit_chars ! d" using ct by (auto simp: t_def)
    then have "d < 10" using assms(1) by blast
    then show ?thesis using d digit_char_code(2) [of d] by simp
  qed
  obtain c t' where t: "t = c # t'" using assms(2) by (cases ds) (auto simp: t_def)
  have c: "of_char c \<in> {48..57::nat}" using dig t by simp
  have sp: "c \<noteq> CHR '' ''" "c \<noteq> CHR ''-''" "c \<noteq> CHR ''+''" "of_char c \<notin> {9..13::nat}"
    using c by (auto simp del: of_char_eq_iff)
  have "takeWhile (\<lambda>c. of_char c \<in> {48..57::nat}) t = t"
    unfolding takeWhile_eq_all_conv using dig by blast
  moreover have "foldl (\<lambda>v c. v * 10 + (of_char c - 48)) a t = digits_val 10 a ds" for a :: int
    using assms(1) unfolding t_def
  proof (induction ds arbitrary: a)
    case (Cons d ds)
    then show ?case using digit_char_code(1) [of d] by simp
  qed simp
  moreover have "dropWhile (\<lambda>c. c = CHR '' '' \<or> of_char c \<in> {9..13 :: nat}) ((if neg then ''-'' else []) @ t) =
      (if neg then ''-'' else []) @ t"
    using sp t by (cases neg) auto
  moreover have "t \<noteq> []" "hd t \<noteq> CHR ''-''" "hd t \<noteq> CHR ''+''" using sp t by simp_all
  ultimately show ?thesis
    unfolding t_def [symmetric] strtoll10_def Let_def
    by (cases neg) (simp_all add: takeWhile_eq_all_conv [THEN iffD2])
qed
lemma strtoll10_bigint:
  assumes "bi_wf n"
  shows "strtoll10 (c_string (bytes_of (bigint_to_str n 10))) = max INT64_MIN (min INT64_MAX (bi_val n))"
proof -
  obtain ds where ds: "bigint_to_str n 10 = (if sign n then ''-'' else []) @ map ((!) digit_chars) ds"
      "ds \<noteq> []" "\<forall>d \<in> set ds. int d < 10" "digits_val 10 0 ds = int (mag_val (limbs n))"
    using bigint_to_str_digits [of n 10] assms by auto
  have d: "\<forall>d \<in> set ds. d < 10" using ds(3) by auto
  have "digit_chars ! d \<noteq> CHR 0x00" if "d < 10" for d
  proof
    assume "digit_chars ! d = CHR 0x00"
    then have "(of_char (digit_chars ! d) :: nat) = 0" by simp
    then show False using digit_char_code(2) [OF that] by simp
  qed
  then have "CHR 0x00 \<notin> set (map ((!) digit_chars) ds)" using d by (metis image_iff set_map)
  then have "c_str (bigint_to_str n 10)" by (simp add: c_str_def ds(1))
  then have "strtoll10 (c_string (bytes_of (bigint_to_str n 10))) =
      strtoll10 ((if sign n then ''-'' else []) @ map ((!) digit_chars) ds)"
    by (simp only: c_string_bytes ds(1))
  then show ?thesis using strtoll10_digits [OF d ds(2), of "sign n"] ds(4) by (simp add: bi_val_def)
qed

section \<open>The high-level functions\<close>

lemma byte_of_bytes [simp]: "map (byte_of \<circ> (\<lambda>w. VInt (uint w))) bs = bs"
  by (induction bs) simp_all

lemma mp_decode_encode:
  assumes "clean v" and "wsize v < B32" and "height v \<le> 128" and "wsize v \<le> fuel"
  shows "mp_decode C L fuel (mp_encode C v) = Some (norm C v)"
proof -
  obtain b bs where b: "mp_pack_value C mp_buf_init v 0 = (b, True)" "bdata b = bs" "length bs \<le> wsize v"
      "decodes C L bs (norm C v)"
    using packsD [OF packs_value [OF assms(1,2), of 0 C L]] assms(3) by (fastforce simp: mp_buf_init_def)
  obtain r where "mp_unpack_value C L fuel (mp_reader_init bs) = Some (norm C v, r)" "sees r []"
    using decodesD [OF b(4), of fuel "mp_reader_init bs" "[]"] b(3) assms(4) by auto
  then show ?thesis using b(1,2) by (simp add: mp_encode_def mp_decode_def byte_array_def sees_def)
qed

section \<open>Properties\<close>

text \<open>C7. Decoding an encoded value gives its normal form: for every value of a C int's depth and
  size with strings free of NUL, \<open>mp_encode\<close> succeeds and \<open>mp_decode\<close> returns \<open>norm\<close> of it
  (structs, enums and modules become maps, functions null).\<close>
theorem mp_roundtrip:
  assumes "clean v" and "wsize v < B32" and "height v \<le> 128" and "wsize v \<le> fuel"
  shows "mp_decode C L fuel (mp_encode C v) = Some (norm C v)"
  using assms by (rule mp_decode_encode)

theorem mp_roundtrip_witness:
  "\<forall>C L. mp_decode C L 100 (mp_encode C (VTuple [VInt (- 300), VStruct ''P'' [(''x'', VBool True)]])) =
     Some (VTuple [VInt (- 300), VMap [(''__type'', VStr ''P''), (''x'', VBool True)]])"
  using mp_roundtrip [of "VTuple [VInt (- 300), VStruct ''P'' [(''x'', VBool True)]]" 100]
  by (simp add: i64_defs c_str_def)

text \<open>On plain data the round trip is the identity, maps keeping the order of their entries.\<close>
theorem mp_roundtrip_plain:
  assumes "float_exact C" and "plain v" and "clean v" and "wsize v < B32" and "height v \<le> 128"
    and "wsize v \<le> fuel"
  shows "mp_decode C L fuel (mp_encode C v) = Some v"
  using mp_decode_encode [OF assms(3-6)] norm_plain(1) [OF assms(1,2)] by simp

theorem mp_roundtrip_plain_witness:
  "\<forall>L. mp_decode \<lparr>fc_narrow = \<lambda>f. ucast (drop_bit 32 f), fc_widen = \<lambda>w. push_bit 32 (ucast w)\<rparr> L 50
     (mp_encode \<lparr>fc_narrow = \<lambda>f. ucast (drop_bit 32 f), fc_widen = \<lambda>w. push_bit 32 (ucast w)\<rparr>
        (VMap [(''k'', VArray [VInt 70000, VNull]), (''a'', VStr ''text'')])) =
     Some (VMap [(''k'', VArray [VInt 70000, VNull]), (''a'', VStr ''text'')])"
proof (intro allI mp_roundtrip_plain)
  show "float_exact \<lparr>fc_narrow = \<lambda>f. ucast (drop_bit 32 f), fc_widen = \<lambda>w. push_bit 32 (ucast w)\<rparr>"
    unfolding float_exact_def by (auto intro!: fbits_eq_same_sign simp: bit_simps)
qed (simp_all add: i64_defs c_str_def)


text \<open>C24. The encoder stays within its buffer: whatever it packs, the bytes written fit the
  capacity, which never shrinks below the initial one.\<close>
theorem mp_pack_in_bounds:
  "buf_ok (fst (mp_pack_value C mp_buf_init v depth))"
  by (rule pack_keeps_buf_ok(1)) simp

text \<open>The multi-byte writers and readers of the wire format are inverse at every width.\<close>
theorem wire_roundtrip:
  "fst (mp_reader_read_u8 (mp_reader_init (bdata (mp_buf_write_u8 mp_buf_init a)))) = a \<and>
   fst (mp_reader_read_u16 (mp_reader_init (bdata (mp_buf_write_u16 mp_buf_init b)))) = b \<and>
   fst (mp_reader_read_u32 (mp_reader_init (bdata (mp_buf_write_u32 mp_buf_init c)))) = c \<and>
   fst (mp_reader_read_u64 (mp_reader_init (bdata (mp_buf_write_u64 mp_buf_init d)))) = d"
  using wire8.roundtrip [of a] wire16.roundtrip [of b] wire32.roundtrip [of c] wire64.roundtrip [of d] by auto

text \<open>A big integer outside the 64-bit range does not survive the round trip: it is decoded
  with \<open>strtoll\<close>, so it comes back as the nearest 64-bit integer.\<close>
theorem mp_bigint_clamped:
  assumes "bi_wf n" and "wsize (VBig n) < B32" and "wsize (VBig n) \<le> fuel"
  shows "mp_decode C L fuel (mp_encode C (VBig n)) =
    Some (VInt (max INT64_MIN (min INT64_MAX (bi_val n))))"
  using mp_decode_encode [of "VBig n" fuel C L] strtoll10_bigint [OF assms(1)] assms(2,3) by simp

theorem mp_bigint_clamped_witness:
  "\<forall>C L. mp_decode C L 20 (mp_encode C (VBig (bigint_from_i64 5))) = Some (VInt 5)"
proof -
  have "length (bigint_to_str (bigint_from_i64 5) 10) = 1" by code_simp
  then show ?thesis
    using mp_bigint_clamped [of "bigint_from_i64 5" 20] by (simp add: bigint_from_i64_correct i64_defs)
qed

end
