(* ===== verification/XRaLive.thy ===== *)
theory XRaLive
  imports XPrelude "HOL-Library.Monad_Syntax"
begin

text \<open>
  The register allocator's input and its liveness analysis (\<open>src/jit/ra_ir.h\<close>,
  \<open>src/jit/ra_live.c\<close>): instructions over virtual registers, basic blocks with bit sets, and
  the iteration to a fixed point.

  A virtual register is an \<open>int\<close>, -1 for "no operand". \<open>succ\<close> holds the first \<open>n_succ\<close>
  entries of the C array. The constant counts, the prototype and the write flags of \<open>IRFunc\<close>
  play no part here and are left out.
\<close>

section \<open>The intermediate representation\<close>

datatype ir_op =
    IR_CONST | IR_LOAD_LOCAL | IR_LOAD_GLOBAL | IR_LOAD_UP | IR_PUSH_NULL | IR_PUSH_TRUE | IR_PUSH_FALSE
  | IR_MAKE_CLOSURE
  | IR_INDEX_GET | IR_INDEX_SET | IR_LOAD_FIELD | IR_STORE_FIELD
  | IR_MAKE_RANGE | IR_MAKE_ARRAY | IR_MAKE_TUPLE | IR_MAKE_MAP | IR_METHOD_CALL
  | IR_CONCAT | IR_ITER_GET
  | IR_VM_STEP | IR_VM_STEP_CF | IR_VM_STEP_DRAIN
  | IR_STORE_LOCAL | IR_STORE_UP | IR_POP
  | IR_ADD | IR_SUB | IR_MUL | IR_DIV | IR_MOD | IR_BAND | IR_BOR | IR_BXOR | IR_SHL | IR_SHR
  | IR_LT | IR_GT | IR_LE | IR_GE | IR_EQ | IR_NE
  | IR_NEG | IR_NOT | IR_BNOT
  | IR_JUMP | IR_JIF_FALSE | IR_JIF_TRUE | IR_CMP_BR | IR_NOP | IR_CALL | IR_RETURN | IR_DUP | IR_MOVE

record ir_inst =
  op :: ir_op
  dst :: int
  src1 :: int
  src2 :: int
  imm :: int
  call_args :: "int list"
  bc_offset :: int

record ir_block =
  bstart :: nat
  bend :: nat
  succ :: "nat list"
  buse :: "u64 list"
  bdef :: "u64 list"
  live_in :: "u64 list"
  live_out :: "u64 list"

record ir_func =
  insts :: "ir_inst list"
  blocks :: "ir_block list"
  n_vregs :: nat
  local_vregs :: "int list"

section \<open>Bit sets\<close>

definition bs_words :: "nat \<Rightarrow> nat" where
  "bs_words n = (n + 63) div 64"

definition bs_new :: "nat \<Rightarrow> u64 list" where
  "bs_new n = replicate (bs_words n) 0"

definition bs_set :: "u64 list \<Rightarrow> nat \<Rightarrow> u64 list" where
  "bs_set bs b = bs[b div 64 := bs ! (b div 64) OR push_bit (b mod 64) 1]"

definition bs_test :: "u64 list \<Rightarrow> nat \<Rightarrow> bool" where
  "bs_test bs b \<longleftrightarrow> bit (bs ! (b div 64)) (b mod 64)"

text \<open>\<open>bs_or_into\<close> without its result, which no caller uses.\<close>

definition bs_or_into :: "u64 list \<Rightarrow> u64 list \<Rightarrow> u64 list" where
  "bs_or_into d s = map2 (OR) d s"

definition bs_live_in :: "u64 list \<Rightarrow> u64 list \<Rightarrow> u64 list \<Rightarrow> u64 list" where
  "bs_live_in us out df = map2 (\<lambda>u (l, d). u OR (l AND NOT d)) us (zip out df)"

definition bs_equal :: "u64 list \<Rightarrow> u64 list \<Rightarrow> bool" where
  "bs_equal a b \<longleftrightarrow> a = b"

section \<open>Reads and writes of an instruction\<close>

definition op_uses_call_args_as_vregs :: "ir_op \<Rightarrow> bool" where
  "op_uses_call_args_as_vregs p \<longleftrightarrow>
     p \<in> {IR_CALL, IR_METHOD_CALL, IR_INDEX_SET, IR_MAKE_ARRAY, IR_MAKE_TUPLE, IR_MAKE_MAP,
          IR_VM_STEP, IR_VM_STEP_CF, IR_VM_STEP_DRAIN}"

definition ir_inst_reads :: "ir_inst \<Rightarrow> int list" where
  "ir_inst_reads i =
     filter (\<lambda>v. 0 \<le> v)
       ([src1 i, src2 i] @ (if op_uses_call_args_as_vregs (op i) then call_args i else []))"

section \<open>The analysis\<close>

text \<open>One instruction of the walk that fills a block's \<open>use\<close> and \<open>def\<close>.\<close>

fun add_uses :: "u64 list \<Rightarrow> int list \<Rightarrow> u64 list \<Rightarrow> u64 list" where
  "add_uses df [] us = us"
| "add_uses df (r # rs) us = add_uses df rs (if bs_test df (nat r) then us else bs_set us (nat r))"

fun use_def_walk :: "ir_inst list \<Rightarrow> u64 list \<times> u64 list \<Rightarrow> u64 list \<times> u64 list" where
  "use_def_walk [] (us, df) = (us, df)"
| "use_def_walk (i # is) (us, df) =
     use_def_walk is
       (add_uses df (ir_inst_reads i) us, if 0 \<le> dst i then bs_set df (nat (dst i)) else df)"

definition block_insts :: "ir_func \<Rightarrow> ir_block \<Rightarrow> ir_inst list" where
  "block_insts f b = take (bend b - bstart b) (drop (bstart b) (insts f))"

definition init_block :: "ir_func \<Rightarrow> ir_block \<Rightarrow> ir_block" where
  "init_block f b =
     (let e = bs_new (n_vregs f); (us, df) = use_def_walk (block_insts f b) (e, e)
      in b\<lparr>buse := us, bdef := df, live_in := e, live_out := e\<rparr>)"

text \<open>The body of the loop over the blocks; the flag is \<open>changed\<close>.\<close>

fun union_succ :: "ir_block list \<Rightarrow> nat list \<Rightarrow> u64 list \<Rightarrow> u64 list" where
  "union_succ bs [] tmp = tmp"
| "union_succ bs (s # ss) tmp = union_succ bs ss (bs_or_into tmp (live_in (bs ! s)))"

definition live_block :: "nat \<Rightarrow> nat \<Rightarrow> ir_block list \<times> bool \<Rightarrow> ir_block list \<times> bool" where
  "live_block nv bi = (\<lambda>(bs, changed).
     let b = bs ! bi;
         out = union_succ bs (succ b) (bs_new nv);
         new_in = bs_live_in (buse b) out (bdef b);
         b' = b\<lparr>live_out := out\<rparr>
     in if bs_equal new_in (live_in b) then (bs[bi := b'], changed)
        else (bs[bi := b'\<lparr>live_in := new_in\<rparr>], True))"

definition live_pass :: "nat \<Rightarrow> ir_block list \<Rightarrow> ir_block list \<times> bool" where
  "live_pass nv bs = fold (live_block nv) (rev [0..<length bs]) (bs, False)"

text \<open>\<open>while (changed)\<close>; \<open>None\<close> would be a loop that never ends.\<close>

partial_function (option) live_loop :: "nat \<Rightarrow> ir_block list \<Rightarrow> ir_block list option" where
  "live_loop nv bs =
     (let (bs', changed) = live_pass nv bs in if changed then live_loop nv bs' else Some bs')"

definition ralow_liveness :: "ir_func \<Rightarrow> ir_func option" where
  "ralow_liveness f = do {
     bs \<leftarrow> live_loop (n_vregs f) (map (init_block f) (blocks f));
     Some (f\<lparr>blocks := bs\<rparr>) }"

end
