(* ===== verification/XRaAlloc.thy ===== *)
theory XRaAlloc
  imports XRaLive "HOL-Library.Product_Lexorder"
begin

text \<open>
  Linear-scan register allocation (\<open>src/jit/ra_alloc.c\<close>): live intervals, their order, and the
  scan that hands out three registers and spill slots. The arrays \<open>active\<close>,
  \<open>active_phys\<close> and \<open>free_regs\<close> are lists of the entries in use.
\<close>

definition RA_N_PHYS :: nat where
  "RA_N_PHYS = 3"

definition INT32_MAX :: int where
  "INT32_MAX = 2147483647"

record live_range =
  vreg :: nat
  lr_start :: int
  lr_end :: int

section \<open>Intervals\<close>

definition stretch :: "int \<Rightarrow> live_range \<Rightarrow> live_range" where
  "stretch i r =
     r\<lparr>lr_start := (if i < lr_start r then i else lr_start r),
       lr_end := (if lr_end r < i then i else lr_end r)\<rparr>"

text \<open>The range of one register, moved to cover an index.\<close>

definition touch :: "int \<Rightarrow> nat \<Rightarrow> live_range list \<Rightarrow> live_range list" where
  "touch i v rs = rs[v := stretch i (rs ! v)]"

definition block_edges :: "ir_block \<Rightarrow> nat \<Rightarrow> live_range list \<Rightarrow> live_range list" where
  "block_edges b v rs =
     (let rs1 = (if bs_test (live_in b) v then touch (int (bstart b)) v rs else rs)
      in if bs_test (live_out b) v then touch (int (bend b) - 1) v rs1 else rs1)"

text \<open>\<open>inst_uses\<close> is written out again in this file and equals \<open>ir_inst_reads\<close>.\<close>

definition inst_ranges :: "ir_func \<Rightarrow> nat \<Rightarrow> live_range list \<Rightarrow> live_range list" where
  "inst_ranges f ii rs =
     (let i = insts f ! ii;
          rs1 = fold (\<lambda>u. touch (int ii) (nat u)) (ir_inst_reads i) rs
      in if 0 \<le> dst i then touch (int ii) (nat (dst i)) rs1 else rs1)"

definition block_ranges :: "ir_func \<Rightarrow> ir_block \<Rightarrow> live_range list \<Rightarrow> live_range list" where
  "block_ranges f b rs =
     fold (inst_ranges f) [bstart b..<bend b] (fold (block_edges b) [0..<n_vregs f] rs)"

definition build_intervals :: "ir_func \<Rightarrow> live_range list" where
  "build_intervals f =
     fold (block_ranges f) (blocks f)
       (map (\<lambda>v. \<lparr>vreg = v, lr_start = INT32_MAX, lr_end = -1\<rparr>) [0..<n_vregs f])"

text \<open>The locals live from the prologue to the epilogue.\<close>

definition widen_local :: "ir_func \<Rightarrow> int \<Rightarrow> live_range list \<Rightarrow> live_range list" where
  "widen_local f lv rs =
     (if lv < 0 \<or> int (n_vregs f) \<le> lv then rs
      else rs[nat lv := (rs ! nat lv)
        \<lparr>lr_start := 0, lr_end := (if insts f = [] then 0 else int (length (insts f)) - 1)\<rparr>])"

definition ranges_of :: "ir_func \<Rightarrow> live_range list" where
  "ranges_of f = fold (widen_local f) (local_vregs f) (build_intervals f)"

text \<open>\<open>qsort\<close> by start, then register.\<close>

definition sorted_ranges :: "ir_func \<Rightarrow> live_range list" where
  "sorted_ranges f =
     sort_key (\<lambda>r. (lr_start r, vreg r))
       (filter (\<lambda>r. lr_start r \<noteq> INT32_MAX \<and> lr_start r \<le> lr_end r) (ranges_of f))"

section \<open>The scan\<close>

record ra_state =
  reg :: "int list"
  spill :: "int list"
  n_spill_slots :: nat
  active :: "(live_range \<times> nat) list"
  free_regs :: "nat list"

definition ra_init :: "nat \<Rightarrow> ra_state" where
  "ra_init n =
     \<lparr>reg = replicate n (-1), spill = replicate n (-1), n_spill_slots = 0, active = [],
      free_regs = [0..<RA_N_PHYS]\<rparr>"

text \<open>The cast to \<open>int8_t\<close> of the registers and the slots.\<close>

definition int8 :: "nat \<Rightarrow> int" where
  "int8 n = sint (word_of_int (int n) :: u8)"

definition expire :: "live_range \<Rightarrow> ra_state \<Rightarrow> ra_state" where
  "expire cur s =
     s\<lparr>free_regs := free_regs s @ map snd (filter (\<lambda>(r, p). lr_end r < lr_start cur) (active s)),
       active := filter (\<lambda>(r, p). \<not> lr_end r < lr_start cur) (active s)\<rparr>"

fun worst_loop :: "(live_range \<times> nat) list \<Rightarrow> nat \<Rightarrow> nat \<Rightarrow> nat \<Rightarrow> nat" where
  "worst_loop as 0 k w = w"
| "worst_loop as (Suc n) k w =
     worst_loop as n (Suc k) (if lr_end (fst (as ! w)) < lr_end (fst (as ! k)) then k else w)"

definition worst_active :: "(live_range \<times> nat) list \<Rightarrow> nat" where
  "worst_active as = worst_loop as (length as - 1) 1 0"

definition alloc_step :: "live_range \<Rightarrow> ra_state \<Rightarrow> ra_state" where
  "alloc_step cur s0 =
     (let s = expire cur s0
      in if free_regs s \<noteq> [] then
           let phys = last (free_regs s)
           in s\<lparr>free_regs := butlast (free_regs s), reg := (reg s)[vreg cur := int8 phys],
                active := active s @ [(cur, phys)]\<rparr>
         else
           let w = worst_active (active s); (r, phys) = active s ! w
           in if lr_end cur < lr_end r then
                s\<lparr>reg := ((reg s)[vreg r := -1])[vreg cur := int8 phys],
                  spill := (spill s)[vreg r := int8 (n_spill_slots s)],
                  n_spill_slots := Suc (n_spill_slots s),
                  active := (active s)[w := (cur, phys)]\<rparr>
              else
                s\<lparr>spill := (spill s)[vreg cur := int8 (n_spill_slots s)],
                  n_spill_slots := Suc (n_spill_slots s)\<rparr>)"

definition ralow_alloc :: "ir_func \<Rightarrow> ra_state" where
  "ralow_alloc f = fold alloc_step (sorted_ranges f) (ra_init (n_vregs f))"

end
