(* ===== verification/XRaLiveProofs.thy ===== *)
theory XRaLiveProofs
  imports XRaLive
begin

text \<open>
  The liveness analysis ends, and finds exactly the virtual registers that some path reads
  before it writes them. \<open>bits\<close> is the set a bit vector stands for; \<open>live_at\<close> is the
  specification, by rule induction over the paths of the flow graph.
\<close>

section \<open>Bit sets as sets\<close>

definition bits :: "u64 list \<Rightarrow> nat set" where
  "bits bs = {v. v < 64 * length bs \<and> bs_test bs v}"

lemma bs_words_enough: "v < n \<Longrightarrow> v < 64 * bs_words n"
  by (simp add: bs_words_def)

lemma bits_bound: "bits bs \<subseteq> {..<64 * length bs}"
  by (auto simp: bits_def)

lemma finite_bits [simp]: "finite (bits bs)"
  using bits_bound by (rule finite_subset) simp

lemma card_bits: "card (bits bs) \<le> 64 * length bs"
  using card_mono [OF _ bits_bound] by simp

lemma bits_new [simp]: "bits (bs_new n) = {}" and length_bs_new [simp]: "length (bs_new n) = bs_words n"
  by (auto simp: bits_def bs_test_def bs_new_def)

lemma length_bs_set [simp]: "length (bs_set bs b) = length bs"
  by (simp add: bs_set_def)

lemma bits_set:
  assumes "b < 64 * length bs"
  shows "bits (bs_set bs b) = insert b (bits bs)"
proof -
  have "bs_test (bs_set bs b) v \<longleftrightarrow> v = b \<or> bs_test bs v" if "v < 64 * length bs" for v
  proof (cases "v div 64 = b div 64")
    case True
    have "b div 64 < length bs" using assms by simp
    moreover have "v = b \<longleftrightarrow> v mod 64 = b mod 64" using True by (metis div_mult_mod_eq)
    ultimately show ?thesis
      using True by (auto simp: bs_test_def bs_set_def bit_simps)
  next
    case False
    then show ?thesis by (auto simp: bs_test_def bs_set_def)
  qed
  then show ?thesis using assms by (auto simp: bits_def)
qed

lemma bits_inject: "length a = length b \<Longrightarrow> bits a = bits b \<longleftrightarrow> a = b"
proof
  assume l: "length a = length b" and e: "bits a = bits b"
  show "a = b"
  proof (rule nth_equalityI [OF l], rule bit_word_eqI)
    fix i k assume i: "i < length a" and k: "k < LENGTH(64)"
    have "64 * i + k < 64 * length a" using i k by simp
    moreover have "(64 * i + k) div 64 = i" "(64 * i + k) mod 64 = k" using k by simp_all
    ultimately show "bit (a ! i) k = bit (b ! i) k"
      using e l unfolding bits_def bs_test_def set_eq_iff mem_Collect_eq by (metis (no_types))
  qed
qed simp

lemma bits_or: "length a = length b \<Longrightarrow> bits (bs_or_into a b) = bits a \<union> bits b"
  by (auto simp: bits_def bs_or_into_def bs_test_def bit_simps)

lemma bits_live_in:
  "\<lbrakk>length u = n; length out = n; length d = n\<rbrakk> \<Longrightarrow> bits (bs_live_in u out d) = bits u \<union> (bits out - bits d)"
  by (auto simp: bits_def bs_live_in_def bs_test_def bit_simps)

lemma length_bs_ops [simp]:
  "length (bs_or_into a b) = min (length a) (length b)"
  "length (bs_live_in u out d) = min (length u) (min (length out) (length d))"
  by (simp_all add: bs_or_into_def bs_live_in_def)

section \<open>Use and def of a block\<close>

definition reads :: "ir_inst \<Rightarrow> nat set" where
  "reads i = nat ` set (ir_inst_reads i)"

definition writes :: "ir_inst \<Rightarrow> nat set" where
  "writes i = (if 0 \<le> dst i then {nat (dst i)} else {})"

text \<open>What a list of instructions reads before writing it, and what it writes.\<close>

fun exposed :: "ir_inst list \<Rightarrow> nat set" where
  "exposed [] = {}"
| "exposed (i # is) = reads i \<union> (exposed is - writes i)"

definition written :: "ir_inst list \<Rightarrow> nat set" where
  "written is = (\<Union>i \<in> set is. writes i)"

definition inst_ok :: "nat \<Rightarrow> ir_inst \<Rightarrow> bool" where
  "inst_ok nv i \<longleftrightarrow> (\<forall>v \<in> reads i \<union> writes i. v < nv)"

lemma add_uses_bits:
  "\<lbrakk>length us = length df; \<forall>r \<in> set rs. nat r < 64 * length df\<rbrakk> \<Longrightarrow>
     bits (add_uses df rs us) = bits us \<union> (nat ` set rs - bits df) \<and> length (add_uses df rs us) = length us"
proof (induction rs arbitrary: us)
  case (Cons r rs)
  have r: "nat r < 64 * length us" "nat r \<in> bits df \<longleftrightarrow> bs_test df (nat r)"
    using Cons.prems by (auto simp: bits_def)
  then show ?case
    using Cons.IH [of us] Cons.IH [of "bs_set us (nat r)"] Cons.prems by (auto simp: bits_set)
qed simp

lemma use_def_walk_bits:
  "\<lbrakk>\<forall>i \<in> set is. inst_ok nv i; length us = bs_words nv; length df = bs_words nv\<rbrakk> \<Longrightarrow>
     let (us', df') = use_def_walk is (us, df)
     in bits us' = bits us \<union> (exposed is - bits df) \<and> bits df' = bits df \<union> written is \<and>
        length us' = bs_words nv \<and> length df' = bs_words nv"
proof (induction "is" arbitrary: us df)
  case (Cons i "is")
  have ok: "inst_ok nv i" and oks: "\<forall>i \<in> set is. inst_ok nv i" using Cons.prems by auto
  have rd: "\<forall>r \<in> set (ir_inst_reads i). nat r < 64 * length df"
    using ok Cons.prems(3) bs_words_enough [of _ nv] by (auto simp: inst_ok_def reads_def)
  have us: "bits (add_uses df (ir_inst_reads i) us) = bits us \<union> (reads i - bits df)"
      "length (add_uses df (ir_inst_reads i) us) = bs_words nv"
    using add_uses_bits [OF _ rd] Cons.prems by (simp_all add: reads_def)
  define df1 where "df1 = (if 0 \<le> dst i then bs_set df (nat (dst i)) else df)"
  have df1: "bits df1 = bits df \<union> writes i" "length df1 = bs_words nv"
    using ok Cons.prems(3) bs_words_enough [of "nat (dst i)" nv]
    by (auto simp: df1_def inst_ok_def writes_def bits_set)
  have w: "written (i # is) = writes i \<union> written is" by (simp add: written_def)
  have IH: "let (us', df') = use_def_walk is (add_uses df (ir_inst_reads i) us, df1)
     in bits us' = bits us \<union> (reads i - bits df) \<union> (exposed is - (bits df \<union> writes i)) \<and>
        bits df' = bits df \<union> writes i \<union> written is \<and> length us' = bs_words nv \<and> length df' = bs_words nv"
    using Cons.IH [OF oks us(2) df1(2)] by (simp only: us(1) df1(1))
  have e: "use_def_walk (i # is) (us, df) = use_def_walk is (add_uses df (ir_inst_reads i) us, df1)"
    by (simp add: df1_def)
  show ?case unfolding e w using IH by (auto simp: case_prod_beta Let_def)
qed (simp add: written_def)

section \<open>The iteration\<close>

abbreviation li :: "ir_block list \<Rightarrow> nat \<Rightarrow> nat set" where
  "li bs i \<equiv> bits (live_in (bs ! i))"

abbreviation lo :: "ir_block list \<Rightarrow> nat \<Rightarrow> nat set" where
  "lo bs i \<equiv> bits (live_out (bs ! i))"

text \<open>The right-hand sides of the dataflow equations.\<close>

definition outs :: "ir_block list \<Rightarrow> nat \<Rightarrow> nat set" where
  "outs bs i = (\<Union>s \<in> set (succ (bs ! i)). li bs s)"

definition ins :: "ir_block list \<Rightarrow> nat \<Rightarrow> nat set" where
  "ins bs i = bits (buse (bs ! i)) \<union> (outs bs i - bits (bdef (bs ! i)))"

definition shape :: "ir_block \<Rightarrow> nat \<times> nat \<times> nat list \<times> u64 list \<times> u64 list" where
  "shape b = (bstart b, bend b, succ b, buse b, bdef b)"

definition blocks_ok :: "nat \<Rightarrow> ir_block list \<Rightarrow> bool" where
  "blocks_ok nv bs \<longleftrightarrow>
     (\<forall>b \<in> set bs. length (buse b) = bs_words nv \<and> length (bdef b) = bs_words nv \<and>
        length (live_in b) = bs_words nv \<and> length (live_out b) = bs_words nv \<and>
        (\<forall>s \<in> set (succ b). s < length bs))"

lemma blocks_okD:
  "\<lbrakk>blocks_ok nv bs; i < length bs\<rbrakk> \<Longrightarrow> length (buse (bs ! i)) = bs_words nv \<and> length (bdef (bs ! i)) = bs_words nv \<and>
     length (live_in (bs ! i)) = bs_words nv \<and> length (live_out (bs ! i)) = bs_words nv \<and>
     (\<forall>s \<in> set (succ (bs ! i)). s < length bs)"
  unfolding blocks_ok_def using nth_mem by blast

lemma union_succ_bits:
  "\<lbrakk>blocks_ok nv bs; \<forall>s \<in> set ss. s < length bs; length tmp = bs_words nv\<rbrakk> \<Longrightarrow>
     bits (union_succ bs ss tmp) = bits tmp \<union> (\<Union>s \<in> set ss. li bs s) \<and>
     length (union_succ bs ss tmp) = bs_words nv"
proof (induction ss arbitrary: tmp)
  case (Cons s ss)
  have "length (live_in (bs ! s)) = bs_words nv" using blocks_okD [of nv bs s] Cons.prems by simp
  then show ?case
    using Cons.IH [of "bs_or_into tmp (live_in (bs ! s))"] Cons.prems by (auto simp: bits_or)
qed simp

text \<open>One visit of a block.\<close>

lemma live_block_step:
  assumes ok: "blocks_ok nv bs" and i: "i < length bs"
    and step: "live_block nv i (bs, c) = (bs', c')"
  shows "blocks_ok nv bs' \<and> map shape bs' = map shape bs \<and>
    (\<forall>j < length bs. li bs' j = (if j = i then ins bs i else li bs j)) \<and>
    (\<forall>j < length bs. lo bs' j = (if j = i then outs bs i else lo bs j)) \<and>
    c' = (c \<or> ins bs i \<noteq> li bs i)"
proof -
  define out where "out = union_succ bs (succ (bs ! i)) (bs_new nv)"
  define new where "new = bs_live_in (buse (bs ! i)) out (bdef (bs ! i))"
  note b = blocks_okD [OF ok i]
  have out: "bits out = outs bs i" "length out = bs_words nv"
    using union_succ_bits [OF ok, of "succ (bs ! i)" "bs_new nv"] b by (simp_all add: out_def outs_def)
  have new: "bits new = ins bs i" "length new = bs_words nv"
    using b out by (simp_all add: new_def ins_def bits_live_in)
  have eq: "new = live_in (bs ! i) \<longleftrightarrow> ins bs i = li bs i"
    using bits_inject [of new "live_in (bs ! i)"] new b by simp
  have s: "bs' = bs[i := (bs ! i)\<lparr>live_out := out, live_in := new\<rparr>]" "c' = (c \<or> ins bs i \<noteq> li bs i)"
    using step eq by (auto simp: live_block_def Let_def bs_equal_def out_def [symmetric] new_def [symmetric] split: if_splits)
  have "map shape bs' = map shape bs"
    using i by (simp add: s(1) map_update shape_def list_update_same_conv)
  moreover have "blocks_ok nv bs'"
    using ok b out(2) new(2) unfolding blocks_ok_def s(1) by (auto dest!: set_update_subset_insert [THEN subsetD])
  ultimately show ?thesis using i new(1) out(1) s by auto
qed

lemma shape_succ: "map shape bs' = map shape bs \<Longrightarrow> i < length bs \<Longrightarrow>
    succ (bs' ! i) = succ (bs ! i) \<and> buse (bs' ! i) = buse (bs ! i) \<and> bdef (bs' ! i) = bdef (bs ! i) \<and>
    bstart (bs' ! i) = bstart (bs ! i) \<and> bend (bs' ! i) = bend (bs ! i)"
  using map_eq_imp_length_eq [of shape bs' shape bs] nth_map [of i bs shape] nth_map [of i bs' shape]
  by (simp add: shape_def)

text \<open>
  The sets only grow from the empty ones, and stay below every solution \<open>T\<close> of the equations.
\<close>

definition growing :: "ir_block list \<Rightarrow> bool" where
  "growing bs \<longleftrightarrow> (\<forall>i < length bs. li bs i \<subseteq> ins bs i)"

definition below :: "(nat \<Rightarrow> nat set) \<Rightarrow> ir_block list \<Rightarrow> bool" where
  "below T bs \<longleftrightarrow> (\<forall>i < length bs. li bs i \<subseteq> T i)"

definition solution :: "(nat \<Rightarrow> nat set) \<Rightarrow> ir_block list \<Rightarrow> bool" where
  "solution T bs \<longleftrightarrow>
     (\<forall>i < length bs. bits (buse (bs ! i)) \<union> ((\<Union>s \<in> set (succ (bs ! i)). T s) - bits (bdef (bs ! i))) \<subseteq> T i)"

definition room :: "nat \<Rightarrow> ir_block list \<Rightarrow> nat" where
  "room nv bs = (\<Sum>i < length bs. 64 * bs_words nv - card (li bs i))"

lemma ins_mono:
  assumes "map shape bs' = map shape bs" and "i < length bs" and "\<forall>s \<in> set (succ (bs ! i)). li bs s \<subseteq> li bs' s"
  shows "ins bs i \<subseteq> ins bs' i"
  using assms(3) shape_succ [OF assms(1,2)] by (auto simp: ins_def outs_def)

lemma live_block_grows:
  assumes ok: "blocks_ok nv bs" and i: "i < length bs" and g: "growing bs"
    and step: "live_block nv i (bs, c) = (bs', c')"
  shows "growing bs' \<and> (\<forall>j < length bs. li bs j \<subseteq> li bs' j) \<and>
    (if ins bs i \<noteq> li bs i then room nv bs' < room nv bs else room nv bs' = room nv bs)"
proof -
  note st = live_block_step [OF ok i step]
  have len: "length bs' = length bs" using st map_eq_imp_length_eq by blast
  have sub: "\<forall>j < length bs. li bs j \<subseteq> li bs' j" using st g i by (auto simp: growing_def)
  have "li bs' j \<subseteq> ins bs' j" if j: "j < length bs" for j
  proof -
    have "ins bs j \<subseteq> ins bs' j"
      using st sub blocks_okD [OF ok j] j by (intro ins_mono) auto
    moreover have "li bs' j \<subseteq> ins bs j" using st g j by (auto simp: growing_def)
    ultimately show ?thesis by blast
  qed
  then have grow: "growing bs'" using len by (simp add: growing_def)
  have b: "card (li bs' j) \<le> 64 * bs_words nv" if "j < length bs" for j
    using card_bits [of "live_in (bs' ! j)"] blocks_okD [of nv bs' j] st that len by simp
  have room: "room nv bs' < room nv bs" if "ins bs i \<noteq> li bs i"
    unfolding room_def len
  proof (rule sum_strict_mono_ex1)
    show "\<forall>j \<in> {..<length bs}. 64 * bs_words nv - card (li bs' j) \<le> 64 * bs_words nv - card (li bs j)"
      using sub by (auto intro!: diff_le_mono2 card_mono)
    have "li bs' i = ins bs i" using st i by simp
    then have "li bs i \<subset> li bs' i" using that sub i by blast
    then have "card (li bs i) < card (li bs' i)" by (simp add: psubset_card_mono)
    then show "\<exists>j \<in> {..<length bs}. 64 * bs_words nv - card (li bs' j) < 64 * bs_words nv - card (li bs j)"
      using i b [OF i] by (intro bexI [of _ i]) auto
  qed simp
  moreover have "room nv bs' = room nv bs" if "ins bs i = li bs i"
    using st that unfolding room_def len by (intro sum.cong) auto
  ultimately show ?thesis using grow sub by simp
qed

text \<open>What a block satisfies once its equations hold.\<close>

definition solved :: "ir_block list \<Rightarrow> nat \<Rightarrow> bool" where
  "solved bs i \<longleftrightarrow> lo bs i = outs bs i \<and> li bs i = ins bs i"

lemma outs_cong:
  assumes "map shape bs' = map shape bs" and "i < length bs" and "\<forall>s \<in> set (succ (bs ! i)). li bs' s = li bs s"
  shows "outs bs' i = outs bs i" and "ins bs' i = ins bs i"
  using assms(3) shape_succ [OF assms(1,2)] by (simp_all add: ins_def outs_def)

lemma solution_cong: "map shape bs' = map shape bs \<Longrightarrow> solution T bs' = solution T bs"
  using shape_succ [of bs' bs] map_eq_imp_length_eq [of shape bs' shape bs] by (auto simp: solution_def)

lemma live_block_below:
  assumes ok: "blocks_ok nv bs" and i: "i < length bs" and step: "live_block nv i (bs, c) = (bs', c')"
    and sol: "solution T bs" and b: "below T bs"
  shows "below T bs'"
proof -
  note st = live_block_step [OF ok i step]
  have len: "length bs' = length bs" using st map_eq_imp_length_eq by blast
  have "outs bs i \<subseteq> (\<Union>s \<in> set (succ (bs ! i)). T s)"
    using b blocks_okD [OF ok i] by (auto simp: outs_def below_def)
  then have "ins bs i \<subseteq> T i" using sol i unfolding ins_def solution_def by blast
  then show ?thesis using st b len by (auto simp: below_def)
qed

lemma live_fold:
  "\<lbrakk>fold (live_block nv) is (bs, c) = (bs', c'); \<forall>i \<in> set is. i < length bs; blocks_ok nv bs; growing bs\<rbrakk> \<Longrightarrow>
     blocks_ok nv bs' \<and> map shape bs' = map shape bs \<and> growing bs' \<and>
     (\<forall>T. solution T bs \<longrightarrow> below T bs \<longrightarrow> below T bs') \<and>
     room nv bs' \<le> room nv bs \<and> (c' \<longrightarrow> c \<or> room nv bs' < room nv bs) \<and>
     (\<not> c' \<longrightarrow> \<not> c \<and> (\<forall>i < length bs. i \<in> set is \<or> solved bs i \<longrightarrow> solved bs' i))"
proof (induction "is" arbitrary: bs c)
  case (Cons i "is")
  obtain bs1 c1 where b1: "live_block nv i (bs, c) = (bs1, c1)" by fastforce
  have i: "i < length bs" using Cons.prems(2) by simp
  note st = live_block_step [OF Cons.prems(3) i b1]
  note gr = live_block_grows [OF Cons.prems(3) i Cons.prems(4) b1]
  have sh: "map shape bs1 = map shape bs" using st by blast
  have len: "length bs1 = length bs" using sh map_eq_imp_length_eq by blast
  have IH: "blocks_ok nv bs' \<and> map shape bs' = map shape bs1 \<and> growing bs' \<and>
     (\<forall>T. solution T bs1 \<longrightarrow> below T bs1 \<longrightarrow> below T bs') \<and>
     room nv bs' \<le> room nv bs1 \<and> (c' \<longrightarrow> c1 \<or> room nv bs' < room nv bs1) \<and>
     (\<not> c' \<longrightarrow> \<not> c1 \<and> (\<forall>i < length bs1. i \<in> set is \<or> solved bs1 i \<longrightarrow> solved bs' i))"
    using Cons.prems b1 st gr len by (intro Cons.IH) simp_all
  have T: "below T bs'" if "solution T bs" "below T bs" for T
    using IH live_block_below [OF Cons.prems(3) i b1 that] solution_cong [OF sh, of T] that by blast
  have R: "room nv bs' \<le> room nv bs \<and> (c' \<longrightarrow> c \<or> room nv bs' < room nv bs)"
    using IH gr st by (auto split: if_splits)
  have S: "\<not> c \<and> (\<forall>j < length bs. j \<in> set (i # is) \<or> solved bs j \<longrightarrow> solved bs' j)" if nc: "\<not> c'"
  proof -
    have c1: "\<not> c1" using IH nc by blast
    then have c: "\<not> c" and e: "ins bs i = li bs i" using st by blast+
    have li1: "li bs1 j = li bs j" if "j < length bs" for j using st e that by simp
    have eq: "outs bs1 j = outs bs j" "ins bs1 j = ins bs j" if "j < length bs" for j
      using outs_cong [OF sh that] blocks_okD [OF Cons.prems(3) that] li1 by blast+
    have "solved bs1 i" using st e eq [OF i] i by (simp add: solved_def)
    moreover have "solved bs1 j" if "j < length bs" "solved bs j" for j
      using that st e eq [OF that(1)] by (auto simp: solved_def)
    ultimately show ?thesis using IH nc c len by auto
  qed
  show ?case using IH sh T R S by auto
qed auto

lemma live_loop_ends:
  "\<lbrakk>blocks_ok nv bs; growing bs\<rbrakk> \<Longrightarrow>
     \<exists>bs'. live_loop nv bs = Some bs' \<and> map shape bs' = map shape bs \<and> blocks_ok nv bs' \<and>
       (\<forall>T. solution T bs \<longrightarrow> below T bs \<longrightarrow> below T bs') \<and> (\<forall>i < length bs. solved bs' i)"
proof (induction "room nv bs" arbitrary: bs rule: less_induct)
  case less
  obtain bs1 c where p: "fold (live_block nv) (rev [0..<length bs]) (bs, False) = (bs1, c)" by fastforce
  note f = live_fold [OF p _ less.prems]
  have len: "length bs1 = length bs" using f map_eq_imp_length_eq by (metis atLeastLessThan_iff set_rev set_upt)
  have l: "live_loop nv bs = (if c then live_loop nv bs1 else Some bs1)"
    by (subst live_loop.simps) (simp add: live_pass_def p)
  show ?case
  proof (cases c)
    case True
    have "\<exists>bs'. live_loop nv bs1 = Some bs' \<and> map shape bs' = map shape bs1 \<and> blocks_ok nv bs' \<and>
       (\<forall>T. solution T bs1 \<longrightarrow> below T bs1 \<longrightarrow> below T bs') \<and> (\<forall>i < length bs1. solved bs' i)"
      using f True by (intro less.hyps) auto
    then show ?thesis using f True l len solution_cong [of bs1 bs] by auto
  next
    case False
    then show ?thesis using f l by (intro exI [of _ bs1]) auto
  qed
qed

section \<open>Liveness\<close>

definition blk :: "ir_func \<Rightarrow> nat \<Rightarrow> ir_block" where
  "blk f b = blocks f ! b"

text \<open>
  What the lowering promises: blocks are ranges of instructions, successors are blocks,
  registers are numbered below \<open>n_vregs\<close>.
\<close>

definition ir_wf :: "ir_func \<Rightarrow> bool" where
  "ir_wf f \<longleftrightarrow>
     (\<forall>b \<in> set (blocks f). bstart b \<le> bend b \<and> bend b \<le> length (insts f) \<and>
        (\<forall>s \<in> set (succ b). s < length (blocks f))) \<and>
     (\<forall>i \<in> set (insts f). inst_ok (n_vregs f) i)"

text \<open>
  \<open>live_at f b i v\<close>: from instruction \<open>i\<close> of block \<open>b\<close> (or its end) some path reads \<open>v\<close>
  before any instruction writes it.
\<close>

inductive live_at :: "ir_func \<Rightarrow> nat \<Rightarrow> nat \<Rightarrow> nat \<Rightarrow> bool" for f where
  live_read: "\<lbrakk>i < bend (blk f b); v \<in> reads (insts f ! i)\<rbrakk> \<Longrightarrow> live_at f b i v"
| live_step: "\<lbrakk>i < bend (blk f b); v \<notin> writes (insts f ! i); live_at f b (Suc i) v\<rbrakk> \<Longrightarrow> live_at f b i v"
| live_flow: "\<lbrakk>s \<in> set (succ (blk f b)); live_at f s (bstart (blk f s)) v\<rbrakk> \<Longrightarrow> live_at f b (bend (blk f b)) v"

inductive_cases live_at_cases: "live_at f b i v"

text \<open>The instructions of a block from \<open>i\<close> on.\<close>

definition tail :: "ir_func \<Rightarrow> nat \<Rightarrow> nat \<Rightarrow> ir_inst list" where
  "tail f b i = take (bend (blk f b) - i) (drop i (insts f))"

lemma tail_simps:
  "tail f b (bend (blk f b)) = []"
  "\<lbrakk>i < bend (blk f b); bend (blk f b) \<le> length (insts f)\<rbrakk> \<Longrightarrow> tail f b i = insts f ! i # tail f b (Suc i)"
  by (simp_all add: tail_def Cons_nth_drop_Suc [symmetric] Suc_diff_Suc [symmetric])

lemma written_simps [simp]: "written [] = {}" "written (i # is) = writes i \<union> written is"
  by (simp_all add: written_def)

lemma exposed_live:
  "\<lbrakk>v \<in> exposed (tail f b i); bend (blk f b) \<le> length (insts f); i \<le> bend (blk f b)\<rbrakk> \<Longrightarrow> live_at f b i v"
proof (induction "bend (blk f b) - i" arbitrary: i)
  case (Suc n)
  then show ?case by (auto simp: tail_simps intro: live_read live_step)
qed (simp add: tail_simps)

lemma through_live:
  "\<lbrakk>v \<notin> written (tail f b i); s \<in> set (succ (blk f b)); live_at f s (bstart (blk f s)) v;
    bend (blk f b) \<le> length (insts f); i \<le> bend (blk f b)\<rbrakk> \<Longrightarrow> live_at f b i v"
proof (induction "bend (blk f b) - i" arbitrary: i)
  case 0
  then have "i = bend (blk f b)" by simp
  then show ?case using 0 by (auto intro: live_flow)
next
  case (Suc n)
  then show ?case by (auto simp: tail_simps intro: live_step)
qed

lemma ir_wf_block:
  assumes "ir_wf f" and "b < length (blocks f)"
  shows "bstart (blk f b) \<le> bend (blk f b)" and "bend (blk f b) \<le> length (insts f)"
    and "\<forall>s \<in> set (succ (blk f b)). s < length (blocks f)"
  using assms unfolding ir_wf_def blk_def by auto

lemma init_block_bits:
  assumes wf: "ir_wf f" and b: "b < length (blocks f)"
  shows "bits (buse (init_block f (blk f b))) = exposed (tail f b (bstart (blk f b)))"
    and "bits (bdef (init_block f (blk f b))) = written (tail f b (bstart (blk f b)))"
    and "length (buse (init_block f (blk f b))) = bs_words (n_vregs f)"
    and "length (bdef (init_block f (blk f b))) = bs_words (n_vregs f)"
proof -
  have t: "block_insts f (blk f b) = tail f b (bstart (blk f b))"
    by (simp add: block_insts_def tail_def)
  have "\<forall>i \<in> set (tail f b (bstart (blk f b))). inst_ok (n_vregs f) i"
    using wf unfolding ir_wf_def tail_def by (meson in_set_dropD in_set_takeD)
  from use_def_walk_bits [OF this, of "bs_new (n_vregs f)" "bs_new (n_vregs f)"]
  show "bits (buse (init_block f (blk f b))) = exposed (tail f b (bstart (blk f b)))"
    "bits (bdef (init_block f (blk f b))) = written (tail f b (bstart (blk f b)))"
    "length (buse (init_block f (blk f b))) = bs_words (n_vregs f)"
    "length (bdef (init_block f (blk f b))) = bs_words (n_vregs f)"
    by (auto simp: init_block_def t Let_def split: prod.splits)
qed

lemma init_block_simps [simp]:
  "succ (init_block f b) = succ b" "bstart (init_block f b) = bstart b" "bend (init_block f b) = bend b"
  "live_in (init_block f b) = bs_new (n_vregs f)" "live_out (init_block f b) = bs_new (n_vregs f)"
  by (simp_all add: init_block_def Let_def case_prod_beta)

lemma ralow_liveness_live:
  assumes wf: "ir_wf f"
  shows "\<exists>bs. ralow_liveness f = Some (f\<lparr>blocks := bs\<rparr>) \<and> length bs = length (blocks f) \<and>
    (\<forall>b < length bs. bstart (bs ! b) = bstart (blk f b) \<and> bend (bs ! b) = bend (blk f b) \<and>
       succ (bs ! b) = succ (blk f b) \<and>
       length (live_in (bs ! b)) = bs_words (n_vregs f) \<and> length (live_out (bs ! b)) = bs_words (n_vregs f) \<and>
       li bs b = {v. live_at f b (bstart (blk f b)) v} \<and> lo bs b = {v. live_at f b (bend (blk f b)) v})"
proof -
  let ?n = "length (blocks f)" and ?bs0 = "map (init_block f) (blocks f)"
  have nth0: "?bs0 ! b = init_block f (blk f b)" if "b < ?n" for b using that by (simp add: blk_def)
  have ok0: "blocks_ok (n_vregs f) ?bs0"
    unfolding blocks_ok_def
  proof
    fix x assume "x \<in> set ?bs0"
    then obtain b where b: "b < ?n" "x = init_block f (blk f b)" by (auto simp: in_set_conv_nth blk_def)
    then show "length (buse x) = bs_words (n_vregs f) \<and> length (bdef x) = bs_words (n_vregs f) \<and>
        length (live_in x) = bs_words (n_vregs f) \<and> length (live_out x) = bs_words (n_vregs f) \<and>
        (\<forall>s \<in> set (succ x). s < length ?bs0)"
      using init_block_bits(3,4) [OF wf b(1)] ir_wf_block(3) [OF wf b(1)] by simp
  qed
  have empty: "li ?bs0 b = {}" if "b < ?n" for b using nth0 [OF that] by simp
  have gr0: "growing ?bs0" using empty by (simp add: growing_def)
  obtain bs where bs: "live_loop (n_vregs f) ?bs0 = Some bs" "map shape bs = map shape ?bs0" "blocks_ok (n_vregs f) bs"
      "\<forall>T. solution T ?bs0 \<longrightarrow> below T ?bs0 \<longrightarrow> below T bs" "\<forall>b < ?n. solved bs b"
    using live_loop_ends [OF ok0 gr0] by auto
  have len: "length bs = ?n" using bs(2) map_eq_imp_length_eq by fastforce
  have sh: "bstart (bs ! b) = bstart (blk f b) \<and> bend (bs ! b) = bend (blk f b) \<and> succ (bs ! b) = succ (blk f b)"
    and ud: "bits (buse (bs ! b)) = exposed (tail f b (bstart (blk f b)))"
      "bits (bdef (bs ! b)) = written (tail f b (bstart (blk f b)))" if b: "b < ?n" for b
    using shape_succ [OF bs(2), of b] nth0 [OF b] init_block_bits [OF wf b] b by simp_all
  define T where "T b = {v. live_at f b (bstart (blk f b)) v}" for b
  have "solution T ?bs0"
    unfolding solution_def
  proof (intro allI impI subsetI)
    fix b v assume b: "b < length ?bs0"
      and v: "v \<in> bits (buse (?bs0 ! b)) \<union> ((\<Union>s \<in> set (succ (?bs0 ! b)). T s) - bits (bdef (?bs0 ! b)))"
    have b': "b < ?n" using b by simp
    show "v \<in> T b"
      using v exposed_live [of v f b "bstart (blk f b)"] through_live [of v f b "bstart (blk f b)"]
        ir_wf_block [OF wf b'] nth0 [OF b'] init_block_bits [OF wf b']
      by (auto simp: T_def)
  qed
  moreover have "below T ?bs0" using empty by (simp add: below_def)
  ultimately have "below T bs" using bs(4) by blast
  then have sound: "v \<in> li bs b \<Longrightarrow> live_at f b (bstart (blk f b)) v" if "b < ?n" for b v
    using that len by (auto simp: below_def T_def)
  have eqs: "lo bs b = (\<Union>s \<in> set (succ (blk f b)). li bs s)"
    "li bs b = exposed (tail f b (bstart (blk f b))) \<union> (lo bs b - written (tail f b (bstart (blk f b))))"
    if b: "b < ?n" for b
    using bs(5) b sh [OF b] ud [OF b] by (auto simp: solved_def outs_def ins_def)
  have complete: "live_at f b i v \<Longrightarrow> b < ?n \<Longrightarrow> i \<le> bend (blk f b) \<Longrightarrow>
      v \<in> exposed (tail f b i) \<union> (lo bs b - written (tail f b i))" for b i v
  proof (induction rule: live_at.induct)
    case (live_read i b v)
    then show ?case using ir_wf_block(2) [OF wf] by (simp add: tail_simps)
  next
    case (live_step i b v)
    then show ?case using ir_wf_block(2) [OF wf] by (auto simp: tail_simps)
  next
    case (live_flow s b v)
    have s: "s < ?n" using ir_wf_block(3) [OF wf] live_flow by blast
    have "v \<in> li bs s" using live_flow.IH [OF s] ir_wf_block(1) [OF wf s] eqs(2) [OF s] by blast
    then show ?case using eqs(1) live_flow by (auto simp: tail_simps)
  qed
  have final: "li bs b = {v. live_at f b (bstart (blk f b)) v} \<and> lo bs b = {v. live_at f b (bend (blk f b)) v}"
    if b: "b < ?n" for b
  proof
    show in_eq: "li bs b = {v. live_at f b (bstart (blk f b)) v}"
      using sound [OF b] complete [of b "bstart (blk f b)"] eqs(2) [OF b] ir_wf_block(1) [OF wf b] b by blast
    have "v \<in> lo bs b \<Longrightarrow> live_at f b (bend (blk f b)) v" for v
      using eqs(1) [OF b] sound ir_wf_block(3) [OF wf b] by (auto intro: live_flow)
    moreover have "live_at f b (bend (blk f b)) v \<Longrightarrow> v \<in> lo bs b" for v
      using complete [of b "bend (blk f b)" v] b by (simp add: tail_simps)
    ultimately show "lo bs b = {v. live_at f b (bend (blk f b)) v}" by blast
  qed
  have "length (live_in (bs ! b)) = bs_words (n_vregs f) \<and> length (live_out (bs ! b)) = bs_words (n_vregs f)"
    if "b < ?n" for b using blocks_okD [OF bs(3)] that len by simp
  then show ?thesis
    using bs(1) len sh final by (intro exI [of _ bs]) (simp add: ralow_liveness_def)
qed

end
