(* ===== verification/XRaAllocProofs.thy ===== *)
theory XRaAllocProofs
  imports XRaAlloc XRaLiveProofs "HOL-Library.Multiset"
begin

text \<open>
  The intervals cover every point where a register is live or written, and the scan never
  gives one place to two registers whose intervals meet. Together: registers live at the same
  instruction have different places.
\<close>

section \<open>Intervals\<close>

definition covers :: "live_range list \<Rightarrow> nat \<Rightarrow> int \<Rightarrow> bool" where
  "covers rs v i \<longleftrightarrow> v < length rs \<and> lr_start (rs ! v) \<le> i \<and> i \<le> lr_end (rs ! v)"

text \<open>Ranges only get wider.\<close>

definition wider :: "live_range list \<Rightarrow> live_range list \<Rightarrow> bool" where
  "wider rs rs' \<longleftrightarrow>
     length rs' = length rs \<and>
     (\<forall>v < length rs. vreg (rs' ! v) = vreg (rs ! v) \<and>
        lr_start (rs' ! v) \<le> lr_start (rs ! v) \<and> lr_end (rs ! v) \<le> lr_end (rs' ! v))"

lemma wider_refl [simp]: "wider rs rs"
  by (simp add: wider_def)

lemma wider_trans: "wider a b \<Longrightarrow> wider b c \<Longrightarrow> wider a c"
  unfolding wider_def by (metis order_trans)

lemma covers_wider: "covers rs v i \<Longrightarrow> wider rs rs' \<Longrightarrow> covers rs' v i"
  unfolding covers_def wider_def by (metis order_trans)

lemma wider_fold:
  "(\<And>x rs. x \<in> set xs \<Longrightarrow> wider rs (g x rs)) \<Longrightarrow> wider rs (fold g xs rs)"
proof (induction xs arbitrary: rs)
  case (Cons x xs)
  then have "wider rs (g x rs)" "wider (g x rs) (fold g xs (g x rs))" by simp_all
  then show ?case by (simp add: wider_trans)
qed simp

lemma fold_visits:
  "\<lbrakk>\<And>x rs. x \<in> set xs \<Longrightarrow> wider rs (g x rs); x \<in> set xs\<rbrakk> \<Longrightarrow>
     \<exists>rs1. length rs1 = length rs \<and> wider (g x rs1) (fold g xs rs)"
proof (induction xs arbitrary: rs)
  case (Cons y xs)
  have w: "wider rs (g y rs)" using Cons.prems(1) by simp
  show ?case
  proof (cases "x = y")
    case True
    then show ?thesis using wider_fold [of xs g "g y rs"] Cons.prems(1) by (intro exI [of _ rs]) simp
  next
    case False
    then obtain rs1 where "length rs1 = length (g y rs)" "wider (g x rs1) (fold g xs (g y rs))"
      using Cons.IH [of "g y rs"] Cons.prems by auto
    then show ?thesis using w by (intro exI [of _ rs1]) (simp add: wider_def)
  qed
qed simp

lemma wider_touch: "wider rs (touch i v rs)"
proof (cases "v < length rs")
  case True
  then show ?thesis by (simp add: wider_def touch_def stretch_def nth_list_update)
qed (simp add: touch_def list_update_beyond)

lemma covers_touch: "v < length rs \<Longrightarrow> covers (touch i v rs) v i"
  by (auto simp: covers_def touch_def stretch_def)

lemma wider_edges: "wider rs (block_edges b v rs)"
  using wider_touch wider_trans [OF wider_touch wider_touch] by (auto simp: block_edges_def Let_def)

lemma wider_inst: "wider rs (inst_ranges f ii rs)"
proof -
  have "wider rs (fold (\<lambda>u. touch (int ii) (nat u)) (ir_inst_reads (insts f ! ii)) rs)"
    by (intro wider_fold wider_touch)
  then show ?thesis using wider_touch wider_trans by (auto simp: inst_ranges_def Let_def)
qed

lemma wider_block: "wider rs (block_ranges f b rs)"
  unfolding block_ranges_def by (rule wider_trans [OF wider_fold wider_fold]) (rule wider_edges wider_inst)+

lemma covers_inst:
  assumes "v \<in> reads (insts f ! ii) \<union> writes (insts f ! ii)" and "v < length rs"
  shows "covers (inst_ranges f ii rs) v (int ii)"
proof -
  let ?i = "insts f ! ii" and ?g = "\<lambda>u. touch (int ii) (nat u)"
  define rs1 where "rs1 = fold ?g (ir_inst_reads ?i) rs"
  have w: "wider rs rs1" unfolding rs1_def by (intro wider_fold wider_touch)
  have d: "inst_ranges f ii rs = (if 0 \<le> dst ?i then touch (int ii) (nat (dst ?i)) rs1 else rs1)"
    by (simp add: inst_ranges_def rs1_def Let_def)
  show ?thesis
  proof (cases "v \<in> reads ?i")
    case True
    then obtain u where u: "u \<in> set (ir_inst_reads ?i)" "v = nat u" by (auto simp: reads_def)
    obtain rs2 where "length rs2 = length rs" "wider (?g u rs2) rs1"
      using fold_visits [of "ir_inst_reads ?i" ?g u rs] u(1) wider_touch by (auto simp: rs1_def)
    then have "covers rs1 v (int ii)" using covers_touch u(2) assms(2) covers_wider by metis
    then show ?thesis using d covers_wider wider_touch by auto
  next
    case False
    then have "v \<in> writes ?i" using assms(1) by blast
    then show ?thesis
      using d covers_touch [of v rs1 "int ii"] assms(2) w by (auto simp: writes_def wider_def split: if_splits)
  qed
qed

definition ranges_cover :: "ir_func \<Rightarrow> live_range list \<Rightarrow> bool" where
  "ranges_cover f rs \<longleftrightarrow>
     (\<forall>b \<in> set (blocks f). \<forall>v < n_vregs f.
        (bs_test (live_in b) v \<longrightarrow> covers rs v (int (bstart b))) \<and>
        (bs_test (live_out b) v \<longrightarrow> covers rs v (int (bend b) - 1)) \<and>
        (\<forall>ii \<in> {bstart b..<bend b}. v \<in> reads (insts f ! ii) \<union> writes (insts f ! ii) \<longrightarrow> covers rs v (int ii)))"

lemma covers_edges:
  assumes "v < length rs"
  shows "bs_test (live_in b) v \<Longrightarrow> covers (block_edges b v rs) v (int (bstart b))"
    and "bs_test (live_out b) v \<Longrightarrow> covers (block_edges b v rs) v (int (bend b) - 1)"
proof -
  show "covers (block_edges b v rs) v (int (bstart b))" if "bs_test (live_in b) v"
    using that covers_touch [OF assms] covers_wider [OF covers_touch [OF assms] wider_touch]
    by (simp add: block_edges_def Let_def)
  show "covers (block_edges b v rs) v (int (bend b) - 1)" if "bs_test (live_out b) v"
    using that covers_touch [of v rs] covers_touch [of v "touch (int (bstart b)) v rs"] assms wider_touch [of rs]
    by (auto simp: block_edges_def wider_def Let_def)
qed

lemma covers_block:
  assumes v: "v < length rs" "v < n_vregs f"
  shows "bs_test (live_in b) v \<Longrightarrow> covers (block_ranges f b rs) v (int (bstart b))"
    and "bs_test (live_out b) v \<Longrightarrow> covers (block_ranges f b rs) v (int (bend b) - 1)"
    and "ii \<in> {bstart b..<bend b} \<Longrightarrow> v \<in> reads (insts f ! ii) \<union> writes (insts f ! ii) \<Longrightarrow>
      covers (block_ranges f b rs) v (int ii)"
proof -
  define rs1 where "rs1 = fold (block_edges b) [0..<n_vregs f] rs"
  have e: "block_ranges f b rs = fold (inst_ranges f) [bstart b..<bend b] rs1"
    by (simp add: block_ranges_def rs1_def)
  have w1: "wider rs1 (block_ranges f b rs)" unfolding e by (intro wider_fold wider_inst)
  have w0: "wider rs rs1" unfolding rs1_def by (intro wider_fold wider_edges)
  obtain rs2 where rs2: "length rs2 = length rs" "wider (block_edges b v rs2) rs1"
    using fold_visits [of "[0..<n_vregs f]" "block_edges b" v rs] wider_edges v(2) by (auto simp: rs1_def)
  have v2: "v < length rs2" using rs2(1) v(1) by simp
  show "covers (block_ranges f b rs) v (int (bstart b))" if "bs_test (live_in b) v"
    using covers_edges(1) [OF v2 that] covers_wider rs2(2) w1 by blast
  show "covers (block_ranges f b rs) v (int (bend b) - 1)" if "bs_test (live_out b) v"
    using covers_edges(2) [OF v2 that] covers_wider rs2(2) w1 by blast
  show "covers (block_ranges f b rs) v (int ii)"
    if ii: "ii \<in> {bstart b..<bend b}" "v \<in> reads (insts f ! ii) \<union> writes (insts f ! ii)"
  proof -
    obtain rs3 where "length rs3 = length rs1" "wider (inst_ranges f ii rs3) (block_ranges f b rs)"
      using fold_visits [of "[bstart b..<bend b]" "inst_ranges f" ii rs1] wider_inst ii(1) by (auto simp: e)
    moreover have "length rs1 = length rs" using w0 by (simp add: wider_def)
    ultimately show ?thesis using covers_inst [OF ii(2)] covers_wider v(1) by metis
  qed
qed

lemma build_intervals_cover:
  "ranges_cover f (build_intervals f) \<and> length (build_intervals f) = n_vregs f \<and>
   (\<forall>v < n_vregs f. vreg (build_intervals f ! v) = v)"
proof -
  let ?r0 = "map (\<lambda>v. \<lparr>vreg = v, lr_start = INT32_MAX, lr_end = -1\<rparr>) [0..<n_vregs f]"
  have w: "wider ?r0 (build_intervals f)"
    unfolding build_intervals_def by (intro wider_fold wider_block)
  have "ranges_cover f (build_intervals f)"
    unfolding ranges_cover_def
  proof (intro ballI allI impI)
    fix b v assume b: "b \<in> set (blocks f)" and v: "v < n_vregs f"
    obtain rs1 where rs1: "length rs1 = length ?r0" "wider (block_ranges f b rs1) (build_intervals f)"
      using fold_visits [of "blocks f" "block_ranges f" b ?r0] wider_block b by (auto simp: build_intervals_def)
    note up = covers_wider [OF _ rs1(2)]
    have v1: "v < length rs1" using rs1(1) v by simp
    show "(bs_test (live_in b) v \<longrightarrow> covers (build_intervals f) v (int (bstart b))) \<and>
        (bs_test (live_out b) v \<longrightarrow> covers (build_intervals f) v (int (bend b) - 1)) \<and>
        (\<forall>ii \<in> {bstart b..<bend b}. v \<in> reads (insts f ! ii) \<union> writes (insts f ! ii) \<longrightarrow>
           covers (build_intervals f) v (int ii))"
      using covers_block [OF v1 v, THEN up] by blast
  qed
  then show ?thesis using w by (simp add: wider_def)
qed

section \<open>Occupied registers\<close>

text \<open>The registers that hold a value at instruction \<open>i\<close>: live there, or written by it.\<close>

definition occupied :: "ir_func \<Rightarrow> nat \<Rightarrow> nat \<Rightarrow> nat set" where
  "occupied f b i = {v. live_at f b i v} \<union> writes (insts f ! i)"

text \<open>Going back from a live point: to the start of the block, or to a write.\<close>

lemma live_backwards:
  "\<lbrakk>live_at f b i v; bstart (blk f b) \<le> i; i \<le> bend (blk f b)\<rbrakk> \<Longrightarrow>
     live_at f b (bstart (blk f b)) v \<or> (\<exists>k. bstart (blk f b) \<le> k \<and> k < i \<and> v \<in> writes (insts f ! k))"
proof (induction i)
  case (Suc i)
  consider "bstart (blk f b) = Suc i" | "bstart (blk f b) \<le> i" "v \<in> writes (insts f ! i)"
    | "bstart (blk f b) \<le> i" "v \<notin> writes (insts f ! i)"
    using Suc.prems(2) by linarith
  then show ?case
  proof cases
    case 1
    then show ?thesis using Suc.prems(1) by simp
  next
    case 2
    then show ?thesis by auto
  next
    case 3
    have "live_at f b i v"
      by (rule live_step) (use 3 Suc.prems in simp_all)
    then have "live_at f b (bstart (blk f b)) v \<or> (\<exists>k. bstart (blk f b) \<le> k \<and> k < i \<and> v \<in> writes (insts f ! k))"
      using Suc.IH [OF _ 3(1)] Suc.prems(3) by simp
    then show ?thesis by (meson less_SucI)
  qed
qed simp

text \<open>Going forward: to a read, or to the end of the block.\<close>

lemma live_forwards:
  "\<lbrakk>live_at f b i v; i \<le> bend (blk f b)\<rbrakk> \<Longrightarrow>
     live_at f b (bend (blk f b)) v \<or> (\<exists>k. i \<le> k \<and> k < bend (blk f b) \<and> v \<in> reads (insts f ! k))"
proof (induction "bend (blk f b) - i" arbitrary: i)
  case (Suc n)
  from Suc.prems(1) show ?case
  proof (cases rule: live_at.cases)
    case live_step
    have "n = bend (blk f b) - Suc i" "Suc i \<le> bend (blk f b)" using Suc.hyps(2) live_step(1) by simp_all
    then have "live_at f b (bend (blk f b)) v \<or> (\<exists>k. Suc i \<le> k \<and> k < bend (blk f b) \<and> v \<in> reads (insts f ! k))"
      using Suc.hyps(1) live_step(3) by blast
    then show ?thesis by (meson Suc_leD)
  qed (use Suc in auto)
qed auto

lemma reads_writes_bound:
  "\<lbrakk>ir_wf f; i < length (insts f); v \<in> reads (insts f ! i) \<union> writes (insts f ! i)\<rbrakk> \<Longrightarrow> v < n_vregs f"
  unfolding ir_wf_def inst_ok_def using nth_mem by blast

lemma live_at_bound:
  "live_at f b i v \<Longrightarrow> ir_wf f \<Longrightarrow> b < length (blocks f) \<Longrightarrow> v < n_vregs f"
proof (induction rule: live_at.induct)
  case (live_read i b v)
  then show ?case using ir_wf_block(2) [of f b] reads_writes_bound [of f i v] by simp
next
  case (live_flow s b v)
  then show ?case using ir_wf_block(3) [of f b] by blast
qed blast

text \<open>With the liveness the analysis found, the ranges cover every occupied point.\<close>

lemma occupied_covered:
  assumes wf: "ir_wf f" and lv: "ralow_liveness f = Some f'" and b: "b < length (blocks f)"
    and i: "bstart (blk f b) \<le> i" "i < bend (blk f b)" and v: "v \<in> occupied f b i"
    and cov: "ranges_cover f' rs"
  shows "covers rs v (int i)"
proof -
  obtain bs where bs: "f' = f\<lparr>blocks := bs\<rparr>" "length bs = length (blocks f)"
      "\<forall>b < length bs. bstart (bs ! b) = bstart (blk f b) \<and> bend (bs ! b) = bend (blk f b) \<and>
       succ (bs ! b) = succ (blk f b) \<and>
       length (live_in (bs ! b)) = bs_words (n_vregs f) \<and> length (live_out (bs ! b)) = bs_words (n_vregs f) \<and>
       li bs b = {v. live_at f b (bstart (blk f b)) v} \<and> lo bs b = {v. live_at f b (bend (blk f b)) v}"
    using ralow_liveness_live [OF wf] lv by auto
  note blocks = ir_wf_block [OF wf b]
  have vb: "v < n_vregs f"
    using v live_at_bound [OF _ wf b] reads_writes_bound [OF wf, of i v] i blocks by (auto simp: occupied_def)
  have in_bits: "x < n_vregs f \<Longrightarrow> length w = bs_words (n_vregs f) \<Longrightarrow> x \<in> bits w \<longleftrightarrow> bs_test w x" for x w
    using bs_words_enough by (auto simp: bits_def)
  have bb: "length (live_in (bs ! b)) = bs_words (n_vregs f)" "length (live_out (bs ! b)) = bs_words (n_vregs f)"
    "li bs b = {v. live_at f b (bstart (blk f b)) v}" "lo bs b = {v. live_at f b (bend (blk f b)) v}"
    using bs(2,3) b by simp_all
  have t: "bs_test (live_in (bs ! b)) v \<longleftrightarrow> live_at f b (bstart (blk f b)) v"
    "bs_test (live_out (bs ! b)) v \<longleftrightarrow> live_at f b (bend (blk f b)) v"
    using in_bits [OF vb bb(1)] in_bits [OF vb bb(2)] bb(3,4) by simp_all
  have mem: "bs ! b \<in> set (blocks f')" using bs(1,2) b by simp
  have c: "live_at f b (bstart (blk f b)) v \<Longrightarrow> covers rs v (int (bstart (blk f b)))"
    "live_at f b (bend (blk f b)) v \<Longrightarrow> covers rs v (int (bend (blk f b)) - 1)"
    "\<And>k. \<lbrakk>bstart (blk f b) \<le> k; k < bend (blk f b); v \<in> reads (insts f ! k) \<union> writes (insts f ! k)\<rbrakk> \<Longrightarrow> covers rs v (int k)"
    using cov [unfolded ranges_cover_def, rule_format, OF mem, of v] vb t bs(1,2,3) b by auto
  show ?thesis
  proof (cases "live_at f b i v")
    case True
    have "\<exists>k. covers rs v (int k) \<and> k \<le> i"
      using live_backwards [OF True] i c(1) c(3) by (meson UnI2 less_imp_le order_refl order_less_trans order_trans)
    then obtain k where k: "covers rs v (int k)" "k \<le> i" by blast
    have "\<exists>j. covers rs v j \<and> int i \<le> j"
      using live_forwards [OF True less_imp_le [OF i(2)]]
    proof (elim disjE exE conjE)
      assume "live_at f b (bend (blk f b)) v"
      then show ?thesis using c(2) i by (intro exI [of _ "int (bend (blk f b)) - 1"]) auto
    next
      fix j assume "i \<le> j" "j < bend (blk f b)" "v \<in> reads (insts f ! j)"
      then show ?thesis using c(3) [of j] i by (intro exI [of _ "int j"]) auto
    qed
    then obtain j where "covers rs v j" "int i \<le> j" by blast
    then show ?thesis using k unfolding covers_def by linarith
  next
    case False
    then show ?thesis using v c(3) [of i] i by (auto simp: occupied_def)
  qed
qed

section \<open>The scan\<close>

lemma int8_small: "n < 128 \<Longrightarrow> int8 n = int n"
  unfolding int8_def sint_uint uint_word_of_int_eq
  by (simp add: signed_take_bit_take_bit signed_take_bit_int_eq_self)

text \<open>
  After the ranges \<open>ds\<close>, with none of the rest starting before \<open>t\<close>: the three registers are
  free or active, once each; a register is held by the active range or was, by one that ended
  before \<open>t\<close>; every range has a register or a slot; slots are distinct; ranges that meet have
  different registers.
\<close>

definition phys_ok :: "ra_state \<Rightarrow> bool" where
  "phys_ok s \<longleftrightarrow>
     distinct (free_regs s @ map snd (active s)) \<and>
     set (free_regs s) \<union> snd ` set (active s) = {..<RA_N_PHYS}"

definition regs_ok :: "live_range set \<Rightarrow> int \<Rightarrow> ra_state \<Rightarrow> bool" where
  "regs_ok ds t s \<longleftrightarrow>
     (\<forall>(r, p) \<in> set (active s). r \<in> ds \<and> reg s ! vreg r = int p) \<and>
     (\<forall>r \<in> ds. reg s ! vreg r \<noteq> -1 \<longrightarrow>
        (r, nat (reg s ! vreg r)) \<in> set (active s) \<or>
        lr_end r < t \<and> reg s ! vreg r \<in> {0..<int RA_N_PHYS}) \<and>
     (\<forall>r \<in> ds. \<forall>q \<in> ds. r \<noteq> q \<longrightarrow> reg s ! vreg r = reg s ! vreg q \<longrightarrow> reg s ! vreg r \<noteq> -1 \<longrightarrow>
        lr_end r < lr_start q \<or> lr_end q < lr_start r)"

definition slots_ok :: "nat \<Rightarrow> live_range set \<Rightarrow> ra_state \<Rightarrow> bool" where
  "slots_ok nv ds s \<longleftrightarrow>
     n_spill_slots s \<le> card ds \<and>
     (\<forall>v < nv. spill s ! v \<noteq> -1 \<longrightarrow> 0 \<le> spill s ! v \<and> spill s ! v < int (n_spill_slots s)) \<and>
     (\<forall>u < nv. \<forall>v < nv. spill s ! u = spill s ! v \<longrightarrow> spill s ! u \<noteq> -1 \<longrightarrow> u = v) \<and>
     (\<forall>r \<in> ds. reg s ! vreg r = -1 \<longleftrightarrow> spill s ! vreg r \<noteq> -1)"

definition scan_ok :: "nat \<Rightarrow> live_range set \<Rightarrow> int \<Rightarrow> ra_state \<Rightarrow> bool" where
  "scan_ok nv ds t s \<longleftrightarrow>
     length (reg s) = nv \<and> length (spill s) = nv \<and> finite ds \<and> inj_on vreg ds \<and>
     (\<forall>r \<in> ds. vreg r < nv \<and> lr_start r \<le> t) \<and>
     (\<forall>v < nv. v \<notin> vreg ` ds \<longrightarrow> reg s ! v = -1 \<and> spill s ! v = -1) \<and>
     phys_ok s \<and> regs_ok ds t s \<and> slots_ok nv ds s"

lemma scan_ok_init: "scan_ok nv {} t (ra_init nv)"
  by (auto simp: scan_ok_def ra_init_def phys_ok_def regs_ok_def slots_ok_def)

lemma expire_phys:
  assumes "phys_ok s"
  shows "phys_ok (expire cur s)"
proof -
  let ?P = "\<lambda>(r, p :: nat). lr_end r < lr_start cur"
  have c: "(case x of (r, p) \<Rightarrow> \<not> lr_end r < lr_start cur) = (\<not> ?P x)" for x :: "live_range \<times> nat"
    by (cases x) simp
  have m: "mset (map snd (filter ?P xs)) + mset (map snd (filter (\<lambda>x. \<not> ?P x) xs)) = mset (map snd xs)" for xs
    by (induction xs) auto
  have e: "mset (free_regs (expire cur s) @ map snd (active (expire cur s))) =
      mset (free_regs s @ map snd (active s))"
    using m [of "active s"] by (simp add: expire_def c union_assoc [symmetric])
  then have "set (free_regs (expire cur s) @ map snd (active (expire cur s))) =
      set (free_regs s @ map snd (active s))" by (rule mset_eq_setD)
  then show ?thesis
    using assms mset_eq_imp_distinct_iff [OF e] by (simp add: phys_ok_def)
qed

lemma expire_simps [simp]:
  "reg (expire cur s) = reg s" "spill (expire cur s) = spill s" "n_spill_slots (expire cur s) = n_spill_slots s"
  "set (active (expire cur s)) = {x \<in> set (active s). \<not> lr_end (fst x) < lr_start cur}"
  by (auto simp: expire_def)

lemma expire_regs:
  assumes r: "regs_ok ds t s" and p: "phys_ok s" and t: "t \<le> lr_start cur"
  shows "regs_ok ds (lr_start cur) (expire cur s)"
proof -
  have b: "p < RA_N_PHYS" if "(r, p) \<in> set (active s)" for r p
    using p that unfolding phys_ok_def by force
  have "(r, nat (reg s ! vreg r)) \<in> set (active s) \<and> \<not> lr_end r < lr_start cur \<or>
      lr_end r < lr_start cur \<and> reg s ! vreg r \<in> {0..<int RA_N_PHYS}"
    if rd: "r \<in> ds" "reg s ! vreg r \<noteq> -1" for r
  proof -
    consider "(r, nat (reg s ! vreg r)) \<in> set (active s)" | "lr_end r < t" "reg s ! vreg r \<in> {0..<int RA_N_PHYS}"
      using r rd unfolding regs_ok_def by blast
    then show ?thesis
    proof cases
      case 1
      have "reg s ! vreg r = int (nat (reg s ! vreg r))" using r 1 unfolding regs_ok_def by blast
      then have "0 \<le> reg s ! vreg r" by linarith
      then show ?thesis using 1 b [OF 1] by auto
    qed (use t in auto)
  qed
  then show ?thesis using r unfolding regs_ok_def by (simp add: case_prod_beta)
qed

lemma expire_ok:
  assumes "scan_ok nv ds t s" and "t \<le> lr_start cur"
  shows "scan_ok nv ds (lr_start cur) (expire cur s)"
proof -
  have "phys_ok (expire cur s)" using assms(1) expire_phys by (simp add: scan_ok_def)
  moreover have "regs_ok ds (lr_start cur) (expire cur s)"
    using assms expire_regs [of ds t s cur] by (simp add: scan_ok_def)
  moreover have "slots_ok nv ds (expire cur s)" using assms(1) by (simp add: scan_ok_def slots_ok_def)
  moreover have "\<forall>r \<in> ds. lr_start r \<le> lr_start cur" using assms by (auto simp: scan_ok_def intro: order_trans)
  ultimately show ?thesis using assms(1) by (simp add: scan_ok_def)
qed

text \<open>The step's three outcomes, from a state in which nothing active has expired.\<close>

lemma phys_small:
  assumes "phys_ok s"
  shows "p \<in> set (free_regs s) \<Longrightarrow> p < 3" and "(r, p) \<in> set (active s) \<Longrightarrow> p < 3"
  using assms unfolding phys_ok_def RA_N_PHYS_def by force+

definition take_reg :: "live_range \<Rightarrow> ra_state \<Rightarrow> ra_state" where
  "take_reg cur s =
     s\<lparr>free_regs := butlast (free_regs s), reg := (reg s)[vreg cur := int8 (last (free_regs s))],
       active := active s @ [(cur, last (free_regs s))]\<rparr>"

definition evict :: "nat \<Rightarrow> live_range \<Rightarrow> ra_state \<Rightarrow> ra_state" where
  "evict w cur s =
     s\<lparr>reg := ((reg s)[vreg (fst (active s ! w)) := -1])[vreg cur := int8 (snd (active s ! w))],
       spill := (spill s)[vreg (fst (active s ! w)) := int8 (n_spill_slots s)],
       n_spill_slots := Suc (n_spill_slots s),
       active := (active s)[w := (cur, snd (active s ! w))]\<rparr>"

definition spill_cur :: "live_range \<Rightarrow> ra_state \<Rightarrow> ra_state" where
  "spill_cur cur s =
     s\<lparr>spill := (spill s)[vreg cur := int8 (n_spill_slots s)], n_spill_slots := Suc (n_spill_slots s)\<rparr>"

lemma alloc_step_cases:
  "alloc_step cur s =
     (let e = expire cur s; w = worst_active (active e)
      in if free_regs e \<noteq> [] then take_reg cur e
         else if lr_end cur < lr_end (fst (active e ! w)) then evict w cur e else spill_cur cur e)"
  by (simp add: alloc_step_def Let_def take_reg_def evict_def spill_cur_def case_prod_beta)

definition fresh :: "nat \<Rightarrow> live_range set \<Rightarrow> live_range \<Rightarrow> bool" where
  "fresh nv ds cur \<longleftrightarrow> vreg cur < nv \<and> vreg cur \<notin> vreg ` ds"

lemma take_reg_ok:
  assumes ok: "scan_ok nv ds (lr_start cur) s" and fr: "free_regs s \<noteq> []" and new: "fresh nv ds cur"
  shows "scan_ok nv (insert cur ds) (lr_start cur) (take_reg cur s)"
proof -
  let ?p = "last (free_regs s)" and ?v = "vreg cur" and ?s = "take_reg cur s"
  have ph: "phys_ok s" and rg: "regs_ok ds (lr_start cur) s" and sl: "slots_ok nv ds s"
    and len: "length (reg s) = nv" "length (spill s) = nv" using ok by (simp_all add: scan_ok_def)
  have pin: "?p \<in> set (free_regs s)" using fr by simp
  then have p: "?p < 3" by (rule phys_small(1) [OF ph])
  have r: "reg ?s = (reg s)[?v := int ?p]" using p by (simp add: take_reg_def int8_small)
  have rv: "reg ?s ! ?v = int ?p" using r new len by (simp add: fresh_def)
  have rd: "reg ?s ! vreg x = reg s ! vreg x" "x \<noteq> cur" if "x \<in> ds" for x
  proof -
    have "vreg x \<noteq> ?v" using that new unfolding fresh_def by (metis image_eqI)
    then show "reg ?s ! vreg x = reg s ! vreg x" "x \<noteq> cur" using r by auto
  qed
  have a: "set (active ?s) = insert (cur, ?p) (set (active s))" by (simp add: take_reg_def)
  obtain xs q where xs: "free_regs s = xs @ [q]" using fr by (metis rev_exhaust)
  have ph': "phys_ok ?s"
    using ph xs by (auto simp: phys_ok_def take_reg_def)
  have old: "lr_end x < lr_start cur" if "x \<in> ds" "reg s ! vreg x = int ?p" for x
  proof -
    have "(x, ?p) \<notin> set (active s)" using ph pin unfolding phys_ok_def by force
    then show ?thesis using rg that unfolding regs_ok_def by fastforce
  qed
  have "regs_ok (insert cur ds) (lr_start cur) ?s"
    unfolding regs_ok_def
  proof (intro conjI ballI impI)
    fix x assume "x \<in> set (active ?s)"
    then show "case x of (r, p) \<Rightarrow> r \<in> insert cur ds \<and> reg ?s ! vreg r = int p"
      using rg rv rd a unfolding regs_ok_def by force
  next
    fix x assume "x \<in> insert cur ds" "reg ?s ! vreg x \<noteq> -1"
    then show "(x, nat (reg ?s ! vreg x)) \<in> set (active ?s) \<or>
        lr_end x < lr_start cur \<and> reg ?s ! vreg x \<in> {0..<int RA_N_PHYS}"
      using rg rv rd a unfolding regs_ok_def by (cases "x = cur") auto
  next
    fix x y assume xy: "x \<in> insert cur ds" "y \<in> insert cur ds" "x \<noteq> y" "reg ?s ! vreg x = reg ?s ! vreg y"
      "reg ?s ! vreg x \<noteq> -1"
    then show "lr_end x < lr_start y \<or> lr_end y < lr_start x"
      using rg rv rd old unfolding regs_ok_def by (cases "x = cur"; cases "y = cur") auto
  qed
  moreover have "slots_ok nv (insert cur ds) ?s"
  proof -
    have f: "finite ds" "cur \<notin> ds" using ok new by (auto simp: scan_ok_def fresh_def)
    have "spill s ! ?v = -1" using ok new by (simp add: scan_ok_def fresh_def)
    then show ?thesis using sl rv rd f by (auto simp: slots_ok_def take_reg_def)
  qed
  moreover have "reg ?s ! v = -1 \<and> spill ?s ! v = -1" if "v < nv" "v \<notin> vreg ` insert cur ds" for v
    using that ok r by (auto simp: scan_ok_def take_reg_def)
  ultimately show ?thesis
    using ok new ph' len r by (auto simp: scan_ok_def fresh_def take_reg_def)
qed

lemma spill_slot_ok:
  assumes sl: "slots_ok nv ds s" and len: "length (spill s) = nv" and n: "card ds < 128" and v: "v < nv"
    and none: "spill s ! v = -1"
  shows "\<forall>u < nv. \<forall>w < nv. (spill s)[v := int8 (n_spill_slots s)] ! u = (spill s)[v := int8 (n_spill_slots s)] ! w \<longrightarrow>
      (spill s)[v := int8 (n_spill_slots s)] ! u \<noteq> -1 \<longrightarrow> u = w"
    and "\<forall>u < nv. (spill s)[v := int8 (n_spill_slots s)] ! u \<noteq> -1 \<longrightarrow>
      0 \<le> (spill s)[v := int8 (n_spill_slots s)] ! u \<and> (spill s)[v := int8 (n_spill_slots s)] ! u < int (Suc (n_spill_slots s))"
proof -
  have b: "n_spill_slots s < 128" using sl n by (simp add: slots_ok_def)
  have old: "spill s ! u \<noteq> int (n_spill_slots s)" if "u < nv" for u
    using sl that unfolding slots_ok_def by fastforce
  have e: "(spill s)[v := int8 (n_spill_slots s)] ! u = (if u = v then int (n_spill_slots s) else spill s ! u)" if "u < nv" for u
    using that len b v by (simp add: int8_small nth_list_update)
  show "\<forall>u < nv. \<forall>w < nv. (spill s)[v := int8 (n_spill_slots s)] ! u = (spill s)[v := int8 (n_spill_slots s)] ! w \<longrightarrow>
      (spill s)[v := int8 (n_spill_slots s)] ! u \<noteq> -1 \<longrightarrow> u = w"
  proof (intro allI impI)
    fix u w assume uw: "u < nv" "w < nv"
      "(spill s)[v := int8 (n_spill_slots s)] ! u = (spill s)[v := int8 (n_spill_slots s)] ! w"
      "(spill s)[v := int8 (n_spill_slots s)] ! u \<noteq> -1"
    then show "u = w"
      using old [OF uw(1)] old [OF uw(2)] sl e [OF uw(1)] e [OF uw(2)] unfolding slots_ok_def
      by (cases "u = v"; cases "w = v") auto
  qed
  show "\<forall>u < nv. (spill s)[v := int8 (n_spill_slots s)] ! u \<noteq> -1 \<longrightarrow>
      0 \<le> (spill s)[v := int8 (n_spill_slots s)] ! u \<and> (spill s)[v := int8 (n_spill_slots s)] ! u < int (Suc (n_spill_slots s))"
  proof (intro allI impI)
    fix u assume u: "u < nv" "(spill s)[v := int8 (n_spill_slots s)] ! u \<noteq> -1"
    have "u \<noteq> v \<Longrightarrow> 0 \<le> spill s ! u \<and> spill s ! u < int (n_spill_slots s)"
      using sl u e [OF u(1)] unfolding slots_ok_def by auto
    then show "0 \<le> (spill s)[v := int8 (n_spill_slots s)] ! u \<and> (spill s)[v := int8 (n_spill_slots s)] ! u < int (Suc (n_spill_slots s))"
      using e [OF u(1)] by (cases "u = v") auto
  qed
qed

lemma spill_cur_ok:
  assumes ok: "scan_ok nv ds (lr_start cur) s" and new: "fresh nv ds cur" and n: "card ds < 128"
  shows "scan_ok nv (insert cur ds) (lr_start cur) (spill_cur cur s)"
proof -
  let ?v = "vreg cur" and ?s = "spill_cur cur s"
  have rg: "regs_ok ds (lr_start cur) s" and sl: "slots_ok nv ds s"
    and len: "length (reg s) = nv" "length (spill s) = nv" using ok by (simp_all add: scan_ok_def)
  have none: "reg s ! ?v = -1" "spill s ! ?v = -1" using ok new by (simp_all add: scan_ok_def fresh_def)
  have f: "finite ds" "cur \<notin> ds" using ok new by (auto simp: scan_ok_def fresh_def)
  have b: "n_spill_slots s < 128" using sl n by (simp add: slots_ok_def)
  have v: "?v < nv" using new by (simp add: fresh_def)
  have rd: "vreg x \<noteq> ?v" if "x \<in> ds" for x using that new unfolding fresh_def by (metis image_eqI)
  have "slots_ok nv (insert cur ds) ?s"
    unfolding slots_ok_def
  proof (intro conjI)
    show "n_spill_slots ?s \<le> card (insert cur ds)" using sl f by (simp add: spill_cur_def slots_ok_def)
    show "\<forall>r \<in> insert cur ds. (reg ?s ! vreg r = -1) = (spill ?s ! vreg r \<noteq> -1)"
    proof
      fix x assume "x \<in> insert cur ds"
      then consider "x = cur" | "x \<in> ds" "vreg x \<noteq> ?v" using rd by blast
      then show "(reg ?s ! vreg x = -1) = (spill ?s ! vreg x \<noteq> -1)"
        using none b v len sl by cases (simp_all add: spill_cur_def int8_small slots_ok_def)
    qed
  qed (use spill_slot_ok [OF sl len(2) n v none(2)] in \<open>simp_all add: spill_cur_def\<close>)
  moreover have "regs_ok (insert cur ds) (lr_start cur) ?s"
    using rg none unfolding regs_ok_def by (auto simp: spill_cur_def)
  moreover have "phys_ok ?s" using ok by (simp add: scan_ok_def phys_ok_def spill_cur_def)
  ultimately show ?thesis
    using ok new len by (auto simp: scan_ok_def fresh_def spill_cur_def)
qed

lemma evict_ok:
  assumes ok: "scan_ok nv ds (lr_start cur) s" and new: "fresh nv ds cur" and n: "card ds < 128"
    and w: "w < length (active s)"
  shows "scan_ok nv (insert cur ds) (lr_start cur) (evict w cur s)"
proof -
  obtain r p where rp: "active s ! w = (r, p)" by fastforce
  let ?v = "vreg cur" and ?s = "evict w cur s" and ?u = "vreg r"
  have ph: "phys_ok s" and rg: "regs_ok ds (lr_start cur) s" and sl: "slots_ok nv ds s"
    and len: "length (reg s) = nv" "length (spill s) = nv" and inj: "inj_on vreg ds"
    using ok by (simp_all add: scan_ok_def)
  have none: "reg s ! ?v = -1" "spill s ! ?v = -1" using ok new by (simp_all add: scan_ok_def fresh_def)
  have f: "finite ds" "cur \<notin> ds" using ok new by (auto simp: scan_ok_def fresh_def)
  have b: "n_spill_slots s < 128" using sl n by (simp add: slots_ok_def)
  have v: "?v < nv" using new by (simp add: fresh_def)
  have rin: "(r, p) \<in> set (active s)" using rp w nth_mem by metis
  have rds: "r \<in> ds" "reg s ! ?u = int p" "p < 3" using rg rin phys_small(2) [OF ph rin] unfolding regs_ok_def by auto
  have u: "?u < nv" using ok rds by (simp add: scan_ok_def)
  have uv: "?u \<noteq> ?v" using rds new unfolding fresh_def by (metis image_eqI)
  have rsp: "spill s ! ?u = -1" using sl rds unfolding slots_ok_def by auto
  have reg: "reg ?s ! x = (if x = ?v then int p else if x = ?u then -1 else reg s ! x)" if "x < nv" for x
    using that rp rds(3) len v u by (simp add: evict_def int8_small nth_list_update)
  have spl: "spill ?s ! x = (if x = ?u then int (n_spill_slots s) else spill s ! x)" if "x < nv" for x
    using that rp b len u by (simp add: evict_def int8_small nth_list_update)
  have ne: "vreg x \<noteq> ?v" "vreg x < nv" "vreg x = ?u \<longleftrightarrow> x = r" if x: "x \<in> ds" for x
  proof -
    show "vreg x \<noteq> ?v" using x new unfolding fresh_def by (metis image_eqI)
    show "vreg x < nv" using x ok by (simp add: scan_ok_def)
    show "vreg x = ?u \<longleftrightarrow> x = r" using inj_on_eq_iff [OF inj x rds(1)] .
  qed
  have dist: "distinct (map snd (active s))" using ph by (simp add: phys_ok_def)
  have act: "set (active ?s) = insert (cur, p) (set (active s) - {(r, p)})"
  proof -
    have "distinct (active s)" using dist by (simp add: distinct_map)
    then show ?thesis using w rp by (simp add: evict_def set_update_distinct)
  qed
  have only: "x = r" if "(x, p) \<in> set (active s)" for x
    using eq_key_imp_eq_value [of "map prod.swap (active s)" p x r] dist rin that
    by (force simp: comp_def)
  have "map snd (active ?s) = map snd (active s)" "free_regs ?s = free_regs s"
    using w rp by (simp_all add: evict_def map_update list_update_same_conv)
  then have ph': "phys_ok ?s"
    using ph unfolding phys_ok_def set_map [symmetric] by simp
  have same: "reg ?s ! vreg x = (if x = r then -1 else reg s ! vreg x)" if "x \<in> ds" for x
    using reg [OF ne(2)] ne that by simp
  have rv: "reg ?s ! ?v = int p" using reg [OF v] by simp
  have "regs_ok (insert cur ds) (lr_start cur) ?s"
    unfolding regs_ok_def
  proof (intro conjI ballI impI)
    fix x assume "x \<in> set (active ?s)"
    then have "x = (cur, p) \<or> x \<in> set (active s) \<and> x \<noteq> (r, p)" unfolding act by blast
    then consider "x = (cur, p)" | y q where "x = (y, q)" "(y, q) \<in> set (active s)" "(y, q) \<noteq> (r, p)"
      by (metis surj_pair)
    then show "case x of (x, q) \<Rightarrow> x \<in> insert cur ds \<and> reg ?s ! vreg x = int q"
    proof cases
      case 2
      then have "y \<in> ds" "reg s ! vreg y = int q" using rg unfolding regs_ok_def by auto
      moreover have "y \<noteq> r" using calculation rds(2) 2(3) by auto
      ultimately show ?thesis using same 2(1) by simp
    qed (use rv in simp)
  next
    fix x assume x: "x \<in> insert cur ds" "reg ?s ! vreg x \<noteq> -1"
    show "(x, nat (reg ?s ! vreg x)) \<in> set (active ?s) \<or>
        lr_end x < lr_start cur \<and> reg ?s ! vreg x \<in> {0..<int RA_N_PHYS}"
    proof (cases "x = cur")
      case False
      then have "x \<in> ds" "x \<noteq> r" "reg ?s ! vreg x = reg s ! vreg x" using x same by (auto split: if_splits)
      then show ?thesis using x(2) rg act unfolding regs_ok_def by auto
    qed (use rv act in simp)
  next
    fix x y assume xy: "x \<in> insert cur ds" "y \<in> insert cur ds" "x \<noteq> y" "reg ?s ! vreg x = reg ?s ! vreg y"
      "reg ?s ! vreg x \<noteq> -1"
    have old: "lr_end z < lr_start cur" if "z \<in> ds" "reg ?s ! vreg z = int p" for z
    proof -
      have z: "z \<noteq> r" "reg s ! vreg z = int p" using same that by (auto split: if_splits)
      then have "(z, p) \<notin> set (active s)" using only by blast
      then show ?thesis using rg that(1) z(2) unfolding regs_ok_def by fastforce
    qed
    consider "x = cur" "y \<in> ds" | "y = cur" "x \<in> ds" | "x \<in> ds" "y \<in> ds" using xy by auto
    then show "lr_end x < lr_start y \<or> lr_end y < lr_start x"
    proof cases
      case 3
      then show ?thesis using xy same rg unfolding regs_ok_def by (auto split: if_splits)
    qed (use old xy rv in auto)
  qed
  moreover have "slots_ok nv (insert cur ds) ?s"
    unfolding slots_ok_def
  proof (intro conjI)
    show "n_spill_slots ?s \<le> card (insert cur ds)" using sl f by (simp add: evict_def slots_ok_def)
    show "\<forall>x \<in> insert cur ds. (reg ?s ! vreg x = -1) = (spill ?s ! vreg x \<noteq> -1)"
    proof
      fix x assume "x \<in> insert cur ds"
      then consider "x = cur" | "x = r" | "x \<in> ds" "x \<noteq> r" by blast
      then show "(reg ?s ! vreg x = -1) = (spill ?s ! vreg x \<noteq> -1)"
      proof cases
        case 1
        then show ?thesis using rv spl [OF v] uv none(2) by simp
      next
        case 2
        then show ?thesis using same [OF rds(1)] spl [OF u] by simp
      next
        case 3
        then show ?thesis using same [OF 3(1)] spl [OF ne(2) [OF 3(1)]] ne(3) [OF 3(1)] sl by (simp add: slots_ok_def)
      qed
    qed
  qed (use spill_slot_ok [OF sl len(2) n u rsp] rp in \<open>simp_all add: evict_def\<close>)
  moreover have "reg ?s ! x = -1 \<and> spill ?s ! x = -1" if x: "x < nv" "x \<notin> vreg ` insert cur ds" for x
  proof -
    have "x \<noteq> ?v" "x \<noteq> ?u" "x \<notin> vreg ` ds" using x rds(1) by auto
    then show ?thesis using reg [OF x(1)] spl [OF x(1)] ok x(1) by (simp add: scan_ok_def)
  qed
  moreover have "inj_on vreg (insert cur ds)" using inj new by (auto simp: fresh_def)
  moreover have "length (reg ?s) = nv" "length (spill ?s) = nv" using len by (simp_all add: evict_def)
  moreover have "\<forall>x \<in> insert cur ds. vreg x < nv \<and> lr_start x \<le> lr_start cur" using ok v by (auto simp: scan_ok_def)
  ultimately show ?thesis
    using ph' f unfolding scan_ok_def by simp
qed

lemma worst_loop_bound: "w < k \<Longrightarrow> worst_loop as n k w < k + n"
proof (induction n arbitrary: k w)
  case (Suc n)
  then show ?case using Suc.IH [of _ "Suc k"] by (auto simp: less_Suc_eq)
qed simp

lemma worst_active_bound: "as \<noteq> [] \<Longrightarrow> worst_active as < length as"
  using worst_loop_bound [of 0 1 as "length as - 1"] by (cases as) (simp_all add: worst_active_def)

lemma alloc_step_ok:
  assumes ok: "scan_ok nv ds t s" and t: "t \<le> lr_start cur" and new: "fresh nv ds cur" and n: "card ds < 128"
  shows "scan_ok nv (insert cur ds) (lr_start cur) (alloc_step cur s)"
proof -
  have e: "scan_ok nv ds (lr_start cur) (expire cur s)" using expire_ok [OF ok t] .
  have w: "worst_active (active (expire cur s)) < length (active (expire cur s))" if "free_regs (expire cur s) = []"
  proof (rule worst_active_bound)
    have "phys_ok (expire cur s)" using e by (simp add: scan_ok_def)
    then show "active (expire cur s) \<noteq> []" using that unfolding phys_ok_def RA_N_PHYS_def
      by (metis empty_iff image_empty lessThan_iff list.set(1) sup_bot.right_neutral zero_less_numeral)
  qed
  show ?thesis
    using take_reg_ok [OF e _ new] evict_ok [OF e new n w] spill_cur_ok [OF e new n]
    by (simp add: alloc_step_cases Let_def)
qed

lemma scan_fold_ok:
  "\<lbrakk>scan_ok nv ds t s; \<forall>r \<in> set rs. t \<le> lr_start r; sorted (map lr_start rs); distinct (map vreg rs);
    \<forall>r \<in> set rs. fresh nv ds r; card ds + length rs \<le> 128\<rbrakk> \<Longrightarrow>
     \<exists>t'. scan_ok nv (ds \<union> set rs) t' (fold alloc_step rs s)"
proof (induction rs arbitrary: ds t s)
  case (Cons r rs)
  have "scan_ok nv (insert r ds) (lr_start r) (alloc_step r s)"
    using Cons.prems by (intro alloc_step_ok [of nv ds t]) auto
  moreover have "\<forall>q \<in> set rs. fresh nv (insert r ds) q"
  proof
    fix q assume q: "q \<in> set rs"
    then have "vreg q \<in> set (map vreg rs)" by simp
    then have "vreg q \<noteq> vreg r" using Cons.prems(4) by auto
    then show "fresh nv (insert r ds) q" using Cons.prems(5) q by (simp add: fresh_def)
  qed
  moreover have "card (insert r ds) + length rs \<le> 128"
    using Cons.prems(6) card_insert_le_m1 [of "Suc (card ds)" ds r] by simp
  ultimately have "\<exists>t'. scan_ok nv (insert r ds \<union> set rs) t' (fold alloc_step rs (alloc_step r s))"
    using Cons.prems(3,4) by (intro Cons.IH) auto
  then show ?case by simp
qed auto

section \<open>The allocation\<close>

lemma widen_covers:
  "\<lbrakk>covers rs v (int i); i < length (insts f)\<rbrakk> \<Longrightarrow> covers (widen_local f lv rs) v (int i)"
  by (cases "v = nat lv") (auto simp: widen_local_def covers_def)

lemma widen_vregs: "map vreg (widen_local f lv rs) = map vreg rs"
  by (simp add: widen_local_def map_update list_update_same_conv) (metis list_update_beyond list_update_id map_update not_le)

lemma ranges_of_facts:
  shows "covers (build_intervals f) v (int i) \<Longrightarrow> i < length (insts f) \<Longrightarrow> covers (ranges_of f) v (int i)"
    and "map vreg (ranges_of f) = [0..<n_vregs f]"
proof -
  have "covers rs v (int i) \<Longrightarrow> i < length (insts f) \<Longrightarrow> covers (fold (widen_local f) ls rs) v (int i)" for rs ls
    by (induction ls arbitrary: rs) (auto intro: widen_covers)
  then show "covers (build_intervals f) v (int i) \<Longrightarrow> i < length (insts f) \<Longrightarrow> covers (ranges_of f) v (int i)"
    by (simp add: ranges_of_def)
  have "map vreg (fold (widen_local f) ls rs) = map vreg rs" for rs ls
    by (induction ls arbitrary: rs) (simp_all add: widen_vregs)
  then show "map vreg (ranges_of f) = [0..<n_vregs f]"
    using build_intervals_cover [of f] by (auto simp: ranges_of_def intro!: nth_equalityI)
qed

lemma sorted_ranges_facts:
  "set (sorted_ranges f) = {r \<in> set (ranges_of f). lr_start r \<noteq> INT32_MAX \<and> lr_start r \<le> lr_end r}"
  "distinct (map vreg (sorted_ranges f))" "sorted (map lr_start (sorted_ranges f))"
  "length (sorted_ranges f) \<le> n_vregs f"
proof -
  let ?fs = "filter (\<lambda>r. lr_start r \<noteq> INT32_MAX \<and> lr_start r \<le> lr_end r) (ranges_of f)"
    and ?k = "\<lambda>r. (lr_start r, vreg r)"
  show "set (sorted_ranges f) = {r \<in> set (ranges_of f). lr_start r \<noteq> INT32_MAX \<and> lr_start r \<le> lr_end r}"
    by (simp add: sorted_ranges_def)
  have d: "distinct (map vreg (ranges_of f))" by (simp add: ranges_of_facts(2))
  have l: "length (ranges_of f) = n_vregs f" using arg_cong [OF ranges_of_facts(2) [of f], of length] by simp
  have "mset (map vreg (sorted_ranges f)) = mset (map vreg ?fs)" by (simp add: sorted_ranges_def)
  moreover have "distinct (map vreg ?fs)" using d by (rule distinct_map_filter)
  ultimately show "distinct (map vreg (sorted_ranges f))" using mset_eq_imp_distinct_iff by blast
  have "sorted (map ?k (sorted_ranges f))" unfolding sorted_ranges_def by (rule sorted_sort_key)
  then show "sorted (map lr_start (sorted_ranges f))"
    unfolding sorted_map by (rule sorted_wrt_mono_rel [rotated]) (auto simp: less_eq_prod_def)
  show "length (sorted_ranges f) \<le> n_vregs f" using l length_filter_le [of _ "ranges_of f"] by (simp add: sorted_ranges_def)
qed

lemma ralow_alloc_ok:
  assumes "n_vregs f \<le> 128"
  shows "\<exists>t. scan_ok (n_vregs f) (set (sorted_ranges f)) t (ralow_alloc f)"
proof -
  let ?rs = "sorted_ranges f"
  have "vreg r < n_vregs f" if "r \<in> set ?rs" for r
  proof -
    have "vreg r \<in> set (map vreg (ranges_of f))" using that by (auto simp: sorted_ranges_facts(1))
    then show ?thesis by (simp add: ranges_of_facts(2))
  qed
  then have "\<forall>r \<in> set ?rs. fresh (n_vregs f) {} r" by (simp add: fresh_def)
  moreover have "\<exists>t. \<forall>r \<in> set ?rs. t \<le> lr_start r"
    by (metis finite_imageI finite_set imageI Min_le)
  ultimately show ?thesis
    using scan_fold_ok [OF scan_ok_init, where rs = ?rs and nv = "n_vregs f"] sorted_ranges_facts [of f] assms
    by (auto simp: ralow_alloc_def)
qed

text \<open>The place of a register: a machine register or a stack slot.\<close>

definition place :: "ra_state \<Rightarrow> nat \<Rightarrow> int \<times> int" where
  "place a v = (reg a ! v, spill a ! v)"

definition valid_place :: "ra_state \<Rightarrow> int \<times> int \<Rightarrow> bool" where
  "valid_place a = (\<lambda>(r, s). 0 \<le> r \<and> r < int RA_N_PHYS \<and> s = -1 \<or>
     r = -1 \<and> 0 \<le> s \<and> s < int (n_spill_slots a))"

lemma allocation_sound:
  assumes wf: "ir_wf f" and lv: "ralow_liveness f = Some f'" and small: "n_vregs f \<le> 128" "int (length (insts f)) \<le> INT32_MAX"
    and b: "b < length (blocks f)" and i: "bstart (blk f b) \<le> i" "i < bend (blk f b)"
  shows "inj_on (place (ralow_alloc f')) (occupied f b i)"
    and "u \<in> occupied f b i \<Longrightarrow> valid_place (ralow_alloc f') (place (ralow_alloc f') u)"
proof -
  let ?a = "ralow_alloc f'" and ?rs = "ranges_of f'"
  obtain bs where f': "f' = f\<lparr>blocks := bs\<rparr>" using ralow_liveness_live [OF wf] lv by auto
  have il: "i < length (insts f)" using i ir_wf_block(2) [OF wf b] by simp
  obtain t where ok: "scan_ok (n_vregs f') (set (sorted_ranges f')) t ?a"
    using ralow_alloc_ok [of f'] small(1) f' by auto
  have range: "\<exists>r \<in> set (sorted_ranges f'). vreg r = v \<and> lr_start r \<le> int i \<and> int i \<le> lr_end r \<and> v < n_vregs f'"
    if "v \<in> occupied f b i" for v
  proof -
    have "covers (build_intervals f') v (int i)"
      using occupied_covered [OF wf lv b i that] build_intervals_cover by blast
    then have c: "covers ?rs v (int i)" using ranges_of_facts(1) il f' by simp
    have l: "length ?rs = n_vregs f'" using arg_cong [OF ranges_of_facts(2) [of f'], of length] by simp
    have "vreg (?rs ! v) = v"
      using nth_map [of v ?rs vreg] ranges_of_facts(2) [of f'] c l by (simp add: covers_def)
    moreover have "?rs ! v \<in> set (sorted_ranges f')"
      using c il small(2) by (auto simp: sorted_ranges_facts(1) covers_def)
    ultimately show ?thesis using c l unfolding covers_def by auto
  qed
  have rg: "regs_ok (set (sorted_ranges f')) t ?a" and sl: "slots_ok (n_vregs f') (set (sorted_ranges f')) ?a"
    and ph: "phys_ok ?a" using ok by (simp_all add: scan_ok_def)
  have excl: "reg ?a ! vreg r = -1 \<longleftrightarrow> spill ?a ! vreg r \<noteq> -1" if "r \<in> set (sorted_ranges f')" for r
    using sl that by (simp add: slots_ok_def)
  show "inj_on (place ?a) (occupied f b i)"
  proof (rule inj_onI, rule ccontr)
    fix u v assume uv: "u \<in> occupied f b i" "v \<in> occupied f b i" "place ?a u = place ?a v" "u \<noteq> v"
    obtain r where r: "r \<in> set (sorted_ranges f')" "vreg r = u" "lr_start r \<le> int i" "int i \<le> lr_end r" "u < n_vregs f'"
      using range [OF uv(1)] by blast
    obtain q where q: "q \<in> set (sorted_ranges f')" "vreg q = v" "lr_start q \<le> int i" "int i \<le> lr_end q" "v < n_vregs f'"
      using range [OF uv(2)] by blast
    show False
    proof (cases "reg ?a ! u = -1")
      case True
      then have "spill ?a ! u \<noteq> -1" using excl [OF r(1)] r(2) by simp
      then show False
        using sl [unfolded slots_ok_def, THEN conjunct2, THEN conjunct2, THEN conjunct1, rule_format, OF r(5) q(5)] uv(3,4)
        by (simp add: place_def)
    next
      case False
      have "r \<noteq> q" "reg ?a ! vreg r = reg ?a ! vreg q" using r(2) q(2) uv(3,4) by (auto simp: place_def)
      then have "lr_end r < lr_start q \<or> lr_end q < lr_start r"
        using rg [unfolded regs_ok_def, THEN conjunct2, THEN conjunct2, rule_format, OF r(1) q(1)] False r(2)
        by simp
      then show False using r q by linarith
    qed
  qed
  show "valid_place ?a (place ?a u)" if u: "u \<in> occupied f b i"
  proof -
    obtain r where r: "r \<in> set (sorted_ranges f')" "vreg r = u" "u < n_vregs f'" using range [OF u] by blast
    show ?thesis
    proof (cases "reg ?a ! u = -1")
      case True
      then show ?thesis using sl r excl [OF r(1)] by (simp add: slots_ok_def valid_place_def place_def)
    next
      case False
      then consider "(r, nat (reg ?a ! u)) \<in> set (active ?a)" | "reg ?a ! u \<in> {0..<int RA_N_PHYS}"
        using rg r(1,2) unfolding regs_ok_def by blast
      then have "reg ?a ! u \<in> {0..<int RA_N_PHYS}"
      proof cases
        case 1
        have "reg ?a ! vreg r = int (nat (reg ?a ! u))" using rg 1 unfolding regs_ok_def by blast
        then have "0 \<le> reg ?a ! u" unfolding r(2) by linarith
        then show ?thesis using phys_small(2) [OF ph 1] by (simp add: RA_N_PHYS_def)
      qed
      then show ?thesis using False excl [OF r(1)] r by (simp add: valid_place_def place_def)
    qed
  qed
qed

end
