(* ===== verification/XRaSpec.thy ===== *)
theory XRaSpec
  imports XRaAllocProofs
begin

text \<open>
  What the JIT's register allocation promises: the liveness analysis ends with the exact live
  sets, and the allocation gives registers in use at the same instruction different places.
  The bound of 128 virtual registers is needed: slots are stored in 8 bits.
\<close>

section \<open>A function of locals only\<close>

text \<open>Every register is a local, so all ranges are the whole function and the scan spills all but three.\<close>

definition all_locals :: "ir_func \<Rightarrow> bool" where
  "all_locals f \<longleftrightarrow> insts f \<noteq> [] \<and> local_vregs f = map int [0..<n_vregs f]"

abbreviation local_range :: "ir_func \<Rightarrow> nat \<Rightarrow> live_range" where
  "local_range f v \<equiv> \<lparr>vreg = v, lr_start = 0, lr_end = int (length (insts f)) - 1\<rparr>"

lemma widen_all:
  "\<lbrakk>length rs = n_vregs f; \<forall>v < n_vregs f. vreg (rs ! v) = v; insts f \<noteq> []; k \<le> n_vregs f\<rbrakk> \<Longrightarrow>
     fold (widen_local f) (map int [0..<k]) rs = map (local_range f) [0..<k] @ drop k rs"
proof (induction k)
  case (Suc k)
  have "widen_local f (int k) (map (local_range f) [0..<k] @ drop k rs) =
      map (local_range f) [0..<k] @ local_range f k # drop (Suc k) rs"
    using Suc.prems by (simp add: widen_local_def nth_append list_update_append Cons_nth_drop_Suc [symmetric])
  then show ?case using Suc by simp
qed simp

lemma all_locals_ranges:
  assumes "all_locals f"
  shows "sorted_ranges f = map (local_range f) [0..<n_vregs f]"
proof -
  have "ranges_of f = map (local_range f) [0..<n_vregs f]"
    using assms build_intervals_cover [of f] widen_all [of "build_intervals f" f "n_vregs f"]
    by (simp add: ranges_of_def all_locals_def)
  moreover have "0 < length (insts f)" using assms by (simp add: all_locals_def)
  ultimately have "filter (\<lambda>r. lr_start r \<noteq> INT32_MAX \<and> lr_start r \<le> lr_end r) (ranges_of f) =
      map (local_range f) [0..<n_vregs f]"
    by (simp add: filter_id_conv INT32_MAX_def)
  then show ?thesis
    unfolding sorted_ranges_def by (intro properties_for_sort_key) (simp_all add: comp_def sorted_map sorted_wrt_iff_nth_less)
qed

lemma spill_run:
  assumes "3 \<le> k" and "k \<le> n" and "insts f \<noteq> []"
  shows "let s = fold alloc_step (map (local_range f) [0..<k]) (ra_init n)
    in free_regs s = [] \<and> map (lr_end \<circ> fst) (active s) = replicate 3 (int (length (insts f)) - 1) \<and>
       n_spill_slots s = k - 3 \<and> length (spill s) = n \<and> (\<forall>v. 3 \<le> v \<longrightarrow> v < k \<longrightarrow> spill s ! v = int8 (v - 3)) \<and>
       (\<forall>v. 3 \<le> v \<longrightarrow> v < n \<longrightarrow> reg s ! v = -1)"
  using assms
proof (induction k rule: nat_induct_at_least)
  case base
  then show ?case
    by (simp add: numeral_3_eq_3 alloc_step_cases ra_init_def RA_N_PHYS_def Let_def expire_def take_reg_def)
next
  case (Suc k)
  define s where "s = fold alloc_step (map (local_range f) [0..<k]) (ra_init n)"
  have IH: "free_regs s = []" "map (lr_end \<circ> fst) (active s) = replicate 3 (int (length (insts f)) - 1)"
      "n_spill_slots s = k - 3" "length (spill s) = n" "\<forall>v. 3 \<le> v \<longrightarrow> v < k \<longrightarrow> spill s ! v = int8 (v - 3)" "\<forall>v. 3 \<le> v \<longrightarrow> v < n \<longrightarrow> reg s ! v = -1"
    using Suc by (simp_all add: s_def Let_def comp_def)
  have len: "length (active s) = 3" using arg_cong [OF IH(2), of length] by simp
  have ends: "lr_end (fst x) = int (length (insts f)) - 1" if "x \<in> set (active s)" for x
    using that IH(2) by (metis comp_apply image_eqI in_set_replicate list.set_map)
  have "0 < length (insts f)" using Suc.prems by simp
  then have none: "\<not> lr_end (fst x) < 0" if "x \<in> set (active s)" for x using ends [OF that] by linarith
  have e: "expire (local_range f k) s = s"
    using none by (simp add: expire_def case_prod_beta filter_id_conv filter_empty_conv)
  have "alloc_step (local_range f k) s = spill_cur (local_range f k) s"
  proof -
    have "active s \<noteq> []" using len by auto
    then have "active s ! worst_active (active s) \<in> set (active s)" using worst_active_bound by simp
    then show ?thesis using IH(1) e ends by (simp add: alloc_step_cases Let_def)
  qed
  then show ?case
    using IH Suc.hyps Suc.prems unfolding comp_def
    by (simp add: s_def [symmetric] spill_cur_def Let_def nth_list_update Suc_diff_le [symmetric] less_Suc_eq)
qed

section \<open>Properties\<close>

text \<open>C9. The liveness analysis of any well-formed function ends, whatever its loops, and
  computes exactly the live registers: \<open>live_in\<close> and \<open>live_out\<close> of a block are the registers
  that some path from its start, respectively its end, reads before writing.\<close>
theorem liveness_exact:
  assumes "ir_wf f"
  shows "\<exists>f'. ralow_liveness f = Some f' \<and> length (blocks f') = length (blocks f) \<and>
    (\<forall>b < length (blocks f).
       {v. v < n_vregs f \<and> bs_test (live_in (blk f' b)) v} = {v. live_at f b (bstart (blk f b)) v} \<and>
       {v. v < n_vregs f \<and> bs_test (live_out (blk f' b)) v} = {v. live_at f b (bend (blk f b)) v})"
proof -
  obtain bs where bs: "ralow_liveness f = Some (f\<lparr>blocks := bs\<rparr>)" "length bs = length (blocks f)"
      "\<forall>b < length bs. length (live_in (bs ! b)) = bs_words (n_vregs f) \<and> length (live_out (bs ! b)) = bs_words (n_vregs f) \<and>
       li bs b = {v. live_at f b (bstart (blk f b)) v} \<and> lo bs b = {v. live_at f b (bend (blk f b)) v}"
    using ralow_liveness_live [OF assms] by blast
  have "{v. v < n_vregs f \<and> bs_test w v} = bits w" if "length w = bs_words (n_vregs f)" "\<forall>v \<in> bits w. v < n_vregs f" for w
    using that bs_words_enough by (auto simp: bits_def)
  then show ?thesis
    using bs live_at_bound [OF _ assms] by (intro exI [of _ "f\<lparr>blocks := bs\<rparr>"]) (simp add: blk_def [of "f\<lparr>blocks := bs\<rparr>"])
qed

text \<open>A function with a loop: block 0 writes 0 and falls into block 1, which adds 1 to 0 and
  branches back to itself.\<close>

abbreviation inst_at :: "ir_op \<Rightarrow> int \<Rightarrow> int \<Rightarrow> int \<Rightarrow> ir_inst" where
  "inst_at p d s t \<equiv> \<lparr>op = p, dst = d, src1 = s, src2 = t, imm = 0, call_args = replicate 16 (-1), bc_offset = 0\<rparr>"

definition loop_func :: ir_func where
  "loop_func = \<lparr>insts = [inst_at IR_CONST 0 (-1) (-1), inst_at IR_ADD 2 0 1, inst_at IR_JIF_TRUE (-1) 2 (-1)],
     blocks = [\<lparr>bstart = 0, bend = 1, succ = [1], buse = [], bdef = [], live_in = [], live_out = []\<rparr>,
       \<lparr>bstart = 1, bend = 3, succ = [1], buse = [], bdef = [], live_in = [], live_out = []\<rparr>],
     n_vregs = 3, local_vregs = []\<rparr>"

lemma loop_func_wf: "ir_wf loop_func"
  by (simp add: ir_wf_def loop_func_def inst_ok_def reads_def writes_def ir_inst_reads_def
      op_uses_call_args_as_vregs_def)

theorem liveness_exact_witness:
  "\<exists>f'. ralow_liveness loop_func = Some f' \<and>
     {v. v < 3 \<and> bs_test (live_in (blk f' 0)) v} = {v. live_at loop_func 0 0 v}"
  using liveness_exact [OF loop_func_wf] by (auto simp: loop_func_def blk_def)



text \<open>C25. The bound is needed: in a function whose registers are all locals, from the 129th spill on
  the slot stored in 8 bits is negative, and the 256th looks like no slot at all.\<close>
theorem spill_slots_wrap:
  assumes "all_locals f"
  shows "(131 < n_vregs f \<longrightarrow> spill (ralow_alloc f) ! 131 = -128) \<and>
    (258 < n_vregs f \<longrightarrow> reg (ralow_alloc f) ! 258 = -1 \<and> spill (ralow_alloc f) ! 258 = -1)"
proof -
  have s: "ralow_alloc f = fold alloc_step (map (local_range f) [0..<n_vregs f]) (ra_init (n_vregs f))"
    by (simp add: ralow_alloc_def all_locals_ranges [OF assms])
  have "int8 128 = -128" "int8 255 = -1"
    unfolding int8_def sint_uint uint_word_of_int_eq by (simp_all add: signed_take_bit_eq_if_negative take_bit_eq_mod bit_simps)
  then show ?thesis
    using spill_run [of "n_vregs f" "n_vregs f" f] assms by (auto simp: s [symmetric] Let_def all_locals_def)
qed

theorem spill_slots_wrap_witness:
  "spill (ralow_alloc \<lparr>insts = [inst_at IR_RETURN (-1) 0 (-1)], blocks = [], n_vregs = 132,
     local_vregs = map int [0..<132]\<rparr>) ! 131 = -128"
  using spill_slots_wrap [of "\<lparr>insts = [inst_at IR_RETURN (-1) 0 (-1)], blocks = [], n_vregs = 132,
     local_vregs = map int [0..<132]\<rparr>"]
  unfolding all_locals_def by (simp del: upt_conv_Cons upt_rec_numeral)

end
