(* ===== verification/XTimers.thy ===== *)
theory XTimers
  imports XPrelude "HOL-Library.Monad_Syntax"
begin

text \<open>
  The event loop's timers and file descriptors (\<open>src/runtime/event_loop.c\<close>,
  \<open>event_loop.h\<close>): the binary min-heap of timers, their registration, cancellation and firing,
  and the table of event sources.

  \<open>timers\<close> and \<open>sources\<close> hold the \<open>ntimers\<close> and \<open>nsources\<close> entries in use. Callbacks and
  their contexts are numbers. What is outside the file is a parameter: the time \<open>now\<close>, the effect
  \<open>call\<close> of a timer's callback on the loop, the effect \<open>poll\<close> of waiting for events and handling
  them and the signals, and the answer of the kernel to a registration.
\<close>

section \<open>State\<close>

record source =
  fd :: int
  events :: nat
  s_callback :: "nat option"
  s_ctx :: "nat option"
  s_active :: bool

record timer =
  when_ms :: int
  fn :: nat
  ctx :: nat
  repeat_ms :: int
  t_active :: bool
  t_id :: int

record evloop =
  sources :: "source list"
  src_cap :: nat
  running :: bool
  timers :: "timer list"
  timer_cap :: nat
  next_timer_id :: int
  total_timers_fired :: nat

section \<open>The timer heap\<close>

definition heap_swap :: "timer list \<Rightarrow> nat \<Rightarrow> nat \<Rightarrow> timer list" where
  "heap_swap h a b = h[a := h ! b, b := h ! a]"

function heap_sift_up :: "timer list \<Rightarrow> nat \<Rightarrow> timer list" where
  "heap_sift_up h idx =
     (if idx = 0 then h
      else let parent = (idx - 1) div 2
           in if when_ms (h ! parent) \<le> when_ms (h ! idx) then h
              else heap_sift_up (heap_swap h parent idx) parent)"
  by pat_completeness auto
termination
  by (relation "measure snd") auto

declare heap_sift_up.simps [simp del]

definition smallest_child :: "timer list \<Rightarrow> nat \<Rightarrow> nat \<Rightarrow> nat" where
  "smallest_child h n idx =
     (let left = 2 * idx + 1; right = 2 * idx + 2;
          s1 = (if left < n \<and> when_ms (h ! left) < when_ms (h ! idx) then left else idx)
      in if right < n \<and> when_ms (h ! right) < when_ms (h ! s1) then right else s1)"

lemma smallest_child_grows: "smallest_child h n idx = idx \<or> idx < smallest_child h n idx \<and> smallest_child h n idx < n"
  by (simp add: smallest_child_def Let_def)

function heap_sift_down :: "timer list \<Rightarrow> nat \<Rightarrow> nat \<Rightarrow> timer list" where
  "heap_sift_down h n idx =
     (let smallest = smallest_child h n idx
      in if smallest = idx then h else heap_sift_down (heap_swap h smallest idx) n smallest)"
  by pat_completeness auto
termination
proof (relation "measure (\<lambda>(h, n, idx). n - idx)", goal_cases)
  case (2 h n idx smallest)
  then show ?case using smallest_child_grows [of h n idx] by auto
qed simp

declare heap_sift_down.simps [simp del]

definition heap_push :: "evloop \<Rightarrow> timer \<Rightarrow> evloop" where
  "heap_push ev entry =
     ev\<lparr>timer_cap := (if timer_cap ev \<le> length (timers ev)
                      then if timer_cap ev \<noteq> 0 then timer_cap ev * 2 else 16
                      else timer_cap ev),
        timers := heap_sift_up (timers ev @ [entry]) (length (timers ev))\<rparr>"

text \<open>On a heap that is not empty, as in its only caller.\<close>

definition heap_pop :: "evloop \<Rightarrow> timer \<times> evloop" where
  "heap_pop ev =
     (let top = timers ev ! 0; rest = butlast (timers ev)
      in (top, ev\<lparr>timers := (if rest = [] then []
           else heap_sift_down (rest[0 := last (timers ev)]) (length rest) 0)\<rparr>))"

definition heap_peek_ms :: "int \<Rightarrow> evloop \<Rightarrow> int" where
  "heap_peek_ms now ev =
     (if timers ev = [] then -1
      else let diff = when_ms (timers ev ! 0) - now
           in if diff \<le> 0 then 0 else if 60000 < diff then 60000 else diff)"

section \<open>Registration\<close>

fun find_from :: "source list \<Rightarrow> int \<Rightarrow> int \<Rightarrow> int" where
  "find_from [] f i = -1"
| "find_from (s # ss) f i = (if fd s = f \<and> s_active s then i else find_from ss f (i + 1))"

definition find_source :: "evloop \<Rightarrow> int \<Rightarrow> int" where
  "find_source ev f = find_from (sources ev) f 0"

fun free_slot :: "source list \<Rightarrow> nat \<Rightarrow> nat option" where
  "free_slot [] i = None"
| "free_slot (s # ss) i = (if \<not> s_active s then Some i else free_slot ss (Suc i))"

text \<open>\<open>res\<close> is the result of \<open>backend_add_fd\<close> and its like, called last.\<close>

definition evloop_add_fd :: "int \<Rightarrow> evloop \<Rightarrow> int \<Rightarrow> nat \<Rightarrow> nat option \<Rightarrow> nat option \<Rightarrow> int \<times> evloop" where
  "evloop_add_fd res ev f es cb cx =
     (if f < 0 then (-1, ev)
      else if 0 \<le> find_source ev f then (-1, ev)
      else let src = \<lparr>fd = f, events = es, s_callback = cb, s_ctx = cx, s_active = True\<rparr>
           in (res, case free_slot (sources ev) 0 of
                Some slot \<Rightarrow> ev\<lparr>sources := (sources ev)[slot := src]\<rparr>
              | None \<Rightarrow>
                  ev\<lparr>src_cap := (if src_cap ev \<le> length (sources ev)
                                 then if src_cap ev \<noteq> 0 then src_cap ev * 2 else 64
                                 else src_cap ev),
                     sources := sources ev @ [src]\<rparr>))"

definition evloop_mod_fd :: "int \<Rightarrow> evloop \<Rightarrow> int \<Rightarrow> nat \<Rightarrow> int \<times> evloop" where
  "evloop_mod_fd res ev f es =
     (let idx = find_source ev f
      in if idx < 0 then (-1, ev)
         else (res, ev\<lparr>sources := (sources ev)[nat idx := (sources ev ! nat idx)\<lparr>events := es\<rparr>]\<rparr>))"

definition evloop_remove_fd :: "int \<Rightarrow> evloop \<Rightarrow> int \<Rightarrow> int \<times> evloop" where
  "evloop_remove_fd res ev f =
     (let idx = find_source ev f
      in if idx < 0 then (-1, ev)
         else (res, ev\<lparr>sources := (sources ev)[nat idx := (sources ev ! nat idx)
                  \<lparr>s_active := False, s_callback := None, s_ctx := None\<rparr>]\<rparr>))"

definition evloop_add_timer :: "int \<Rightarrow> evloop \<Rightarrow> int \<Rightarrow> bool \<Rightarrow> nat option \<Rightarrow> nat \<Rightarrow> int \<times> evloop" where
  "evloop_add_timer now ev ms rep cb cx =
     (case cb of
        None \<Rightarrow> (-1, ev)
      | Some f \<Rightarrow>
          if ms < 0 then (-1, ev)
          else let entry = \<lparr>when_ms = now + ms, fn = f, ctx = cx, repeat_ms = (if rep then ms else 0),
                            t_active = True, t_id = next_timer_id ev\<rparr>
               in (t_id entry, heap_push (ev\<lparr>next_timer_id := next_timer_id ev + 1\<rparr>) entry))"

fun cancel_loop :: "timer list \<Rightarrow> int \<Rightarrow> timer list option" where
  "cancel_loop [] i = None"
| "cancel_loop (t # ts) i =
     (if t_id t = i then Some (t\<lparr>t_active := False\<rparr> # ts) else map_option ((#) t) (cancel_loop ts i))"

definition evloop_cancel_timer :: "evloop \<Rightarrow> int \<Rightarrow> int \<times> evloop" where
  "evloop_cancel_timer ev i =
     (case cancel_loop (timers ev) i of None \<Rightarrow> (-1, ev) | Some ts \<Rightarrow> (0, ev\<lparr>timers := ts\<rparr>))"

section \<open>Firing\<close>

text \<open>
  The loop of \<open>fire_timers\<close>. Besides the state it returns the timers fired, in order; a callback
  that keeps adding due timers makes it run forever, which is \<open>None\<close>.
\<close>

partial_function (option) fire_loop ::
    "(timer \<Rightarrow> evloop \<Rightarrow> evloop) \<Rightarrow> int \<Rightarrow> evloop \<Rightarrow> (timer list \<times> evloop) option" where
  "fire_loop call now ev =
     (if timers ev \<noteq> [] \<and> when_ms (timers ev ! 0) \<le> now then
        let (entry, ev1) = heap_pop ev
        in if \<not> t_active entry then fire_loop call now ev1
           else
             let ev2 = call entry ev1;
                 ev3 = ev2\<lparr>total_timers_fired := total_timers_fired ev2 + 1\<rparr>;
                 ev4 = (if 0 < repeat_ms entry
                        then heap_push ev3 (entry\<lparr>when_ms := now + repeat_ms entry\<rparr>) else ev3)
             in do { (fired, ev') \<leftarrow> fire_loop call now ev4; Some (entry # fired, ev') }
      else Some ([], ev))"

definition fire_timers :: "(timer \<Rightarrow> evloop \<Rightarrow> evloop) \<Rightarrow> int \<Rightarrow> evloop \<Rightarrow> (timer list \<times> evloop) option" where
  "fire_timers call now ev = fire_loop call now ev"

text \<open>The wait of one round: the caller's limit or the time to the first timer.\<close>

definition poll_timeout :: "int \<Rightarrow> evloop \<Rightarrow> int \<Rightarrow> int" where
  "poll_timeout now ev timeout_ms =
     (let timer_timeout = heap_peek_ms now ev
      in if timeout_ms < 0 then timer_timeout
         else if timer_timeout < 0 then timeout_ms
         else if timeout_ms < timer_timeout then timeout_ms else timer_timeout)"

definition evloop_run_once :: "(timer \<Rightarrow> evloop \<Rightarrow> evloop) \<Rightarrow> (int \<Rightarrow> evloop \<Rightarrow> evloop) \<Rightarrow> int \<Rightarrow> int \<Rightarrow>
    evloop \<Rightarrow> int \<Rightarrow> (timer list \<times> evloop) option" where
  "evloop_run_once call poll now now' ev timeout_ms =
     fire_timers call now' (poll (poll_timeout now ev timeout_ms) ev)"

end
