(* ===== verification/XTimersProofs.thy ===== *)
theory XTimersProofs
  imports XTimers "HOL-Library.Multiset"
begin

text \<open>
  The timer heap implements a priority queue: the locale \<open>timer_queue\<close> states what the event
  loop relies on, and is interpreted on the array heap. From it: firing calls the active timers
  that are due, once each and in the order of their times, and leaves only later ones.
\<close>

section \<open>The heap order\<close>

definition key :: "timer list \<Rightarrow> nat \<Rightarrow> int" where
  "key h i = when_ms (h ! i)"

definition par :: "nat \<Rightarrow> nat" where
  "par i = (i - 1) div 2"

lemma par_less: "0 < i \<Longrightarrow> par i < i"
  by (simp add: par_def)

lemma par_children: "0 < i \<Longrightarrow> par i = p \<longleftrightarrow> i = 2 * p + 1 \<or> i = 2 * p + 2"
  by (auto simp: par_def)

definition is_heap :: "timer list \<Rightarrow> bool" where
  "is_heap h \<longleftrightarrow> (\<forall>i. 0 < i \<longrightarrow> i < length h \<longrightarrow> key h (par i) \<le> key h i)"

lemma heap_root_min: "is_heap h \<Longrightarrow> i < length h \<Longrightarrow> key h 0 \<le> key h i"
proof (induction i rule: less_induct)
  case (less i)
  show ?case
  proof (cases "i = 0")
    case False
    then have "key h 0 \<le> key h (par i)" using less par_less [of i] by simp
    also have "\<dots> \<le> key h i" using less.prems False by (simp add: is_heap_def)
    finally show ?thesis .
  qed simp
qed

lemma length_swap [simp]: "length (heap_swap h a b) = length h"
  by (simp add: heap_swap_def)

lemma mset_heap_swap [simp]: "a < length h \<Longrightarrow> b < length h \<Longrightarrow> mset (heap_swap h a b) = mset h"
  by (simp add: heap_swap_def mset_swap)

lemma key_swap:
  "\<lbrakk>a < length h; b < length h\<rbrakk> \<Longrightarrow>
     key (heap_swap h a b) i = (if i = a then key h b else if i = b then key h a else key h i)"
  by (auto simp: heap_swap_def key_def nth_list_update)

text \<open>A heap but for the entry at \<open>idx\<close>, which may be too small (up) or too large (down).\<close>

definition up_ok :: "timer list \<Rightarrow> nat \<Rightarrow> bool" where
  "up_ok h idx \<longleftrightarrow> idx < length h \<and>
     (\<forall>i. 0 < i \<longrightarrow> i < length h \<longrightarrow> i \<noteq> idx \<longrightarrow> key h (par i) \<le> key h i) \<and>
     (\<forall>i. 0 < i \<longrightarrow> i < length h \<longrightarrow> par i = idx \<longrightarrow> 0 < idx \<longrightarrow> key h (par idx) \<le> key h i)"

definition down_ok :: "timer list \<Rightarrow> nat \<Rightarrow> bool" where
  "down_ok h idx \<longleftrightarrow> idx < length h \<and>
     (\<forall>i. 0 < i \<longrightarrow> i < length h \<longrightarrow> par i \<noteq> idx \<longrightarrow> key h (par i) \<le> key h i) \<and>
     (\<forall>i. 0 < i \<longrightarrow> i < length h \<longrightarrow> par i = idx \<longrightarrow> 0 < idx \<longrightarrow> key h (par idx) \<le> key h i)"

lemma sift_up_step:
  assumes ok: "up_ok h idx" and idx: "0 < idx" and less: "key h idx < key h (par idx)"
  shows "up_ok (heap_swap h (par idx) idx) (par idx)"
proof -
  let ?p = "par idx" and ?h = "heap_swap h (par idx) idx"
  have r: "idx < length h" "?p < length h" "?p < idx" using ok par_less [OF idx] by (auto simp: up_ok_def)
  note k = key_swap [OF r(2,1)]
  have A: "key h (par i) \<le> key h i" if "0 < i" "i < length h" "i \<noteq> idx" for i using ok that by (simp add: up_ok_def)
  have B: "key h ?p \<le> key h i" if "0 < i" "i < length h" "par i = idx" for i
    using ok that idx by (simp add: up_ok_def)
  have "key ?h (par i) \<le> key ?h i" if i: "0 < i" "i < length h" "i \<noteq> ?p" for i
  proof -
    consider "i = idx" | "par i = idx" "i \<noteq> idx" | "par i = ?p" "i \<noteq> idx" | "par i \<noteq> idx" "par i \<noteq> ?p" "i \<noteq> idx" by blast
    then show ?thesis
    proof cases
      case 3
      then show ?thesis using k A [OF i(1,2)] less i r by auto
    qed (use k A [OF i(1,2)] B [OF i(1,2)] less i r in auto)
  qed
  moreover have "key ?h (par ?p) \<le> key ?h i" if i: "0 < i" "i < length h" "par i = ?p" "0 < ?p" for i
  proof -
    have pp: "par ?p < ?p" using par_less [OF i(4)] .
    have a: "key h (par ?p) \<le> key h ?p" using A [OF i(4) r(2)] r by simp
    show ?thesis
    proof (cases "i = idx")
      case True
      then show ?thesis using k a pp r by auto
    next
      case False
      have "i \<noteq> ?p" using i par_less [OF i(1)] by auto
      then show ?thesis using k a pp r A [OF i(1,2) False] i(3) False by auto
    qed
  qed
  ultimately show ?thesis using r by (simp add: up_ok_def)
qed

lemma sift_up_correct:
  "up_ok h idx \<Longrightarrow> is_heap (heap_sift_up h idx) \<and> mset (heap_sift_up h idx) = mset h"
proof (induction h idx rule: heap_sift_up.induct)
  case (1 h idx)
  show ?case
  proof (cases "idx = 0 \<or> key h (par idx) \<le> key h idx")
    case True
    then have "heap_sift_up h idx = h" by (auto simp: heap_sift_up.simps key_def par_def)
    then show ?thesis using True "1.prems" by (auto simp: is_heap_def up_ok_def)
  next
    case False
    then have c: "idx \<noteq> 0" "\<not> when_ms (h ! par idx) \<le> when_ms (h ! idx)" by (simp_all add: key_def)
    have e: "heap_sift_up h idx = heap_sift_up (heap_swap h (par idx) idx) (par idx)"
      using c by (subst heap_sift_up.simps) (simp add: par_def Let_def)
    have m: "mset (heap_swap h (par idx) idx) = mset h"
      using "1.prems" par_less [of idx] c by (intro mset_heap_swap) (auto simp: up_ok_def)
    have "up_ok (heap_swap h (par idx) idx) (par idx)" using sift_up_step "1.prems" False by simp
    then show ?thesis using "1.IH" c e m by (simp add: par_def)
  qed
qed

lemma smallest_child_min:
  assumes "s = smallest_child h (length h) idx" and "idx < length h"
  shows "key h s \<le> key h idx" and "\<And>i. 0 < i \<Longrightarrow> i < length h \<Longrightarrow> par i = idx \<Longrightarrow> key h s \<le> key h i"
    and "s \<noteq> idx \<Longrightarrow> 0 < s \<and> s < length h \<and> par s = idx \<and> key h s < key h idx"
proof -
  show "key h s \<le> key h idx" using assms by (auto simp: smallest_child_def Let_def key_def split: if_splits)
  show "key h s \<le> key h i" if "0 < i" "i < length h" "par i = idx" for i
    using assms that par_children [OF that(1), of idx]
    by (auto simp: smallest_child_def Let_def key_def split: if_splits)
  show "s \<noteq> idx \<Longrightarrow> 0 < s \<and> s < length h \<and> par s = idx \<and> key h s < key h idx"
    using assms by (auto simp: smallest_child_def Let_def key_def par_def split: if_splits)
qed

lemma sift_down_step:
  assumes ok: "down_ok h idx" and s: "s = smallest_child h (length h) idx" "s \<noteq> idx"
  shows "down_ok (heap_swap h s idx) s"
proof -
  let ?h = "heap_swap h s idx"
  have idx: "idx < length h" using ok by (simp add: down_ok_def)
  note sm = smallest_child_min [OF s(1) idx]
  have r: "0 < s" "s < length h" "par s = idx" "key h s < key h idx" using sm(3) [OF s(2)] by auto
  have lt: "idx < s" using par_less [OF r(1)] r(3) by simp
  note k = key_swap [OF r(2) idx]
  have A: "key h (par i) \<le> key h i" if "0 < i" "i < length h" "par i \<noteq> idx" for i
    using ok that by (simp add: down_ok_def)
  have B: "key h (par idx) \<le> key h i" if "0 < i" "i < length h" "par i = idx" "0 < idx" for i
    using ok that by (simp add: down_ok_def)
  have "key ?h (par i) \<le> key ?h i" if i: "0 < i" "i < length h" "par i \<noteq> s" for i
  proof -
    consider "par i = idx" "i = s" | "par i = idx" "i \<noteq> s" | "par i \<noteq> idx" "i = idx" | "par i \<noteq> idx" "i \<noteq> idx" "i \<noteq> s"
      using r(3) by blast
    then show ?thesis
    proof cases
      case 2
      then have "i \<noteq> idx" using par_less [OF i(1)] by auto
      then show ?thesis using k sm(2) [OF i(1,2)] 2 by auto
    next
      case 3
      then show ?thesis using k B [OF r(1,2,3)] i par_less [OF i(1)] by auto
    next
      case 4
      then show ?thesis using k A [OF i(1,2)] i by auto
    qed (use k r in auto)
  qed
  moreover have "key ?h (par s) \<le> key ?h i" if i: "0 < i" "i < length h" "par i = s" for i
  proof -
    have "i \<noteq> s" "i \<noteq> idx" "par i \<noteq> idx" using par_less [OF i(1)] i(3) lt by auto
    then show ?thesis using k A [OF i(1,2)] i(3) r(3) lt by auto
  qed
  ultimately show ?thesis using r by (simp add: down_ok_def)
qed

lemma sift_down_correct:
  "down_ok h idx \<Longrightarrow> n = length h \<Longrightarrow> is_heap (heap_sift_down h n idx) \<and> mset (heap_sift_down h n idx) = mset h"
proof (induction h n idx rule: heap_sift_down.induct)
  case (1 h n idx)
  let ?s = "smallest_child h n idx"
  have idx: "idx < length h" using "1.prems" by (simp add: down_ok_def)
  note sm = smallest_child_min [of ?s h idx, OF _ idx]
  show ?case
  proof (cases "?s = idx")
    case True
    then have "heap_sift_down h n idx = h" by (simp add: heap_sift_down.simps Let_def)
    moreover have "is_heap h"
      unfolding is_heap_def
    proof (intro allI impI)
      fix i assume i: "0 < i" "i < length h"
      show "key h (par i) \<le> key h i"
        using "1.prems" i True sm(2) by (cases "par i = idx") (auto simp: down_ok_def)
    qed
    ultimately show ?thesis by simp
  next
    case False
    have e: "heap_sift_down h n idx = heap_sift_down (heap_swap h ?s idx) n ?s"
      using False by (subst heap_sift_down.simps) (simp add: Let_def)
    have m: "mset (heap_swap h ?s idx) = mset h" using sm(3) False "1.prems" idx by (intro mset_heap_swap) auto
    have "down_ok (heap_swap h ?s idx) ?s" using sift_down_step [OF "1.prems"(1)] False "1.prems"(2) by blast
    then show ?thesis using "1.IH" [OF refl False] e m "1.prems"(2) by simp
  qed
qed

section \<open>The queue\<close>

text \<open>
  What the event loop relies on: adding adds one entry, removing takes out one that no other
  precedes. \<open>tm\<close> is the time of an entry.
\<close>

locale timer_queue =
  fixes ok :: "'q \<Rightarrow> bool" and bag :: "'q \<Rightarrow> 'e multiset" and tm :: "'e \<Rightarrow> int"
    and push :: "'q \<Rightarrow> 'e \<Rightarrow> 'q" and pop :: "'q \<Rightarrow> 'e \<times> 'q" and first :: "'q \<Rightarrow> 'e"
  assumes push_ok: "ok q \<Longrightarrow> ok (push q e) \<and> bag (push q e) = add_mset e (bag q)"
    and pop_ok: "ok q \<Longrightarrow> bag q \<noteq> {#} \<Longrightarrow> pop q = (e, q') \<Longrightarrow> ok q' \<and> bag q = add_mset e (bag q')"
    and first_pop: "ok q \<Longrightarrow> bag q \<noteq> {#} \<Longrightarrow> fst (pop q) = first q"
    and first_min: "ok q \<Longrightarrow> e \<in># bag q \<Longrightarrow> tm (first q) \<le> tm e"
begin

lemma nothing_due: "ok q \<Longrightarrow> \<not> tm (first q) \<le> now \<Longrightarrow> e \<in># bag q \<Longrightarrow> now < tm e"
  using first_min by fastforce

lemma pop_min: "\<lbrakk>ok q; bag q \<noteq> {#}; pop q = (e, q'); x \<in># bag q'\<rbrakk> \<Longrightarrow> tm e \<le> tm x"
  using pop_ok [of q e q'] first_pop [of q] first_min [of q x] by auto

end

definition bag_of :: "evloop \<Rightarrow> timer multiset" where
  "bag_of ev = mset (timers ev)"

definition loop_ok :: "evloop \<Rightarrow> bool" where
  "loop_ok ev \<longleftrightarrow> is_heap (timers ev)"

lemma up_ok_append:
  assumes "is_heap h"
  shows "up_ok (h @ [t]) (length h)"
proof -
  have k: "key (h @ [t]) i = key h i" if "i < length h" for i using that by (simp add: key_def nth_append)
  have "key (h @ [t]) (par i) \<le> key (h @ [t]) i" if "0 < i" "i < length h" for i
    using assms that k [of i] k [of "par i"] par_less [of i] by (simp add: is_heap_def)
  moreover have "\<not> (i < Suc (length h) \<and> 0 < i \<and> par i = length h)" for i
    using par_less [of i] by auto
  ultimately show ?thesis by (auto simp: up_ok_def less_Suc_eq)
qed

lemma heap_push_ok:
  "loop_ok ev \<Longrightarrow> loop_ok (heap_push ev t) \<and> bag_of (heap_push ev t) = add_mset t (bag_of ev)"
  using sift_up_correct [OF up_ok_append, of "timers ev" t]
  by (simp add: loop_ok_def bag_of_def heap_push_def)

lemma down_ok_root:
  assumes "is_heap h" and "h \<noteq> []" and "n \<le> length h" and "0 < n"
  shows "down_ok ((take n h)[0 := t]) 0"
proof -
  have k: "key ((take n h)[0 := t]) i = key h i" if "0 < i" "i < n" for i
    using that assms(3) by (simp add: key_def)
  have "key ((take n h)[0 := t]) (par i) \<le> key ((take n h)[0 := t]) i" if i: "0 < i" "i < n" "par i \<noteq> 0" for i
    using assms(1,3) i k [OF i(1,2)] k [of "par i"] par_less [OF i(1)] by (simp add: is_heap_def)
  moreover have "length ((take n h)[0 := t]) = n" using assms(3) by simp
  ultimately show ?thesis unfolding down_ok_def using assms(4) by auto
qed

lemma heap_pop_ok:
  assumes "loop_ok ev" and "timers ev \<noteq> []" and "heap_pop ev = (t, ev')"
  shows "loop_ok ev' \<and> bag_of ev = add_mset t (bag_of ev') \<and> t = timers ev ! 0"
proof -
  define h where "h = timers ev"
  define r where "r = butlast h"
  have h: "h = r @ [last h]" using assms(2) by (simp add: h_def r_def)
  have t: "t = h ! 0" "timers ev' = (if r = [] then [] else heap_sift_down (r[0 := last h]) (length r) 0)"
    using assms(3) by (auto simp: heap_pop_def Let_def h_def r_def)
  show ?thesis
  proof (cases "r = []")
    case True
    then have "h = [last h]" using h by simp
    then have "mset h = {#h ! 0#}" by (metis mset_single_iff nth_Cons_0)
    then show ?thesis using t True by (simp add: loop_ok_def bag_of_def is_heap_def h_def)
  next
    case False
    have "take (length r) h = r" by (metis append_eq_conv_conj h)
    then have d: "down_ok (r[0 := last h]) 0"
      using down_ok_root [of h "length r" "last h"] assms(1,2) False
      by (simp add: loop_ok_def h_def [symmetric]) (simp add: h_def r_def)
    have "mset h = add_mset (h ! 0) (mset (r[0 := last h]))"
    proof -
      obtain x xs where r: "r = x # xs" using False by (cases r) auto
      then have "h ! 0 = x" using h by (metis append_Cons nth_Cons_0)
      then show ?thesis using h r by (metis add_mset_commute append_Cons list_update_code(2) mset.simps(2) mset_append union_mset_add_mset_right mset.simps(1) add.right_neutral)
    qed
    then show ?thesis using sift_down_correct [OF d] t False by (simp add: loop_ok_def bag_of_def h_def)
  qed
qed

interpretation heap: timer_queue loop_ok bag_of when_ms heap_push heap_pop "\<lambda>ev. timers ev ! 0"
proof
  show "loop_ok q \<Longrightarrow> loop_ok (heap_push q e) \<and> bag_of (heap_push q e) = add_mset e (bag_of q)" for q e
    by (rule heap_push_ok)
  show "loop_ok q' \<and> bag_of q = add_mset e (bag_of q')"
    if "loop_ok q" "bag_of q \<noteq> {#}" "heap_pop q = (e, q')" for q e q'
    using heap_pop_ok [OF that(1) _ that(3)] that(2) by (simp add: bag_of_def)
  show "fst (heap_pop q) = timers q ! 0" for q by (simp add: heap_pop_def Let_def)
  show "when_ms (timers q ! 0) \<le> when_ms e" if "loop_ok q" "e \<in># bag_of q" for q e
    using that heap_root_min by (auto simp: loop_ok_def bag_of_def in_set_conv_nth key_def)
qed

section \<open>Firing\<close>

text \<open>Callbacks may add timers for later, but leave those there are.\<close>

definition friendly :: "(timer \<Rightarrow> evloop \<Rightarrow> evloop) \<Rightarrow> int \<Rightarrow> bool" where
  "friendly call now \<longleftrightarrow>
     (\<forall>t ev. loop_ok ev \<longrightarrow> loop_ok (call t ev) \<and>
        (\<exists>new. bag_of (call t ev) = bag_of ev + new \<and> (\<forall>x \<in># new. now < when_ms x)))"

definition rearm :: "int \<Rightarrow> timer \<Rightarrow> timer" where
  "rearm now t = t\<lparr>when_ms := now + repeat_ms t\<rparr>"

abbreviation due :: "int \<Rightarrow> timer \<Rightarrow> bool" where
  "due now t \<equiv> when_ms t \<le> now"

lemma bag_empty: "bag_of ev = {#} \<longleftrightarrow> timers ev = []"
  by (simp add: bag_of_def)

lemma bag_of_counter [simp]:
  "bag_of (ev\<lparr>total_timers_fired := n\<rparr>) = bag_of ev" "loop_ok (ev\<lparr>total_timers_fired := n\<rparr>) = loop_ok ev"
  by (simp_all add: bag_of_def loop_ok_def)

definition fires :: "int \<Rightarrow> evloop \<Rightarrow> timer list \<Rightarrow> evloop \<Rightarrow> bool" where
  "fires now ev fired ev' \<longleftrightarrow>
     loop_ok ev' \<and> (\<forall>x \<in># bag_of ev'. now < when_ms x) \<and>
     mset fired = filter_mset (\<lambda>t. t_active t \<and> due now t) (bag_of ev) \<and>
     sorted (map when_ms fired) \<and>
     filter_mset (\<lambda>t. \<not> due now t) (bag_of ev) +
       image_mset (rearm now) (filter_mset (\<lambda>t. t_active t \<and> due now t \<and> 0 < repeat_ms t) (bag_of ev)) \<subseteq># bag_of ev'"

lemma filter_mset_none: "\<forall>x \<in># M. \<not> P x \<Longrightarrow> filter_mset P M = {#}"
  by (induction M) auto

lemma filter_mset_all: "\<forall>x \<in># M. P x \<Longrightarrow> filter_mset P M = M"
  by (induction M) auto

lemma fires_none:
  assumes "loop_ok ev" and "\<not> (timers ev \<noteq> [] \<and> when_ms (timers ev ! 0) \<le> now)"
  shows "fires now ev [] ev"
proof -
  have late: "now < when_ms x" if "x \<in># bag_of ev" for x
    using heap.nothing_due [OF assms(1) _ that] assms(2) that bag_empty by force
  then have "filter_mset (\<lambda>t. t_active t \<and> due now t) (bag_of ev) = {#}"
    "filter_mset (\<lambda>t. t_active t \<and> due now t \<and> 0 < repeat_ms t) (bag_of ev) = {#}"
    "filter_mset (\<lambda>t. \<not> due now t) (bag_of ev) = bag_of ev"
    using late by (intro filter_mset_none filter_mset_all ballI; fastforce)+
  then show ?thesis using assms(1) late by (simp add: fires_def)
qed

text \<open>One round, seen from the queue.\<close>

lemma fire_loop_step:
  assumes fr: "friendly call now" and ok: "loop_ok ev" and go: "timers ev \<noteq> []" "when_ms (timers ev ! 0) \<le> now"
  obtains t ev1 new where "bag_of ev = add_mset t (bag_of ev1)" "due now t" "\<forall>x \<in># bag_of ev1. when_ms t \<le> when_ms x"
    and "\<forall>x \<in># new. now < when_ms x"
    and "\<not> t_active t \<Longrightarrow> loop_ok ev1 \<and> fire_loop call now ev = fire_loop call now ev1"
    and "t_active t \<Longrightarrow> \<exists>ev4. loop_ok ev4 \<and>
      bag_of ev4 = bag_of ev1 + new + (if 0 < repeat_ms t then {#rearm now t#} else {#}) \<and>
      fire_loop call now ev = fire_loop call now ev4 \<bind> (\<lambda>(fired, ev'). Some (t # fired, ev'))"
proof -
  obtain t ev1 where p: "heap_pop ev = (t, ev1)" by fastforce
  note po = heap_pop_ok [OF ok go(1) p]
  obtain new where new: "bag_of (call t ev1) = bag_of ev1 + new" "\<forall>x \<in># new. now < when_ms x" "loop_ok (call t ev1)"
    using fr po unfolding friendly_def by blast
  define ev4 where "ev4 = (let e = (call t ev1)\<lparr>total_timers_fired := total_timers_fired (call t ev1) + 1\<rparr>
      in if 0 < repeat_ms t then heap_push e (rearm now t) else e)"
  have e4: "loop_ok ev4" "bag_of ev4 = bag_of ev1 + new + (if 0 < repeat_ms t then {#rearm now t#} else {#})"
    using new heap_push_ok by (auto simp: ev4_def Let_def)
  have u: "fire_loop call now ev =
      (if t_active t then fire_loop call now ev4 \<bind> (\<lambda>(fired, ev'). Some (t # fired, ev'))
       else fire_loop call now ev1)"
    using go by (subst fire_loop.simps) (simp add: p ev4_def rearm_def Let_def)
  have min: "\<forall>x \<in># bag_of ev1. when_ms t \<le> when_ms x"
    using heap.pop_min [OF ok _ p] bag_empty go(1) by blast
  show ?thesis
    by (rule that [of t ev1 new]) (use po go new min u e4 in auto)
qed

lemma fire_loop_fires:
  assumes fr: "friendly call now"
  shows "loop_ok ev \<Longrightarrow> \<exists>fired ev'. fire_loop call now ev = Some (fired, ev') \<and> fires now ev fired ev'"
proof (induction "size (filter_mset (due now) (bag_of ev))" arbitrary: ev rule: less_induct)
  case less
  show ?case
  proof (cases "timers ev \<noteq> [] \<and> when_ms (timers ev ! 0) \<le> now")
    case False
    then have "fire_loop call now ev = Some ([], ev)" by (subst fire_loop.simps) auto
    then show ?thesis using fires_none [OF less.prems False] by blast
  next
    case True
    obtain t ev1 new where st: "bag_of ev = add_mset t (bag_of ev1)" "due now t" "\<forall>x \<in># bag_of ev1. when_ms t \<le> when_ms x"
      "\<forall>x \<in># new. now < when_ms x"
      "\<not> t_active t \<Longrightarrow> loop_ok ev1 \<and> fire_loop call now ev = fire_loop call now ev1"
      "t_active t \<Longrightarrow> \<exists>ev4. loop_ok ev4 \<and>
        bag_of ev4 = bag_of ev1 + new + (if 0 < repeat_ms t then {#rearm now t#} else {#}) \<and>
        fire_loop call now ev = fire_loop call now ev4 \<bind> (\<lambda>(fired, ev'). Some (t # fired, ev'))"
      using fire_loop_step [OF fr less.prems] True by blast
    show ?thesis
    proof (cases "t_active t")
      case False
      then obtain fired ev' where "fire_loop call now ev1 = Some (fired, ev')" "fires now ev1 fired ev'"
        using less.hyps [of ev1] st by auto
      then show ?thesis using st(1,2,5) False by (auto simp: fires_def)
    next
      case True
      then obtain ev4 where e4: "loop_ok ev4"
        "bag_of ev4 = bag_of ev1 + new + (if 0 < repeat_ms t then {#rearm now t#} else {#})"
        "fire_loop call now ev = fire_loop call now ev4 \<bind> (\<lambda>(fired, ev'). Some (t # fired, ev'))"
        using st(6) by blast
      have none: "filter_mset (due now) new = {#}" "filter_mset (\<lambda>t. t_active t \<and> due now t) new = {#}"
        "filter_mset (\<lambda>t. t_active t \<and> due now t \<and> 0 < repeat_ms t) new = {#}"
        "filter_mset (\<lambda>t. \<not> due now t) new = new"
        using st(4) by (intro filter_mset_none filter_mset_all ballI; fastforce)+
      have later: "0 < repeat_ms t \<Longrightarrow> \<not> due now (rearm now t)" by (simp add: rearm_def)
      have "size (filter_mset (due now) (bag_of ev4)) < size (filter_mset (due now) (bag_of ev))"
        using e4(2) st(1,2) none(1) later by simp
      then obtain fired ev' where f: "fire_loop call now ev4 = Some (fired, ev')" "fires now ev4 fired ev'"
        using less.hyps e4(1) by blast
      have m: "mset fired = filter_mset (\<lambda>t. t_active t \<and> due now t) (bag_of ev1)"
        using f(2) e4(2) none(2) later by (simp add: fires_def split: if_splits)
      have "\<forall>x \<in> set fired. when_ms t \<le> when_ms x"
        using st(3) arg_cong [OF m, of set_mset] by auto
      then have "sorted (map when_ms (t # fired))" using f(2) by (auto simp: fires_def)
      moreover have "filter_mset (\<lambda>t. \<not> due now t) (bag_of ev) +
          image_mset (rearm now) (filter_mset (\<lambda>t. t_active t \<and> due now t \<and> 0 < repeat_ms t) (bag_of ev)) \<subseteq># bag_of ev'"
      proof -
        let ?R = "\<lambda>M. image_mset (rearm now) (filter_mset (\<lambda>t. t_active t \<and> due now t \<and> 0 < repeat_ms t) M)"
          and ?N = "filter_mset (\<lambda>t. \<not> due now t)"
        have "?N (bag_of ev) + ?R (bag_of ev) \<subseteq># ?N (bag_of ev4) + ?R (bag_of ev4)"
          using e4(2) st(1,2) True none(3,4) later by simp
        also have "\<dots> \<subseteq># bag_of ev'" using f(2) by (simp add: fires_def)
        finally show ?thesis .
      qed
      ultimately have "fires now ev (t # fired) ev'" using f(2) m st(1,2) True by (simp add: fires_def)
      then show ?thesis using e4(3) f(1) by auto
    qed
  qed
qed

end
