(* ===== verification/XTimersSpec.thy ===== *)
theory XTimersSpec
  imports XTimersProofs
begin

text \<open>
  What the event loop promises: its heap is a queue by time, due timers fire once each and in
  order, cancelled ones do not, the wait never passes the first timer, and the table of event
  sources is a map from active descriptors.
\<close>

section \<open>Event sources\<close>

lemma find_from_Some:
  "0 \<le> i \<Longrightarrow> find_from ss f i \<noteq> -1 \<Longrightarrow>
     \<exists>k < length ss. find_from ss f i = i + int k \<and> fd (ss ! k) = f \<and> s_active (ss ! k)"
proof (induction ss f i rule: find_from.induct)
  case (2 s ss f i)
  show ?case
  proof (cases "fd s = f \<and> s_active s")
    case True
    then show ?thesis by (intro exI [of _ 0]) simp
  next
    case False
    then obtain k where "k < length ss" "find_from ss f (i + 1) = i + 1 + int k" "fd (ss ! k) = f" "s_active (ss ! k)"
      using 2 by auto
    then show ?thesis using False by (intro exI [of _ "Suc k"]) simp
  qed
qed simp

lemma find_from_None: "0 \<le> i \<Longrightarrow> find_from ss f i = -1 \<longleftrightarrow> (\<forall>s \<in> set ss. \<not> (fd s = f \<and> s_active s))"
  by (induction ss f i rule: find_from.induct) auto

lemma free_slot_Some: "free_slot ss i = Some k \<Longrightarrow> i \<le> k \<and> k - i < length ss \<and> \<not> s_active (ss ! (k - i))"
proof (induction ss i rule: free_slot.induct)
  case (2 s ss i)
  then show ?case by (cases "s_active s") (auto simp: nth_Cons' Suc_diff_le)
qed simp

text \<open>The source of an active descriptor, and that there is only one.\<close>

definition fd_entry :: "evloop \<Rightarrow> int \<Rightarrow> source \<Rightarrow> bool" where
  "fd_entry ev f s \<longleftrightarrow> s \<in> set (sources ev) \<and> s_active s \<and> fd s = f"

definition fds_unique :: "evloop \<Rightarrow> bool" where
  "fds_unique ev \<longleftrightarrow>
     (\<forall>i < length (sources ev). \<forall>j < length (sources ev).
        s_active (sources ev ! i) \<longrightarrow> s_active (sources ev ! j) \<longrightarrow> fd (sources ev ! i) = fd (sources ev ! j) \<longrightarrow> i = j)"

text \<open>Putting a source into the table at a place that is not active, or is the descriptor's own.\<close>

lemma source_update:
  assumes u: "fds_unique ev" and k: "k < length (sources ev)"
    and own: "\<not> s_active (sources ev ! k) \<and> (\<forall>x. \<not> fd_entry ev (fd s) x) \<or> s_active (sources ev ! k) \<and> fd (sources ev ! k) = fd s"
  shows "fds_unique (ev\<lparr>sources := (sources ev)[k := s]\<rparr>)"
    and "fd_entry (ev\<lparr>sources := (sources ev)[k := s]\<rparr>) g x \<longleftrightarrow>
      (if g = fd s then s_active s \<and> x = s else fd_entry ev g x)"
proof -
  have other: "fd (sources ev ! i) \<noteq> fd s" if "i < length (sources ev)" "i \<noteq> k" "s_active (sources ev ! i)" for i
    using own
  proof
    assume "\<not> s_active (sources ev ! k) \<and> (\<forall>x. \<not> fd_entry ev (fd s) x)"
    then show ?thesis using that by (auto simp: fd_entry_def)
  next
    assume "s_active (sources ev ! k) \<and> fd (sources ev ! k) = fd s"
    then show ?thesis using u that k unfolding fds_unique_def by metis
  qed
  have ev_sources: "sources (ev\<lparr>sources := (sources ev)[k := s]\<rparr>) = (sources ev)[k := s]" by simp
  have n: "(sources ev)[k := s] ! i = (if i = k then s else sources ev ! i)" for i
    using k by (simp add: nth_list_update)
  show "fds_unique (ev\<lparr>sources := (sources ev)[k := s]\<rparr>)"
    unfolding fds_unique_def ev_sources length_list_update n
  proof (intro allI impI)
    fix i j
    assume ij: "i < length (sources ev)" "j < length (sources ev)"
      "s_active (if i = k then s else sources ev ! i)" "s_active (if j = k then s else sources ev ! j)"
      "fd (if i = k then s else sources ev ! i) = fd (if j = k then s else sources ev ! j)"
    then show "i = j"
      using u other [of i] other [of j] unfolding fds_unique_def by (cases "i = k"; cases "j = k") auto
  qed
  have mem: "x \<in> set ((sources ev)[k := s]) \<longleftrightarrow> x = s \<or> (\<exists>i < length (sources ev). i \<noteq> k \<and> x = sources ev ! i)"
    unfolding in_set_conv_nth length_list_update n using k by auto
  have old: "fd_entry ev g x \<longleftrightarrow> (\<exists>i < length (sources ev). x = sources ev ! i) \<and> s_active x \<and> fd x = g"
    by (auto simp: fd_entry_def in_set_conv_nth)
  have at_k: "\<not> (s_active (sources ev ! k) \<and> fd (sources ev ! k) \<noteq> fd s)" using own by blast
  show "fd_entry (ev\<lparr>sources := (sources ev)[k := s]\<rparr>) g x \<longleftrightarrow>
      (if g = fd s then s_active s \<and> x = s else fd_entry ev g x)"
  proof (cases "g = fd s")
    case True
    then show ?thesis using other by (auto simp: fd_entry_def mem)
  next
    case False
    then show ?thesis using at_k unfolding old by (auto simp: fd_entry_def mem)
  qed
qed

lemma source_append:
  assumes "fds_unique ev" and "\<forall>x. \<not> fd_entry ev (fd s) x"
  shows "fds_unique (ev\<lparr>src_cap := c, sources := sources ev @ [s]\<rparr>)"
    and "fd_entry (ev\<lparr>src_cap := c, sources := sources ev @ [s]\<rparr>) g x \<longleftrightarrow>
      (if g = fd s then s_active s \<and> x = s else fd_entry ev g x)"
  using assms by (auto simp: fds_unique_def fd_entry_def nth_append less_Suc_eq)

lemma find_source_entry:
  assumes "fds_unique ev"
  shows "find_source ev f < 0 \<longleftrightarrow> (\<forall>x. \<not> fd_entry ev f x)"
    and "0 \<le> find_source ev f \<Longrightarrow> nat (find_source ev f) < length (sources ev) \<and>
      fd_entry ev f (sources ev ! nat (find_source ev f))"
proof -
  have none: "find_source ev f = -1 \<longleftrightarrow> (\<forall>x. \<not> fd_entry ev f x)"
    using find_from_None [of 0 "sources ev" f] by (auto simp: find_source_def fd_entry_def)
  have some: "\<exists>k < length (sources ev). find_source ev f = int k \<and> fd_entry ev f (sources ev ! k)"
    if "find_source ev f \<noteq> -1"
    using find_from_Some [of 0 "sources ev" f] that by (auto simp: find_source_def fd_entry_def)
  then show "find_source ev f < 0 \<longleftrightarrow> (\<forall>x. \<not> fd_entry ev f x)"
    using none by fastforce
  show "0 \<le> find_source ev f \<Longrightarrow> nat (find_source ev f) < length (sources ev) \<and>
      fd_entry ev f (sources ev ! nat (find_source ev f))"
    using some by fastforce
qed

lemma entry_unique: "\<lbrakk>fds_unique ev; fd_entry ev f x; fd_entry ev f y\<rbrakk> \<Longrightarrow> x = y"
  unfolding fds_unique_def fd_entry_def in_set_conv_nth by metis

section \<open>Cancelling\<close>

lemma cancel_loop_facts:
  "cancel_loop ts i = Some ts' \<Longrightarrow>
     length ts' = length ts \<and> (\<forall>k < length ts. when_ms (ts' ! k) = when_ms (ts ! k)) \<and>
     map t_id ts' = map t_id ts \<and>
     (distinct (map t_id ts) \<longrightarrow> (\<forall>t \<in> set ts'. t_active t \<longrightarrow> t_id t \<noteq> i \<and> t \<in> set ts))"
proof (induction ts arbitrary: ts')
  case (Cons t ts)
  show ?case
  proof (cases "t_id t = i")
    case True
    then have ts': "ts' = t\<lparr>t_active := False\<rparr> # ts" using Cons.prems by simp
    have "u \<in> set ts \<Longrightarrow> distinct (map t_id (t # ts)) \<Longrightarrow> t_id u \<noteq> i" for u
      using True by (metis distinct.simps(2) image_eqI list.simps(9) set_map)
    then show ?thesis using True by (auto simp: ts' nth_Cons')
  next
    case False
    then obtain us where "cancel_loop ts i = Some us" "ts' = t # us" using Cons.prems by auto
    then show ?thesis using Cons.IH [of us] False by (auto simp: nth_Cons')
  qed
qed simp

lemma heap_same_times:
  "\<lbrakk>length h' = length h; \<forall>k < length h. when_ms (h' ! k) = when_ms (h ! k); is_heap h\<rbrakk> \<Longrightarrow> is_heap h'"
  using par_less by (auto simp: is_heap_def key_def) (metis less_trans)

section \<open>Properties\<close>

text \<open>C26. The array heap is a queue by time: adding a timer keeps the heap order and adds one entry;
  taking one out keeps the order, removes one entry, and no other entry is earlier.\<close>
theorem timer_heap_refines:
  assumes "loop_ok ev"
  shows "loop_ok (heap_push ev t) \<and> mset (timers (heap_push ev t)) = add_mset t (mset (timers ev)) \<and>
    (timers ev \<noteq> [] \<longrightarrow> (case heap_pop ev of (e, ev') \<Rightarrow>
       loop_ok ev' \<and> mset (timers ev) = add_mset e (mset (timers ev')) \<and>
       (\<forall>x \<in> set (timers ev'). when_ms e \<le> when_ms x)))"
proof -
  obtain e ev' where p: "heap_pop ev = (e, ev')" by fastforce
  show ?thesis
    using heap.push_ok [OF assms, of t] heap.pop_ok [OF assms _ p] heap.pop_min [OF assms _ p] p
    by (auto simp: bag_of_def)
qed

abbreviation timer_at :: "int \<Rightarrow> int \<Rightarrow> int \<Rightarrow> timer" where
  "timer_at w r i \<equiv> \<lparr>when_ms = w, fn = 0, ctx = 0, repeat_ms = r, t_active = True, t_id = i\<rparr>"

abbreviation loop_with :: "timer list \<Rightarrow> evloop" where
  "loop_with ts \<equiv> \<lparr>sources = [], src_cap = 64, running = True, timers = ts, timer_cap = 16,
     next_timer_id = 10, total_timers_fired = 0\<rparr>"

theorem timer_heap_refines_witness:
  "mset (timers (heap_push (loop_with []) (timer_at 5 0 1))) = {#timer_at 5 0 1#}"
  using timer_heap_refines [of "loop_with []" "timer_at 5 0 1"] by (simp add: loop_ok_def is_heap_def)

text \<open>C11. Firing ends when the callbacks add no timers that are already due, and then: exactly the
  active timers that are due fire, once each, ordered by time; the heap order holds; every timer
  left is later than now; and all timers not yet due and all repeating ones that fired, moved on by
  their period, are left.\<close>
theorem fire_timers_exact:
  assumes "friendly call now" and "loop_ok ev"
  shows "\<exists>fired ev'. fire_timers call now ev = Some (fired, ev') \<and> loop_ok ev' \<and>
    mset fired = filter_mset (\<lambda>t. t_active t \<and> when_ms t \<le> now) (mset (timers ev)) \<and>
    sorted (map when_ms fired) \<and> (\<forall>x \<in> set (timers ev'). now < when_ms x) \<and>
    filter_mset (\<lambda>t. now < when_ms t) (mset (timers ev)) \<subseteq># mset (timers ev') \<and>
    (\<forall>t \<in> set fired. 0 < repeat_ms t \<longrightarrow> rearm now t \<in> set (timers ev'))"
proof -
  obtain fired ev' where f: "fire_loop call now ev = Some (fired, ev')" "fires now ev fired ev'"
    using fire_loop_fires [OF assms] by blast
  let ?R = "image_mset (rearm now) (filter_mset (\<lambda>t. t_active t \<and> due now t \<and> 0 < repeat_ms t) (bag_of ev))"
  have sub: "filter_mset (\<lambda>t. \<not> due now t) (bag_of ev) + ?R \<subseteq># bag_of ev'" using f(2) by (simp add: fires_def)
  have keep: "filter_mset (\<lambda>t. now < when_ms t) (mset (timers ev)) \<subseteq># mset (timers ev')"
    using subset_mset.order_trans [OF mset_subset_eq_add_left sub] by (simp add: bag_of_def not_le)
  have "rearm now t \<in> set (timers ev')" if "t \<in> set fired" "0 < repeat_ms t" for t
  proof -
    have "t \<in># mset fired" using that by simp
    then have "t \<in># filter_mset (\<lambda>t. t_active t \<and> due now t) (bag_of ev)" using f(2) by (simp only: fires_def)
    then have "rearm now t \<in># ?R" using that by auto
    then have "rearm now t \<in># bag_of ev'" using mset_subset_eqD [OF sub] by simp
    then show ?thesis by (simp add: bag_of_def)
  qed
  then show ?thesis using f keep by (auto simp: fire_timers_def fires_def bag_of_def)
qed

theorem fire_timers_exact_witness:
  "\<exists>fired ev'. fire_timers (\<lambda>t ev. ev) 7 (loop_with [timer_at 5 0 1]) = Some (fired, ev') \<and>
     mset fired = {#timer_at 5 0 1#}"
  using fire_timers_exact [of "\<lambda>t ev. ev" 7 "loop_with [timer_at 5 0 1]"]
  by (auto simp: friendly_def loop_ok_def is_heap_def)

text \<open>C28. A cancelled timer does not fire: after \<open>evloop_cancel_timer\<close> reports success, with the timers'
  numbers distinct, the timers that fire all have other numbers.\<close>
theorem cancelled_never_fires:
  assumes "loop_ok ev" and "distinct (map t_id (timers ev))" and "friendly call now"
    and "evloop_cancel_timer ev i = (0, ev1)" and "fire_timers call now ev1 = Some (fired, ev2)"
  shows "i \<notin> t_id ` set fired"
proof -
  obtain ts where ts: "cancel_loop (timers ev) i = Some ts" "ev1 = ev\<lparr>timers := ts\<rparr>"
    using assms(4) by (auto simp: evloop_cancel_timer_def split: option.splits)
  note c = cancel_loop_facts [OF ts(1)]
  have "loop_ok ev1" using assms(1) c heap_same_times ts(2) by (auto simp: loop_ok_def)
  then have "mset fired = filter_mset (\<lambda>t. t_active t \<and> due now t) (mset ts)"
    using fire_loop_fires [OF assms(3), of ev1] assms(5) ts(2) by (auto simp: fire_timers_def fires_def bag_of_def)
  then have "set fired \<subseteq> {t \<in> set ts. t_active t}" by (metis (no_types, lifting) filter_mset_def mem_Collect_eq set_mset_filter set_mset_mset subsetI)
  then show ?thesis using c assms(2) by auto
qed

theorem cancelled_never_fires_witness:
  "\<exists>ev1 fired ev2. evloop_cancel_timer (loop_with [timer_at 5 0 1, timer_at 6 0 2]) 1 = (0, ev1) \<and>
     fire_timers (\<lambda>t ev. ev) 7 ev1 = Some (fired, ev2) \<and> 1 \<notin> t_id ` set fired"
proof -
  let ?ev = "loop_with [timer_at 5 0 1, timer_at 6 0 2]"
  obtain ev1 where c: "evloop_cancel_timer ?ev 1 = (0, ev1)"
    by (simp add: evloop_cancel_timer_def)
  have h: "loop_ok ?ev" by (auto simp: loop_ok_def is_heap_def key_def par_def less_Suc_eq)
  have fr: "friendly (\<lambda>t ev. ev) 7" by (simp add: friendly_def)
  have "loop_ok ev1" using c h by (auto simp: evloop_cancel_timer_def loop_ok_def is_heap_def key_def par_def less_Suc_eq)
  then obtain fired ev2 where f: "fire_timers (\<lambda>t ev. ev) 7 ev1 = Some (fired, ev2)"
    using fire_loop_fires [OF fr \<open>loop_ok ev1\<close>] unfolding fire_timers_def by blast
  show ?thesis using cancelled_never_fires [OF h _ fr c f] c f by simp
qed

text \<open>A repeating timer that cancels itself in its callback fires again: while it runs it is not in
  the heap, so the cancellation finds nothing, and the copy put back is still active.\<close>
theorem self_cancel_ignored:
  "fire_timers (\<lambda>t ev. snd (evloop_cancel_timer ev (t_id t))) 7 (loop_with [timer_at 5 10 1]) =
     Some ([timer_at 5 10 1], (loop_with [timer_at 17 10 1])\<lparr>total_timers_fired := 1\<rparr>)"
proof -
  have "fire_loop c 7 ((loop_with [timer_at 17 10 1])\<lparr>total_timers_fired := 1\<rparr>) =
      Some ([], (loop_with [timer_at 17 10 1])\<lparr>total_timers_fired := 1\<rparr>)" for c
    by (subst fire_loop.simps) simp
  then show ?thesis
    unfolding fire_timers_def
    by (subst fire_loop.simps)
      (simp add: heap_pop_def evloop_cancel_timer_def heap_push_def heap_sift_up.simps)
qed

text \<open>The wait of one round never passes the caller's limit nor the first timer, and is endless
  (-1) only when neither exists.\<close>
theorem poll_timeout_bound:
  assumes "loop_ok ev"
  shows "(0 \<le> limit \<longrightarrow> 0 \<le> poll_timeout now ev limit \<and> poll_timeout now ev limit \<le> limit) \<and>
    (\<forall>t \<in> set (timers ev). 0 \<le> poll_timeout now ev limit \<and> poll_timeout now ev limit \<le> max 0 (when_ms t - now)) \<and>
    (poll_timeout now ev limit < 0 \<longrightarrow> limit < 0 \<and> timers ev = [])"
proof -
  have "when_ms (timers ev ! 0) \<le> when_ms t" if "t \<in> set (timers ev)" for t
    using heap.first_min [OF assms, of t] that by (simp add: bag_of_def)
  then have "0 \<le> heap_peek_ms now ev \<and> heap_peek_ms now ev \<le> max 0 (when_ms t - now)" if "t \<in> set (timers ev)" for t
    using that by (fastforce simp: heap_peek_ms_def Let_def)
  moreover have "timers ev = [] \<longleftrightarrow> heap_peek_ms now ev < 0" by (simp add: heap_peek_ms_def Let_def)
  ultimately show ?thesis
    by (auto simp: poll_timeout_def Let_def split: if_splits) fastforce+
qed

theorem poll_timeout_bound_witness:
  "poll_timeout 0 (loop_with [timer_at 5 0 1]) 100 \<le> 5"
  using poll_timeout_bound [of "loop_with [timer_at 5 0 1]" 100 0]
  by (simp add: loop_ok_def is_heap_def)

section \<open>The table of event sources\<close>

lemma fd_table_cases:
  assumes "fds_unique ev" and "0 \<le> f"
  shows "case evloop_add_fd res ev f es cb cx of (r, ev') \<Rightarrow> fds_unique ev' \<and>
      (if \<exists>s. fd_entry ev f s then r = -1 \<and> ev' = ev
       else r = res \<and> (\<forall>g s. fd_entry ev' g s \<longleftrightarrow>
         (if g = f then s = \<lparr>fd = f, events = es, s_callback = cb, s_ctx = cx, s_active = True\<rparr> else fd_entry ev g s)))"
    and "case evloop_mod_fd res ev f es of (r, ev') \<Rightarrow> fds_unique ev' \<and>
      (if \<exists>s. fd_entry ev f s
       then r = res \<and> (\<forall>g s. fd_entry ev' g s \<longleftrightarrow>
         (if g = f then \<exists>s0. fd_entry ev f s0 \<and> s = s0\<lparr>events := es\<rparr> else fd_entry ev g s))
       else r = -1 \<and> ev' = ev)"
    and "case evloop_remove_fd res ev f of (r, ev') \<Rightarrow> fds_unique ev' \<and>
      (if \<exists>s. fd_entry ev f s
       then r = res \<and> (\<forall>g s. fd_entry ev' g s \<longleftrightarrow> g \<noteq> f \<and> fd_entry ev g s)
       else r = -1 \<and> ev' = ev)"
proof -
  note fs = find_source_entry [OF assms(1), of f]
  let ?new = "\<lparr>fd = f, events = es, s_callback = cb, s_ctx = cx, s_active = True\<rparr>"
  show "case evloop_add_fd res ev f es cb cx of (r, ev') \<Rightarrow> fds_unique ev' \<and>
      (if \<exists>s. fd_entry ev f s then r = -1 \<and> ev' = ev
       else r = res \<and> (\<forall>g s. fd_entry ev' g s \<longleftrightarrow> (if g = f then s = ?new else fd_entry ev g s)))"
  proof (cases "find_source ev f < 0")
    case True
    then have none: "\<forall>x. \<not> fd_entry ev (fd ?new) x" using fs(1) by simp
    show ?thesis
    proof (cases "free_slot (sources ev) 0")
      case None
      then show ?thesis
        using True none assms(2) source_append [OF assms(1) none] by (simp add: evloop_add_fd_def Let_def)
    next
      case (Some k)
      then have k: "k < length (sources ev)" "\<not> s_active (sources ev ! k)" using free_slot_Some [of "sources ev" 0 k] by auto
      have own: "\<not> s_active (sources ev ! k) \<and> (\<forall>x. \<not> fd_entry ev (fd ?new) x) \<or>
          s_active (sources ev ! k) \<and> fd (sources ev ! k) = fd ?new" using k none by blast
      show ?thesis
        using True none assms(2) Some source_update [OF assms(1) k(1) own] by (simp add: evloop_add_fd_def Let_def)
    qed
  next
    case False
    then show ?thesis using fs(1) assms by (auto simp: evloop_add_fd_def)
  qed
  have upd: "fds_unique (ev\<lparr>sources := (sources ev)[nat (find_source ev f) := s]\<rparr>) \<and>
      (\<forall>g x. fd_entry (ev\<lparr>sources := (sources ev)[nat (find_source ev f) := s]\<rparr>) g x \<longleftrightarrow>
        (if g = f then s_active s \<and> x = s else fd_entry ev g x)) \<and>
      fd_entry ev f (sources ev ! nat (find_source ev f))"
    if f0: "\<not> find_source ev f < 0" "fd s = f" for s
  proof -
    have k: "nat (find_source ev f) < length (sources ev)" "fd_entry ev f (sources ev ! nat (find_source ev f))"
      using fs(2) f0(1) by auto
    then have "\<not> s_active (sources ev ! nat (find_source ev f)) \<and> (\<forall>x. \<not> fd_entry ev (fd s) x) \<or>
        s_active (sources ev ! nat (find_source ev f)) \<and> fd (sources ev ! nat (find_source ev f)) = fd s"
      using f0(2) by (simp add: fd_entry_def)
    from source_update [OF assms(1) k(1) this] k(2) f0(2) show ?thesis by auto
  qed
  let ?old = "sources ev ! nat (find_source ev f)"
  have oldfd: "\<not> find_source ev f < 0 \<Longrightarrow> fd ?old = f \<and> s_active ?old" using fs(2) by (auto simp: fd_entry_def)
  show "case evloop_mod_fd res ev f es of (r, ev') \<Rightarrow> fds_unique ev' \<and>
      (if \<exists>s. fd_entry ev f s
       then r = res \<and> (\<forall>g s. fd_entry ev' g s \<longleftrightarrow>
         (if g = f then \<exists>s0. fd_entry ev f s0 \<and> s = s0\<lparr>events := es\<rparr> else fd_entry ev g s))
       else r = -1 \<and> ev' = ev)"
  proof (cases "find_source ev f < 0")
    case False
    have "(\<exists>s0. fd_entry ev f s0 \<and> s = s0\<lparr>events := es\<rparr>) \<longleftrightarrow> s = ?old\<lparr>events := es\<rparr>" for s
      using upd [of "?old\<lparr>events := es\<rparr>"] False oldfd entry_unique [OF assms(1)] by auto
    then show ?thesis
      using upd [of "?old\<lparr>events := es\<rparr>"] False oldfd fs(1) by (auto simp: evloop_mod_fd_def Let_def)
  qed (use fs(1) assms(1) in \<open>simp add: evloop_mod_fd_def\<close>)
  show "case evloop_remove_fd res ev f of (r, ev') \<Rightarrow> fds_unique ev' \<and>
      (if \<exists>s. fd_entry ev f s
       then r = res \<and> (\<forall>g s. fd_entry ev' g s \<longleftrightarrow> g \<noteq> f \<and> fd_entry ev g s)
       else r = -1 \<and> ev' = ev)"
  proof (cases "find_source ev f < 0")
    case False
    then show ?thesis
      using upd [of "?old\<lparr>s_active := False, s_callback := None, s_ctx := None\<rparr>"] oldfd fs(1)
      by (auto simp: evloop_remove_fd_def Let_def)
  qed (use fs(1) assms(1) in \<open>simp add: evloop_remove_fd_def\<close>)
qed

text \<open>C27. The table of event sources is a map from active descriptors: adding a descriptor that is
  not active binds it, and refuses one that is; modifying and removing change its binding
  only, and fail without it.\<close>
theorem fd_table_refines:
  assumes "fds_unique ev" and "0 \<le> f"
  shows "(case evloop_add_fd res ev f es cb cx of (r, ev') \<Rightarrow> fds_unique ev' \<and>
      (if \<exists>s. fd_entry ev f s then r = -1 \<and> ev' = ev
       else r = res \<and> (\<forall>g s. fd_entry ev' g s \<longleftrightarrow>
         (if g = f then s = \<lparr>fd = f, events = es, s_callback = cb, s_ctx = cx, s_active = True\<rparr> else fd_entry ev g s)))) \<and>
    (case evloop_mod_fd res ev f es of (r, ev') \<Rightarrow> fds_unique ev' \<and>
      (if \<exists>s. fd_entry ev f s
       then r = res \<and> (\<forall>g s. fd_entry ev' g s \<longleftrightarrow>
         (if g = f then \<exists>s0. fd_entry ev f s0 \<and> s = s0\<lparr>events := es\<rparr> else fd_entry ev g s))
       else r = -1 \<and> ev' = ev)) \<and>
    (case evloop_remove_fd res ev f of (r, ev') \<Rightarrow> fds_unique ev' \<and>
      (if \<exists>s. fd_entry ev f s
       then r = res \<and> (\<forall>g s. fd_entry ev' g s \<longleftrightarrow> g \<noteq> f \<and> fd_entry ev g s)
       else r = -1 \<and> ev' = ev))"
  by (intro conjI fd_table_cases [OF assms])

theorem fd_table_refines_witness:
  "\<forall>cb cx. fd_entry (snd (evloop_add_fd 0 (loop_with []) 3 1 cb cx)) 3
     \<lparr>fd = 3, events = 1, s_callback = cb, s_ctx = cx, s_active = True\<rparr>"
proof (intro allI)
  fix cb cx
  have "fds_unique (loop_with [])" by (simp add: fds_unique_def)
  moreover have "\<not> fd_entry (loop_with []) 3 s" for s by (simp add: fd_entry_def)
  ultimately
  show "fd_entry (snd (evloop_add_fd 0 (loop_with []) 3 1 cb cx)) 3
     \<lparr>fd = 3, events = 1, s_callback = cb, s_ctx = cx, s_active = True\<rparr>"
    using fd_table_refines [of "loop_with []" 3 0 1 cb cx]
    by (simp add: split_beta del: One_nat_def)
qed

end
