(* ===== verification/XUtf8Tables.thy ===== *)
theory XUtf8Tables
  imports Main
begin

text \<open>
  The tables of \<open>src/core/utf8.c\<close>, entry by entry: the case mappings and the code point ranges
  of letters, digits and combining marks.
\<close>

section \<open>Case mappings\<close>

definition upper_to_lower :: "(int \<times> int) list" where
  "upper_to_lower = [
    (0x41, 0x61), (0x42, 0x62), (0x43, 0x63), (0x44, 0x64), (0x45, 0x65), (0x46, 0x66),
    (0x47, 0x67), (0x48, 0x68), (0x49, 0x69), (0x4A, 0x6A), (0x4B, 0x6B), (0x4C, 0x6C),
    (0x4D, 0x6D), (0x4E, 0x6E), (0x4F, 0x6F), (0x50, 0x70), (0x51, 0x71), (0x52, 0x72),
    (0x53, 0x73), (0x54, 0x74), (0x55, 0x75), (0x56, 0x76), (0x57, 0x77), (0x58, 0x78),
    (0x59, 0x79), (0x5A, 0x7A), (0xC0, 0xE0), (0xC1, 0xE1), (0xC2, 0xE2), (0xC3, 0xE3),
    (0xC4, 0xE4), (0xC5, 0xE5), (0xC6, 0xE6), (0xC7, 0xE7), (0xC8, 0xE8), (0xC9, 0xE9),
    (0xCA, 0xEA), (0xCB, 0xEB), (0xCC, 0xEC), (0xCD, 0xED), (0xCE, 0xEE), (0xCF, 0xEF),
    (0xD0, 0xF0), (0xD1, 0xF1), (0xD2, 0xF2), (0xD3, 0xF3), (0xD4, 0xF4), (0xD5, 0xF5),
    (0xD6, 0xF6), (0xD8, 0xF8), (0xD9, 0xF9), (0xDA, 0xFA), (0xDB, 0xFB), (0xDC, 0xFC),
    (0xDD, 0xFD), (0xDE, 0xFE), (0x100, 0x101), (0x102, 0x103), (0x104, 0x105), (0x106, 0x107),
    (0x108, 0x109), (0x10A, 0x10B), (0x10C, 0x10D), (0x10E, 0x10F), (0x110, 0x111), (0x112, 0x113),
    (0x114, 0x115), (0x116, 0x117), (0x118, 0x119), (0x11A, 0x11B), (0x11C, 0x11D), (0x11E, 0x11F),
    (0x120, 0x121), (0x122, 0x123), (0x124, 0x125), (0x126, 0x127), (0x128, 0x129), (0x12A, 0x12B),
    (0x12C, 0x12D), (0x12E, 0x12F), (0x130, 0x69), (0x132, 0x133), (0x134, 0x135), (0x136, 0x137),
    (0x139, 0x13A), (0x13B, 0x13C), (0x13D, 0x13E), (0x13F, 0x140), (0x141, 0x142), (0x143, 0x144),
    (0x145, 0x146), (0x147, 0x148), (0x14A, 0x14B), (0x14C, 0x14D), (0x14E, 0x14F), (0x150, 0x151),
    (0x152, 0x153), (0x154, 0x155), (0x156, 0x157), (0x158, 0x159), (0x15A, 0x15B), (0x15C, 0x15D),
    (0x15E, 0x15F), (0x160, 0x161), (0x162, 0x163), (0x164, 0x165), (0x166, 0x167), (0x168, 0x169),
    (0x16A, 0x16B), (0x16C, 0x16D), (0x16E, 0x16F), (0x170, 0x171), (0x172, 0x173), (0x174, 0x175),
    (0x176, 0x177), (0x178, 0xFF), (0x179, 0x17A), (0x17B, 0x17C), (0x17D, 0x17E), (0x181, 0x253),
    (0x182, 0x183), (0x184, 0x185), (0x186, 0x254), (0x187, 0x188), (0x189, 0x256), (0x18A, 0x257),
    (0x18B, 0x18C), (0x18E, 0x1DD), (0x18F, 0x259), (0x190, 0x25B), (0x191, 0x192), (0x193, 0x260),
    (0x194, 0x263), (0x196, 0x269), (0x197, 0x268), (0x198, 0x199), (0x19C, 0x26F), (0x19D, 0x272),
    (0x19F, 0x275), (0x1A0, 0x1A1), (0x1A2, 0x1A3), (0x1A4, 0x1A5), (0x1A6, 0x280), (0x1A7, 0x1A8),
    (0x1A9, 0x283), (0x1AC, 0x1AD), (0x1AE, 0x288), (0x1AF, 0x1B0), (0x1B1, 0x28A), (0x1B2, 0x28B),
    (0x1B3, 0x1B4), (0x1B5, 0x1B6), (0x1B7, 0x292), (0x1B8, 0x1B9), (0x1BC, 0x1BD), (0x1C4, 0x1C6),
    (0x1C7, 0x1C9), (0x1CA, 0x1CC), (0x1CD, 0x1CE), (0x1CF, 0x1D0), (0x1D1, 0x1D2), (0x1D3, 0x1D4),
    (0x1D5, 0x1D6), (0x1D7, 0x1D8), (0x1D9, 0x1DA), (0x1DB, 0x1DC), (0x1DE, 0x1DF), (0x1E0, 0x1E1),
    (0x1E2, 0x1E3), (0x1E4, 0x1E5), (0x1E6, 0x1E7), (0x1E8, 0x1E9), (0x1EA, 0x1EB), (0x1EC, 0x1ED),
    (0x1EE, 0x1EF), (0x1F1, 0x1F3), (0x1F4, 0x1F5), (0x1F6, 0x195), (0x1F7, 0x1BF), (0x1F8, 0x1F9),
    (0x1FA, 0x1FB), (0x1FC, 0x1FD), (0x1FE, 0x1FF), (0x200, 0x201), (0x202, 0x203), (0x204, 0x205),
    (0x206, 0x207), (0x208, 0x209), (0x20A, 0x20B), (0x20C, 0x20D), (0x20E, 0x20F), (0x210, 0x211),
    (0x212, 0x213), (0x214, 0x215), (0x216, 0x217), (0x218, 0x219), (0x21A, 0x21B), (0x21C, 0x21D),
    (0x21E, 0x21F), (0x220, 0x19E), (0x222, 0x223), (0x224, 0x225), (0x226, 0x227), (0x228, 0x229),
    (0x22A, 0x22B), (0x22C, 0x22D), (0x22E, 0x22F), (0x230, 0x231), (0x232, 0x233), (0x243, 0x180),
    (0x244, 0x289), (0x245, 0x28C), (0x246, 0x247), (0x248, 0x249), (0x24A, 0x24B), (0x24C, 0x24D),
    (0x24E, 0x24F), (0x386, 0x3AC), (0x388, 0x3AD), (0x389, 0x3AE), (0x38A, 0x3AF), (0x38C, 0x3CC),
    (0x38E, 0x3CD), (0x38F, 0x3CE), (0x391, 0x3B1), (0x392, 0x3B2), (0x393, 0x3B3), (0x394, 0x3B4),
    (0x395, 0x3B5), (0x396, 0x3B6), (0x397, 0x3B7), (0x398, 0x3B8), (0x399, 0x3B9), (0x39A, 0x3BA),
    (0x39B, 0x3BB), (0x39C, 0x3BC), (0x39D, 0x3BD), (0x39E, 0x3BE), (0x39F, 0x3BF), (0x3A0, 0x3C0),
    (0x3A1, 0x3C1), (0x3A3, 0x3C3), (0x3A4, 0x3C4), (0x3A5, 0x3C5), (0x3A6, 0x3C6), (0x3A7, 0x3C7),
    (0x3A8, 0x3C8), (0x3A9, 0x3C9), (0x3AA, 0x3CA), (0x3AB, 0x3CB), (0x3D8, 0x3D9), (0x3DA, 0x3DB),
    (0x3DC, 0x3DD), (0x3DE, 0x3DF), (0x3E0, 0x3E1), (0x3E2, 0x3E3), (0x3E4, 0x3E5), (0x3E6, 0x3E7),
    (0x3E8, 0x3E9), (0x3EA, 0x3EB), (0x3EC, 0x3ED), (0x3EE, 0x3EF), (0x3F4, 0x3B8), (0x3F7, 0x3F8),
    (0x3F9, 0x3F2), (0x3FA, 0x3FB), (0x400, 0x450), (0x401, 0x451), (0x402, 0x452), (0x403, 0x453),
    (0x404, 0x454), (0x405, 0x455), (0x406, 0x456), (0x407, 0x457), (0x408, 0x458), (0x409, 0x459),
    (0x40A, 0x45A), (0x40B, 0x45B), (0x40C, 0x45C), (0x40D, 0x45D), (0x40E, 0x45E), (0x40F, 0x45F),
    (0x410, 0x430), (0x411, 0x431), (0x412, 0x432), (0x413, 0x433), (0x414, 0x434), (0x415, 0x435),
    (0x416, 0x436), (0x417, 0x437), (0x418, 0x438), (0x419, 0x439), (0x41A, 0x43A), (0x41B, 0x43B),
    (0x41C, 0x43C), (0x41D, 0x43D), (0x41E, 0x43E), (0x41F, 0x43F), (0x420, 0x440), (0x421, 0x441),
    (0x422, 0x442), (0x423, 0x443), (0x424, 0x444), (0x425, 0x445), (0x426, 0x446), (0x427, 0x447),
    (0x428, 0x448), (0x429, 0x449), (0x42A, 0x44A), (0x42B, 0x44B), (0x42C, 0x44C), (0x42D, 0x44D),
    (0x42E, 0x44E), (0x42F, 0x44F), (0x460, 0x461), (0x462, 0x463), (0x464, 0x465), (0x466, 0x467),
    (0x468, 0x469), (0x46A, 0x46B), (0x46C, 0x46D), (0x46E, 0x46F), (0x470, 0x471), (0x472, 0x473),
    (0x474, 0x475), (0x476, 0x477), (0x478, 0x479), (0x47A, 0x47B), (0x47C, 0x47D), (0x47E, 0x47F),
    (0x480, 0x481), (0x48A, 0x48B), (0x48C, 0x48D), (0x48E, 0x48F), (0x490, 0x491), (0x492, 0x493),
    (0x494, 0x495), (0x496, 0x497), (0x498, 0x499), (0x49A, 0x49B), (0x49C, 0x49D), (0x49E, 0x49F),
    (0x4A0, 0x4A1), (0x4A2, 0x4A3), (0x4A4, 0x4A5), (0x4A6, 0x4A7), (0x4A8, 0x4A9), (0x4AA, 0x4AB),
    (0x4AC, 0x4AD), (0x4AE, 0x4AF), (0x4B0, 0x4B1), (0x4B2, 0x4B3), (0x4B4, 0x4B5), (0x4B6, 0x4B7),
    (0x4B8, 0x4B9), (0x4BA, 0x4BB), (0x4BC, 0x4BD), (0x4BE, 0x4BF), (0x4C0, 0x4CF), (0x4C1, 0x4C2),
    (0x4C3, 0x4C4), (0x4C5, 0x4C6), (0x4C7, 0x4C8), (0x4C9, 0x4CA), (0x4CB, 0x4CC), (0x4CD, 0x4CE),
    (0x4D0, 0x4D1), (0x4D2, 0x4D3), (0x4D4, 0x4D5), (0x4D6, 0x4D7), (0x4D8, 0x4D9), (0x4DA, 0x4DB),
    (0x4DC, 0x4DD), (0x4DE, 0x4DF), (0x4E0, 0x4E1), (0x4E2, 0x4E3), (0x4E4, 0x4E5), (0x4E6, 0x4E7),
    (0x4E8, 0x4E9), (0x4EA, 0x4EB), (0x4EC, 0x4ED), (0x4EE, 0x4EF), (0x4F0, 0x4F1), (0x4F2, 0x4F3),
    (0x4F4, 0x4F5), (0x4F6, 0x4F7), (0x4F8, 0x4F9), (0x4FA, 0x4FB), (0x4FC, 0x4FD), (0x4FE, 0x4FF),
    (0x531, 0x561), (0x532, 0x562), (0x533, 0x563), (0x534, 0x564), (0x535, 0x565), (0x536, 0x566),
    (0x537, 0x567), (0x538, 0x568), (0x539, 0x569), (0x53A, 0x56A), (0x53B, 0x56B), (0x53C, 0x56C),
    (0x53D, 0x56D), (0x53E, 0x56E), (0x53F, 0x56F), (0x540, 0x570), (0x541, 0x571), (0x542, 0x572),
    (0x543, 0x573), (0x544, 0x574), (0x545, 0x575), (0x546, 0x576), (0x547, 0x577), (0x548, 0x578),
    (0x549, 0x579), (0x54A, 0x57A), (0x54B, 0x57B), (0x54C, 0x57C), (0x54D, 0x57D), (0x54E, 0x57E),
    (0x54F, 0x57F), (0x550, 0x580), (0x551, 0x581), (0x552, 0x582), (0x553, 0x583), (0x554, 0x584),
    (0x555, 0x585), (0x556, 0x586), (0x10A0, 0x2D00), (0x10A1, 0x2D01), (0x10A2, 0x2D02),
    (0x10A3, 0x2D03), (0x10A4, 0x2D04), (0x10A5, 0x2D05), (0x10A6, 0x2D06), (0x10A7, 0x2D07),
    (0x10A8, 0x2D08), (0x10A9, 0x2D09), (0x10AA, 0x2D0A), (0x10AB, 0x2D0B), (0x10AC, 0x2D0C),
    (0x10AD, 0x2D0D), (0x10AE, 0x2D0E), (0x10AF, 0x2D0F), (0x10B0, 0x2D10), (0x10B1, 0x2D11),
    (0x10B2, 0x2D12), (0x10B3, 0x2D13), (0x10B4, 0x2D14), (0x10B5, 0x2D15), (0x10B6, 0x2D16),
    (0x10B7, 0x2D17), (0x10B8, 0x2D18), (0x10B9, 0x2D19), (0x10BA, 0x2D1A), (0x10BB, 0x2D1B),
    (0x10BC, 0x2D1C), (0x10BD, 0x2D1D), (0x10BE, 0x2D1E), (0x10BF, 0x2D1F), (0x10C0, 0x2D20),
    (0x10C1, 0x2D21), (0x10C2, 0x2D22), (0x10C3, 0x2D23), (0x10C4, 0x2D24), (0x10C5, 0x2D25),
    (0xFF21, 0xFF41), (0xFF22, 0xFF42), (0xFF23, 0xFF43), (0xFF24, 0xFF44), (0xFF25, 0xFF45),
    (0xFF26, 0xFF46), (0xFF27, 0xFF47), (0xFF28, 0xFF48), (0xFF29, 0xFF49), (0xFF2A, 0xFF4A),
    (0xFF2B, 0xFF4B), (0xFF2C, 0xFF4C), (0xFF2D, 0xFF4D), (0xFF2E, 0xFF4E), (0xFF2F, 0xFF4F),
    (0xFF30, 0xFF50), (0xFF31, 0xFF51), (0xFF32, 0xFF52), (0xFF33, 0xFF53), (0xFF34, 0xFF54),
    (0xFF35, 0xFF55), (0xFF36, 0xFF56), (0xFF37, 0xFF57), (0xFF38, 0xFF58), (0xFF39, 0xFF59),
    (0xFF3A, 0xFF5A)]"

definition lower_to_upper :: "(int \<times> int) list" where
  "lower_to_upper = [
    (0x61, 0x41), (0x62, 0x42), (0x63, 0x43), (0x64, 0x44), (0x65, 0x45), (0x66, 0x46),
    (0x67, 0x47), (0x68, 0x48), (0x69, 0x49), (0x6A, 0x4A), (0x6B, 0x4B), (0x6C, 0x4C),
    (0x6D, 0x4D), (0x6E, 0x4E), (0x6F, 0x4F), (0x70, 0x50), (0x71, 0x51), (0x72, 0x52),
    (0x73, 0x53), (0x74, 0x54), (0x75, 0x55), (0x76, 0x56), (0x77, 0x57), (0x78, 0x58),
    (0x79, 0x59), (0x7A, 0x5A), (0xE0, 0xC0), (0xE1, 0xC1), (0xE2, 0xC2), (0xE3, 0xC3),
    (0xE4, 0xC4), (0xE5, 0xC5), (0xE6, 0xC6), (0xE7, 0xC7), (0xE8, 0xC8), (0xE9, 0xC9),
    (0xEA, 0xCA), (0xEB, 0xCB), (0xEC, 0xCC), (0xED, 0xCD), (0xEE, 0xCE), (0xEF, 0xCF),
    (0xF0, 0xD0), (0xF1, 0xD1), (0xF2, 0xD2), (0xF3, 0xD3), (0xF4, 0xD4), (0xF5, 0xD5),
    (0xF6, 0xD6), (0xF8, 0xD8), (0xF9, 0xD9), (0xFA, 0xDA), (0xFB, 0xDB), (0xFC, 0xDC),
    (0xFD, 0xDD), (0xFE, 0xDE), (0xFF, 0x178), (0x101, 0x100), (0x103, 0x102), (0x105, 0x104),
    (0x107, 0x106), (0x109, 0x108), (0x10B, 0x10A), (0x10D, 0x10C), (0x10F, 0x10E), (0x111, 0x110),
    (0x113, 0x112), (0x115, 0x114), (0x117, 0x116), (0x119, 0x118), (0x11B, 0x11A), (0x11D, 0x11C),
    (0x11F, 0x11E), (0x121, 0x120), (0x123, 0x122), (0x125, 0x124), (0x127, 0x126), (0x129, 0x128),
    (0x12B, 0x12A), (0x12D, 0x12C), (0x12F, 0x12E), (0x131, 0x49), (0x133, 0x132), (0x135, 0x134),
    (0x137, 0x136), (0x13A, 0x139), (0x13C, 0x13B), (0x13E, 0x13D), (0x140, 0x13F), (0x142, 0x141),
    (0x144, 0x143), (0x146, 0x145), (0x148, 0x147), (0x14B, 0x14A), (0x14D, 0x14C), (0x14F, 0x14E),
    (0x151, 0x150), (0x153, 0x152), (0x155, 0x154), (0x157, 0x156), (0x159, 0x158), (0x15B, 0x15A),
    (0x15D, 0x15C), (0x15F, 0x15E), (0x161, 0x160), (0x163, 0x162), (0x165, 0x164), (0x167, 0x166),
    (0x169, 0x168), (0x16B, 0x16A), (0x16D, 0x16C), (0x16F, 0x16E), (0x171, 0x170), (0x173, 0x172),
    (0x175, 0x174), (0x177, 0x176), (0x17A, 0x179), (0x17C, 0x17B), (0x17E, 0x17D), (0x180, 0x243),
    (0x183, 0x182), (0x185, 0x184), (0x188, 0x187), (0x18C, 0x18B), (0x192, 0x191), (0x195, 0x1F6),
    (0x199, 0x198), (0x19E, 0x220), (0x1A1, 0x1A0), (0x1A3, 0x1A2), (0x1A5, 0x1A4), (0x1A8, 0x1A7),
    (0x1AD, 0x1AC), (0x1B0, 0x1AF), (0x1B4, 0x1B3), (0x1B6, 0x1B5), (0x1B9, 0x1B8), (0x1BD, 0x1BC),
    (0x1BF, 0x1F7), (0x1C6, 0x1C4), (0x1C9, 0x1C7), (0x1CC, 0x1CA), (0x1CE, 0x1CD), (0x1D0, 0x1CF),
    (0x1D2, 0x1D1), (0x1D4, 0x1D3), (0x1D6, 0x1D5), (0x1D8, 0x1D7), (0x1DA, 0x1D9), (0x1DC, 0x1DB),
    (0x1DD, 0x18E), (0x1DF, 0x1DE), (0x1E1, 0x1E0), (0x1E3, 0x1E2), (0x1E5, 0x1E4), (0x1E7, 0x1E6),
    (0x1E9, 0x1E8), (0x1EB, 0x1EA), (0x1ED, 0x1EC), (0x1EF, 0x1EE), (0x1F3, 0x1F1), (0x1F5, 0x1F4),
    (0x1F9, 0x1F8), (0x1FB, 0x1FA), (0x1FD, 0x1FC), (0x1FF, 0x1FE), (0x201, 0x200), (0x203, 0x202),
    (0x205, 0x204), (0x207, 0x206), (0x209, 0x208), (0x20B, 0x20A), (0x20D, 0x20C), (0x20F, 0x20E),
    (0x211, 0x210), (0x213, 0x212), (0x215, 0x214), (0x217, 0x216), (0x219, 0x218), (0x21B, 0x21A),
    (0x21D, 0x21C), (0x21F, 0x21E), (0x223, 0x222), (0x225, 0x224), (0x227, 0x226), (0x229, 0x228),
    (0x22B, 0x22A), (0x22D, 0x22C), (0x22F, 0x22E), (0x231, 0x230), (0x233, 0x232), (0x247, 0x246),
    (0x249, 0x248), (0x24B, 0x24A), (0x24D, 0x24C), (0x24F, 0x24E), (0x3AC, 0x386), (0x3AD, 0x388),
    (0x3AE, 0x389), (0x3AF, 0x38A), (0x3B1, 0x391), (0x3B2, 0x392), (0x3B3, 0x393), (0x3B4, 0x394),
    (0x3B5, 0x395), (0x3B6, 0x396), (0x3B7, 0x397), (0x3B8, 0x398), (0x3B9, 0x399), (0x3BA, 0x39A),
    (0x3BB, 0x39B), (0x3BC, 0x39C), (0x3BD, 0x39D), (0x3BE, 0x39E), (0x3BF, 0x39F), (0x3C0, 0x3A0),
    (0x3C1, 0x3A1), (0x3C2, 0x3A3), (0x3C3, 0x3A3), (0x3C4, 0x3A4), (0x3C5, 0x3A5), (0x3C6, 0x3A6),
    (0x3C7, 0x3A7), (0x3C8, 0x3A8), (0x3C9, 0x3A9), (0x3CA, 0x3AA), (0x3CB, 0x3AB), (0x3CC, 0x38C),
    (0x3CD, 0x38E), (0x3CE, 0x38F), (0x3D9, 0x3D8), (0x3DB, 0x3DA), (0x3DD, 0x3DC), (0x3DF, 0x3DE),
    (0x3E1, 0x3E0), (0x3E3, 0x3E2), (0x3E5, 0x3E4), (0x3E7, 0x3E6), (0x3E9, 0x3E8), (0x3EB, 0x3EA),
    (0x3ED, 0x3EC), (0x3EF, 0x3EE), (0x3F2, 0x3F9), (0x3F8, 0x3F7), (0x3FB, 0x3FA), (0x430, 0x410),
    (0x431, 0x411), (0x432, 0x412), (0x433, 0x413), (0x434, 0x414), (0x435, 0x415), (0x436, 0x416),
    (0x437, 0x417), (0x438, 0x418), (0x439, 0x419), (0x43A, 0x41A), (0x43B, 0x41B), (0x43C, 0x41C),
    (0x43D, 0x41D), (0x43E, 0x41E), (0x43F, 0x41F), (0x440, 0x420), (0x441, 0x421), (0x442, 0x422),
    (0x443, 0x423), (0x444, 0x424), (0x445, 0x425), (0x446, 0x426), (0x447, 0x427), (0x448, 0x428),
    (0x449, 0x429), (0x44A, 0x42A), (0x44B, 0x42B), (0x44C, 0x42C), (0x44D, 0x42D), (0x44E, 0x42E),
    (0x44F, 0x42F), (0x450, 0x400), (0x451, 0x401), (0x452, 0x402), (0x453, 0x403), (0x454, 0x404),
    (0x455, 0x405), (0x456, 0x406), (0x457, 0x407), (0x458, 0x408), (0x459, 0x409), (0x45A, 0x40A),
    (0x45B, 0x40B), (0x45C, 0x40C), (0x45D, 0x40D), (0x45E, 0x40E), (0x45F, 0x40F), (0x461, 0x460),
    (0x463, 0x462), (0x465, 0x464), (0x467, 0x466), (0x469, 0x468), (0x46B, 0x46A), (0x46D, 0x46C),
    (0x46F, 0x46E), (0x471, 0x470), (0x473, 0x472), (0x475, 0x474), (0x477, 0x476), (0x479, 0x478),
    (0x47B, 0x47A), (0x47D, 0x47C), (0x47F, 0x47E), (0x481, 0x480), (0x48B, 0x48A), (0x48D, 0x48C),
    (0x48F, 0x48E), (0x491, 0x490), (0x493, 0x492), (0x495, 0x494), (0x497, 0x496), (0x499, 0x498),
    (0x49B, 0x49A), (0x49D, 0x49C), (0x49F, 0x49E), (0x4A1, 0x4A0), (0x4A3, 0x4A2), (0x4A5, 0x4A4),
    (0x4A7, 0x4A6), (0x4A9, 0x4A8), (0x4AB, 0x4AA), (0x4AD, 0x4AC), (0x4AF, 0x4AE), (0x4B1, 0x4B0),
    (0x4B3, 0x4B2), (0x4B5, 0x4B4), (0x4B7, 0x4B6), (0x4B9, 0x4B8), (0x4BB, 0x4BA), (0x4BD, 0x4BC),
    (0x4BF, 0x4BE), (0x4C2, 0x4C1), (0x4C4, 0x4C3), (0x4C6, 0x4C5), (0x4C8, 0x4C7), (0x4CA, 0x4C9),
    (0x4CC, 0x4CB), (0x4CE, 0x4CD), (0x4CF, 0x4C0), (0x4D1, 0x4D0), (0x4D3, 0x4D2), (0x4D5, 0x4D4),
    (0x4D7, 0x4D6), (0x4D9, 0x4D8), (0x4DB, 0x4DA), (0x4DD, 0x4DC), (0x4DF, 0x4DE), (0x4E1, 0x4E0),
    (0x4E3, 0x4E2), (0x4E5, 0x4E4), (0x4E7, 0x4E6), (0x4E9, 0x4E8), (0x4EB, 0x4EA), (0x4ED, 0x4EC),
    (0x4EF, 0x4EE), (0x4F1, 0x4F0), (0x4F3, 0x4F2), (0x4F5, 0x4F4), (0x4F7, 0x4F6), (0x4F9, 0x4F8),
    (0x4FB, 0x4FA), (0x4FD, 0x4FC), (0x4FF, 0x4FE), (0x561, 0x531), (0x562, 0x532), (0x563, 0x533),
    (0x564, 0x534), (0x565, 0x535), (0x566, 0x536), (0x567, 0x537), (0x568, 0x538), (0x569, 0x539),
    (0x56A, 0x53A), (0x56B, 0x53B), (0x56C, 0x53C), (0x56D, 0x53D), (0x56E, 0x53E), (0x56F, 0x53F),
    (0x570, 0x540), (0x571, 0x541), (0x572, 0x542), (0x573, 0x543), (0x574, 0x544), (0x575, 0x545),
    (0x576, 0x546), (0x577, 0x547), (0x578, 0x548), (0x579, 0x549), (0x57A, 0x54A), (0x57B, 0x54B),
    (0x57C, 0x54C), (0x57D, 0x54D), (0x57E, 0x54E), (0x57F, 0x54F), (0x580, 0x550), (0x581, 0x551),
    (0x582, 0x552), (0x583, 0x553), (0x584, 0x554), (0x585, 0x555), (0x586, 0x556),
    (0x2D00, 0x10A0), (0x2D01, 0x10A1), (0x2D02, 0x10A2), (0x2D03, 0x10A3), (0x2D04, 0x10A4),
    (0x2D05, 0x10A5), (0x2D06, 0x10A6), (0x2D07, 0x10A7), (0x2D08, 0x10A8), (0x2D09, 0x10A9),
    (0x2D0A, 0x10AA), (0x2D0B, 0x10AB), (0x2D0C, 0x10AC), (0x2D0D, 0x10AD), (0x2D0E, 0x10AE),
    (0x2D0F, 0x10AF), (0x2D10, 0x10B0), (0x2D11, 0x10B1), (0x2D12, 0x10B2), (0x2D13, 0x10B3),
    (0x2D14, 0x10B4), (0x2D15, 0x10B5), (0x2D16, 0x10B6), (0x2D17, 0x10B7), (0x2D18, 0x10B8),
    (0x2D19, 0x10B9), (0x2D1A, 0x10BA), (0x2D1B, 0x10BB), (0x2D1C, 0x10BC), (0x2D1D, 0x10BD),
    (0x2D1E, 0x10BE), (0x2D1F, 0x10BF), (0x2D20, 0x10C0), (0x2D21, 0x10C1), (0x2D22, 0x10C2),
    (0x2D23, 0x10C3), (0x2D24, 0x10C4), (0x2D25, 0x10C5), (0xFF41, 0xFF21), (0xFF42, 0xFF22),
    (0xFF43, 0xFF23), (0xFF44, 0xFF24), (0xFF45, 0xFF25), (0xFF46, 0xFF26), (0xFF47, 0xFF27),
    (0xFF48, 0xFF28), (0xFF49, 0xFF29), (0xFF4A, 0xFF2A), (0xFF4B, 0xFF2B), (0xFF4C, 0xFF2C),
    (0xFF4D, 0xFF2D), (0xFF4E, 0xFF2E), (0xFF4F, 0xFF2F), (0xFF50, 0xFF30), (0xFF51, 0xFF31),
    (0xFF52, 0xFF32), (0xFF53, 0xFF33), (0xFF54, 0xFF34), (0xFF55, 0xFF35), (0xFF56, 0xFF36),
    (0xFF57, 0xFF37), (0xFF58, 0xFF38), (0xFF59, 0xFF39), (0xFF5A, 0xFF3A)]"

section \<open>Code point ranges\<close>

definition letter_ranges :: "(int \<times> int) list" where
  "letter_ranges = [
    (0x41, 0x5A), (0x61, 0x7A), (0xAA, 0xAA), (0xB5, 0xB5), (0xBA, 0xBA), (0xC0, 0xD6),
    (0xD8, 0xF6), (0xF8, 0x2C1), (0x2C6, 0x2D1), (0x2E0, 0x2E4), (0x370, 0x374), (0x376, 0x377),
    (0x37A, 0x37D), (0x37F, 0x37F), (0x386, 0x386), (0x388, 0x38A), (0x38C, 0x38C), (0x38E, 0x3A1),
    (0x3A3, 0x3F5), (0x3F7, 0x481), (0x48A, 0x52F), (0x531, 0x556), (0x559, 0x559), (0x560, 0x588),
    (0x5D0, 0x5EA), (0x5EF, 0x5F2), (0x620, 0x64A), (0x66E, 0x66F), (0x671, 0x6D3), (0x6D5, 0x6D5),
    (0x6E5, 0x6E6), (0x6EE, 0x6EF), (0x6FA, 0x6FC), (0x6FF, 0x6FF), (0x710, 0x710), (0x712, 0x72F),
    (0x74D, 0x7A5), (0x7B1, 0x7B1), (0x7CA, 0x7EA), (0x800, 0x815), (0x840, 0x858), (0x900, 0x97F),
    (0x980, 0x9FF), (0xA00, 0xA7F), (0xA80, 0xAFF), (0xB00, 0xB7F), (0xB80, 0xBFF), (0xC00, 0xC7F),
    (0xC80, 0xCFF), (0xD00, 0xD7F), (0xD80, 0xDFF), (0xE01, 0xE3A), (0xE40, 0xE4E), (0xE81, 0xECD),
    (0xF00, 0xF00), (0xF40, 0xF6C), (0x1000, 0x102A), (0x10A0, 0x10C5), (0x10C7, 0x10C7),
    (0x10CD, 0x10CD), (0x10D0, 0x10FA), (0x10FC, 0x10FF), (0x1100, 0x1248), (0x124A, 0x124D),
    (0x1250, 0x1256), (0x1258, 0x1258), (0x125A, 0x125D), (0x1260, 0x1288), (0x128A, 0x128D),
    (0x1290, 0x12B0), (0x12B2, 0x12B5), (0x12B8, 0x12BE), (0x12C0, 0x12C0), (0x12C2, 0x12C5),
    (0x12C8, 0x12D6), (0x12D8, 0x1310), (0x1312, 0x1315), (0x1318, 0x135A), (0x1380, 0x138F),
    (0x13A0, 0x13F5), (0x13F8, 0x13FD), (0x1401, 0x166C), (0x166F, 0x167F), (0x1681, 0x169A),
    (0x16A0, 0x16EA), (0x1700, 0x170C), (0x170E, 0x1711), (0x1720, 0x1731), (0x1740, 0x1751),
    (0x1760, 0x176C), (0x176E, 0x1770), (0x1780, 0x17B3), (0x1820, 0x1878), (0x1880, 0x1884),
    (0x1887, 0x18A8), (0x18AA, 0x18AA), (0x18B0, 0x18F5), (0x1900, 0x191E), (0x1950, 0x196D),
    (0x1970, 0x1974), (0x1980, 0x19AB), (0x19B0, 0x19C9), (0x1A00, 0x1A16), (0x1A20, 0x1A54),
    (0x1B05, 0x1B33), (0x1B45, 0x1B4B), (0x1B83, 0x1BA0), (0x1BAE, 0x1BAF), (0x1BBA, 0x1BE5),
    (0x1C00, 0x1C23), (0x1C4D, 0x1C4F), (0x1C5A, 0x1C7D), (0x1C80, 0x1C88), (0x1CE9, 0x1CEC),
    (0x1CEE, 0x1CF3), (0x1CF5, 0x1CF6), (0x2D00, 0x2D25), (0x2D27, 0x2D27), (0x2D2D, 0x2D2D),
    (0x2D30, 0x2D67), (0x2D80, 0x2D96), (0x2DA0, 0x2DA6), (0x2DA8, 0x2DAE), (0x2DB0, 0x2DB6),
    (0x2DB8, 0x2DBE), (0x2DC0, 0x2DC6), (0x2DC8, 0x2DCE), (0x2DD0, 0x2DD6), (0x2DD8, 0x2DDE),
    (0x3005, 0x3006), (0x3031, 0x3035), (0x303B, 0x303C), (0x3041, 0x3096), (0x309D, 0x309F),
    (0x30A1, 0x30FA), (0x30FC, 0x30FF), (0x3105, 0x312F), (0x3131, 0x318E), (0x31A0, 0x31BF),
    (0x31F0, 0x31FF), (0x3400, 0x4DBF), (0x4E00, 0x9FFF), (0xA000, 0xA48C), (0xA4D0, 0xA4FD),
    (0xA500, 0xA60C), (0xA610, 0xA61F), (0xA62A, 0xA62B), (0xA640, 0xA66E), (0xA67F, 0xA69D),
    (0xA6A0, 0xA6E5), (0xA717, 0xA71F), (0xA722, 0xA788), (0xA78B, 0xA7BF), (0xA7C2, 0xA7CA),
    (0xA7F5, 0xA801), (0xA803, 0xA805), (0xA807, 0xA80A), (0xA80C, 0xA822), (0xA840, 0xA873),
    (0xA882, 0xA8B3), (0xA8F2, 0xA8F7), (0xA8FB, 0xA8FB), (0xA8FD, 0xA8FE), (0xA90A, 0xA925),
    (0xA930, 0xA946), (0xA960, 0xA97C), (0xA984, 0xA9B2), (0xA9CF, 0xA9CF), (0xA9E0, 0xA9E4),
    (0xA9E6, 0xA9EF), (0xA9FA, 0xA9FE), (0xAA00, 0xAA28), (0xAA40, 0xAA42), (0xAA44, 0xAA4B),
    (0xAA60, 0xAA76), (0xAA7A, 0xAA7A), (0xAA7E, 0xAAAF), (0xAAB1, 0xAAB1), (0xAAB5, 0xAAB6),
    (0xAAB9, 0xAABD), (0xAAC0, 0xAAC0), (0xAAC2, 0xAAC2), (0xAADB, 0xAADD), (0xAAE0, 0xAAEA),
    (0xAAF2, 0xAAF4), (0xAB01, 0xAB06), (0xAB09, 0xAB0E), (0xAB11, 0xAB16), (0xAB20, 0xAB26),
    (0xAB28, 0xAB2E), (0xAB30, 0xAB5A), (0xAB5C, 0xAB69), (0xAB70, 0xABBF), (0xAC00, 0xD7A3),
    (0xD7B0, 0xD7C6), (0xD7CB, 0xD7FB), (0xF900, 0xFA6D), (0xFA70, 0xFAD9), (0xFB00, 0xFB06),
    (0xFB13, 0xFB17), (0xFB1D, 0xFB1D), (0xFB1F, 0xFB28), (0xFB2A, 0xFB36), (0xFB38, 0xFB3C),
    (0xFB3E, 0xFB3E), (0xFB40, 0xFB41), (0xFB43, 0xFB44), (0xFB46, 0xFBB1), (0xFBD3, 0xFD3D),
    (0xFD50, 0xFD8F), (0xFD92, 0xFDC7), (0xFDF0, 0xFDFB), (0xFE70, 0xFE74), (0xFE76, 0xFEFC),
    (0xFF21, 0xFF3A), (0xFF41, 0xFF5A), (0xFF66, 0xFFBE), (0xFFC2, 0xFFC7), (0xFFCA, 0xFFCF),
    (0xFFD2, 0xFFD7), (0xFFDA, 0xFFDC), (0x10000, 0x1000B), (0x1000D, 0x10026), (0x10028, 0x1003A),
    (0x1003C, 0x1003D), (0x1003F, 0x1004D), (0x10050, 0x1005D), (0x10080, 0x100FA),
    (0x10280, 0x1029C), (0x102A0, 0x102D0), (0x10300, 0x1031F), (0x10330, 0x10340),
    (0x10342, 0x10349), (0x10350, 0x10375), (0x10400, 0x1044F), (0x10450, 0x1047F),
    (0x10480, 0x1049D), (0x10500, 0x10527), (0x10530, 0x10563), (0x10600, 0x10736),
    (0x10800, 0x10855), (0x10900, 0x10915), (0x10920, 0x10939), (0x10980, 0x109B7),
    (0x10A00, 0x10A00), (0x10A10, 0x10A13), (0x10A15, 0x10A17), (0x10A19, 0x10A35),
    (0x10A60, 0x10A7C), (0x10A80, 0x10A9C), (0x10AC0, 0x10AC7), (0x10AC9, 0x10AE4),
    (0x10B00, 0x10B35), (0x10B40, 0x10B55), (0x10B60, 0x10B72), (0x10B80, 0x10B91),
    (0x10C00, 0x10C48), (0x10D00, 0x10D23), (0x11003, 0x11037), (0x11083, 0x110AF),
    (0x110D0, 0x110E8), (0x11103, 0x11126), (0x11150, 0x11172), (0x11183, 0x111B2),
    (0x111C1, 0x111C4), (0x11200, 0x11211), (0x11213, 0x1122B), (0x11280, 0x11286),
    (0x11288, 0x11288), (0x1128A, 0x1128D), (0x1128F, 0x1129D), (0x1129F, 0x112A8),
    (0x11305, 0x1130C), (0x1130F, 0x11310), (0x11313, 0x11328), (0x1132A, 0x11330),
    (0x11332, 0x11333), (0x11335, 0x11339), (0x1133D, 0x1133D), (0x11350, 0x11350),
    (0x1135D, 0x11361), (0x11400, 0x11434), (0x11447, 0x1144A), (0x11480, 0x114AF),
    (0x114C4, 0x114C5), (0x114C7, 0x114C7), (0x11580, 0x115AE), (0x115D8, 0x115DB),
    (0x11600, 0x1162F), (0x11644, 0x11644), (0x11680, 0x116AA), (0x116B8, 0x116B8),
    (0x11700, 0x1171A), (0x11800, 0x1182B), (0x118A0, 0x118DF), (0x11A00, 0x11A00),
    (0x11A0B, 0x11A32), (0x11A3A, 0x11A3A), (0x11A50, 0x11A50), (0x11A5C, 0x11A89),
    (0x11A9D, 0x11A9D), (0x11C00, 0x11C08), (0x11C0A, 0x11C2E), (0x11C40, 0x11C40),
    (0x11C72, 0x11C8F), (0x11D00, 0x11D06), (0x11D08, 0x11D09), (0x11D0B, 0x11D30),
    (0x11D46, 0x11D46), (0x11D60, 0x11D65), (0x11D67, 0x11D68), (0x11D6A, 0x11D89),
    (0x11EE0, 0x11EF2), (0x12000, 0x12399), (0x12480, 0x12543), (0x13000, 0x1342E),
    (0x14400, 0x14646), (0x16800, 0x16A38), (0x16A40, 0x16A5E), (0x16AD0, 0x16AED),
    (0x16B00, 0x16B2F), (0x16E40, 0x16E7F), (0x16F00, 0x16F4A), (0x16F50, 0x16F50),
    (0x17000, 0x187F7), (0x18800, 0x18AF2), (0x1B000, 0x1B11E), (0x1B150, 0x1B152),
    (0x1B164, 0x1B167), (0x1B170, 0x1B2FB), (0x1BC00, 0x1BC6A), (0x1BC70, 0x1BC7C),
    (0x1BC80, 0x1BC88), (0x1BC90, 0x1BC99), (0x1E100, 0x1E12C), (0x1E137, 0x1E13D),
    (0x1E14E, 0x1E14E), (0x1E2C0, 0x1E2EB), (0x1E800, 0x1E8C4), (0x1E900, 0x1E943),
    (0x1EE00, 0x1EE03), (0x1EE05, 0x1EE1F), (0x1EE21, 0x1EE22), (0x1EE24, 0x1EE24),
    (0x1EE27, 0x1EE27), (0x1EE29, 0x1EE32), (0x1EE34, 0x1EE37), (0x1EE39, 0x1EE39),
    (0x1EE3B, 0x1EE3B), (0x1EE42, 0x1EE42), (0x1EE47, 0x1EE47), (0x1EE49, 0x1EE49),
    (0x1EE4B, 0x1EE4B), (0x1EE4D, 0x1EE4F), (0x1EE51, 0x1EE52), (0x1EE54, 0x1EE54),
    (0x1EE57, 0x1EE57), (0x1EE59, 0x1EE59), (0x1EE5B, 0x1EE5B), (0x1EE5D, 0x1EE5D),
    (0x1EE5F, 0x1EE5F), (0x1EE61, 0x1EE62), (0x1EE64, 0x1EE64), (0x1EE67, 0x1EE6A),
    (0x1EE6C, 0x1EE72), (0x1EE74, 0x1EE77), (0x1EE79, 0x1EE7C), (0x1EE7E, 0x1EE7E),
    (0x1EE80, 0x1EE89), (0x1EE8B, 0x1EE9B), (0x1EEA1, 0x1EEA3), (0x1EEA5, 0x1EEA9),
    (0x1EEAB, 0x1EEBB), (0x20000, 0x2A6DF), (0x2A700, 0x2B738), (0x2B740, 0x2B81D),
    (0x2B820, 0x2CEA1), (0x2CEB0, 0x2EBE0), (0x30000, 0x3134A)]"

definition digit_ranges :: "(int \<times> int) list" where
  "digit_ranges = [
    (0x30, 0x39), (0x660, 0x669), (0x6F0, 0x6F9), (0x7C0, 0x7C9), (0x966, 0x96F), (0x9E6, 0x9EF),
    (0xA66, 0xA6F), (0xAE6, 0xAEF), (0xB66, 0xB6F), (0xBE6, 0xBEF), (0xC66, 0xC6F), (0xCE6, 0xCEF),
    (0xD66, 0xD6F), (0xDE6, 0xDEF), (0xE50, 0xE59), (0xED0, 0xED9), (0xF20, 0xF29),
    (0x1040, 0x1049), (0x1090, 0x1099), (0x17E0, 0x17E9), (0x1810, 0x1819), (0x1946, 0x194F),
    (0x19D0, 0x19D9), (0x1A80, 0x1A89), (0x1A90, 0x1A99), (0x1B50, 0x1B59), (0x1BB0, 0x1BB9),
    (0x1C40, 0x1C49), (0x1C50, 0x1C59), (0xA620, 0xA629), (0xA8D0, 0xA8D9), (0xA900, 0xA909),
    (0xA9D0, 0xA9D9), (0xA9F0, 0xA9F9), (0xAA50, 0xAA59), (0xABF0, 0xABF9), (0xFF10, 0xFF19),
    (0x104A0, 0x104A9), (0x10D30, 0x10D39), (0x11066, 0x1106F), (0x110F0, 0x110F9),
    (0x11136, 0x1113F), (0x111D0, 0x111D9), (0x112F0, 0x112F9), (0x11450, 0x11459),
    (0x114D0, 0x114D9), (0x11650, 0x11659), (0x116C0, 0x116C9), (0x11730, 0x11739),
    (0x118E0, 0x118E9), (0x11C50, 0x11C59), (0x11D50, 0x11D59), (0x11DA0, 0x11DA9),
    (0x16A60, 0x16A69), (0x16B50, 0x16B59), (0x1E140, 0x1E149), (0x1E2F0, 0x1E2F9),
    (0x1E950, 0x1E959), (0x1FBF0, 0x1FBF9)]"

definition combining_ranges :: "(int \<times> int) list" where
  "combining_ranges = [
    (0x300, 0x36F), (0x483, 0x489), (0x591, 0x5BD), (0x5BF, 0x5BF), (0x5C1, 0x5C2), (0x5C4, 0x5C5),
    (0x5C7, 0x5C7), (0x610, 0x61A), (0x64B, 0x65F), (0x670, 0x670), (0x6D6, 0x6DC), (0x6DF, 0x6E4),
    (0x6E7, 0x6E8), (0x6EA, 0x6ED), (0x711, 0x711), (0x730, 0x74A), (0x7A6, 0x7B0), (0x7EB, 0x7F3),
    (0x7FD, 0x7FD), (0x816, 0x819), (0x81B, 0x823), (0x825, 0x827), (0x829, 0x82D), (0x859, 0x85B),
    (0x8D3, 0x8E1), (0x8E3, 0x902), (0x93A, 0x93A), (0x93C, 0x93C), (0x941, 0x948), (0x94D, 0x94D),
    (0x951, 0x957), (0x962, 0x963), (0x981, 0x981), (0x9BC, 0x9BC), (0x9C1, 0x9C4), (0x9CD, 0x9CD),
    (0x9E2, 0x9E3), (0xA01, 0xA02), (0xA3C, 0xA3C), (0xA41, 0xA42), (0xA47, 0xA48), (0xA4B, 0xA4D),
    (0xA51, 0xA51), (0xA70, 0xA71), (0xA75, 0xA75), (0xA81, 0xA82), (0xABC, 0xABC), (0xAC1, 0xAC5),
    (0xAC7, 0xAC8), (0xACD, 0xACD), (0xAE2, 0xAE3), (0xAFA, 0xAFF), (0xB01, 0xB01), (0xB3C, 0xB3C),
    (0xB3F, 0xB3F), (0xB41, 0xB44), (0xB4D, 0xB4D), (0xB56, 0xB56), (0xB62, 0xB63), (0xB82, 0xB82),
    (0xBC0, 0xBC0), (0xBCD, 0xBCD), (0xC00, 0xC00), (0xC04, 0xC04), (0xC3E, 0xC40), (0xC46, 0xC48),
    (0xC4A, 0xC4D), (0xC55, 0xC56), (0xC62, 0xC63), (0xC81, 0xC81), (0xCBC, 0xCBC), (0xCBF, 0xCBF),
    (0xCC6, 0xCC6), (0xCCC, 0xCCD), (0xCE2, 0xCE3), (0xD00, 0xD01), (0xD3B, 0xD3C), (0xD41, 0xD44),
    (0xD4D, 0xD4D), (0xD62, 0xD63), (0xDCA, 0xDCA), (0xDD2, 0xDD4), (0xDD6, 0xDD6), (0xE31, 0xE31),
    (0xE34, 0xE3A), (0xE47, 0xE4E), (0xEB1, 0xEB1), (0xEB4, 0xEBC), (0xEC8, 0xECD), (0xF18, 0xF19),
    (0xF35, 0xF35), (0xF37, 0xF37), (0xF39, 0xF39), (0xF71, 0xF7E), (0xF80, 0xF84), (0xF86, 0xF87),
    (0xF8D, 0xF97), (0xF99, 0xFBC), (0xFC6, 0xFC6), (0x102D, 0x1030), (0x1032, 0x1037),
    (0x1039, 0x103A), (0x103D, 0x103E), (0x1058, 0x1059), (0x105E, 0x1060), (0x1071, 0x1074),
    (0x1082, 0x1082), (0x1085, 0x1086), (0x108D, 0x108D), (0x135D, 0x135F), (0x1712, 0x1714),
    (0x1732, 0x1734), (0x1752, 0x1753), (0x1772, 0x1773), (0x17B4, 0x17B5), (0x17B7, 0x17BD),
    (0x17C6, 0x17C6), (0x17C9, 0x17D3), (0x17DD, 0x17DD), (0x180B, 0x180D), (0x1885, 0x1886),
    (0x18A9, 0x18A9), (0x1920, 0x1922), (0x1927, 0x1928), (0x1932, 0x1932), (0x1939, 0x193B),
    (0x1A17, 0x1A18), (0x1A1B, 0x1A1B), (0x1A56, 0x1A56), (0x1A58, 0x1A5E), (0x1A60, 0x1A60),
    (0x1A62, 0x1A62), (0x1A65, 0x1A6C), (0x1A73, 0x1A7C), (0x1A7F, 0x1A7F), (0x1AB0, 0x1ABE),
    (0x1B00, 0x1B03), (0x1B34, 0x1B34), (0x1B36, 0x1B3A), (0x1B3C, 0x1B3C), (0x1B42, 0x1B42),
    (0x1B6B, 0x1B73), (0x1B80, 0x1B81), (0x1BA2, 0x1BA5), (0x1BA8, 0x1BA9), (0x1BAB, 0x1BAD),
    (0x1BE6, 0x1BE6), (0x1BE8, 0x1BE9), (0x1BED, 0x1BED), (0x1BEF, 0x1BF1), (0x1C2C, 0x1C33),
    (0x1C36, 0x1C37), (0x1CD0, 0x1CD2), (0x1CD4, 0x1CE0), (0x1CE2, 0x1CE8), (0x1CED, 0x1CED),
    (0x1CF4, 0x1CF4), (0x1CF8, 0x1CF9), (0x1DC0, 0x1DF9), (0x1DFB, 0x1DFF), (0x20D0, 0x20F0),
    (0x2CEF, 0x2CF1), (0x2D7F, 0x2D7F), (0x2DE0, 0x2DFF), (0x302A, 0x302D), (0x3099, 0x309A),
    (0xA66F, 0xA672), (0xA674, 0xA67D), (0xA69E, 0xA69F), (0xA6F0, 0xA6F1), (0xA802, 0xA802),
    (0xA806, 0xA806), (0xA80B, 0xA80B), (0xA825, 0xA826), (0xA8C4, 0xA8C5), (0xA8E0, 0xA8F1),
    (0xA8FF, 0xA8FF), (0xA926, 0xA92D), (0xA947, 0xA951), (0xA980, 0xA982), (0xA9B3, 0xA9B3),
    (0xA9B6, 0xA9B9), (0xA9BC, 0xA9BD), (0xAA29, 0xAA2E), (0xAA31, 0xAA32), (0xAA35, 0xAA36),
    (0xAA43, 0xAA43), (0xAA4C, 0xAA4C), (0xAAB0, 0xAAB0), (0xAAB2, 0xAAB4), (0xAAB7, 0xAAB8),
    (0xAABE, 0xAABF), (0xAAC1, 0xAAC1), (0xAAEC, 0xAAED), (0xAAF6, 0xAAF6), (0xABE5, 0xABE5),
    (0xABE8, 0xABE8), (0xABED, 0xABED), (0xFB1E, 0xFB1E), (0xFE00, 0xFE0F), (0xFE20, 0xFE2F),
    (0x101FD, 0x101FD), (0x102E0, 0x102E0), (0x10376, 0x1037A), (0x10A01, 0x10A03),
    (0x10A05, 0x10A06), (0x10A0C, 0x10A0F), (0x10A38, 0x10A3A), (0x10A3F, 0x10A3F),
    (0x10AE5, 0x10AE6), (0x10D24, 0x10D27), (0x10F46, 0x10F50), (0x11001, 0x11001),
    (0x11038, 0x11046), (0x1107F, 0x11081), (0x110B3, 0x110B6), (0x110B9, 0x110BA),
    (0x11100, 0x11102), (0x11127, 0x1112B), (0x1112D, 0x11134), (0x11173, 0x11173),
    (0x11180, 0x11181), (0x111B6, 0x111BE), (0x111C9, 0x111CC), (0x1122F, 0x11231),
    (0x11234, 0x11234), (0x11236, 0x11237), (0x1123E, 0x1123E), (0x112DF, 0x112DF),
    (0x112E3, 0x112EA), (0x11300, 0x11301), (0x1133B, 0x1133C), (0x11340, 0x11340),
    (0x11366, 0x1136C), (0x11370, 0x11374), (0x11438, 0x1143F), (0x11442, 0x11444),
    (0x11446, 0x11446), (0x1145E, 0x1145E), (0x114B3, 0x114B8), (0x114BA, 0x114BA),
    (0x114BF, 0x114C0), (0x114C2, 0x114C3), (0x115B2, 0x115B5), (0x115BC, 0x115BD),
    (0x115BF, 0x115C0), (0x115DC, 0x115DD), (0x11633, 0x1163A), (0x1163D, 0x1163D),
    (0x1163F, 0x11640), (0x116AB, 0x116AB), (0x116AD, 0x116AD), (0x116B0, 0x116B5),
    (0x116B7, 0x116B7), (0x1171D, 0x1171F), (0x11722, 0x11725), (0x11727, 0x1172B),
    (0x1182F, 0x11837), (0x11839, 0x1183A), (0x118E0, 0x118E9), (0x11A01, 0x11A0A),
    (0x11A33, 0x11A38), (0x11A3B, 0x11A3E), (0x11A47, 0x11A47), (0x11A51, 0x11A56),
    (0x11A59, 0x11A5B), (0x11A8A, 0x11A96), (0x11A98, 0x11A99), (0x11C30, 0x11C36),
    (0x11C38, 0x11C3D), (0x11C3F, 0x11C3F), (0x11C92, 0x11CA7), (0x11CAA, 0x11CB0),
    (0x11CB2, 0x11CB3), (0x11CB5, 0x11CB6), (0x11D31, 0x11D36), (0x11D3A, 0x11D3A),
    (0x11D3C, 0x11D3D), (0x11D3F, 0x11D45), (0x11D47, 0x11D47), (0x11D90, 0x11D91),
    (0x11D95, 0x11D95), (0x11D97, 0x11D97), (0x11EF3, 0x11EF4), (0x16AF0, 0x16AF4),
    (0x16B30, 0x16B36), (0x16F4F, 0x16F4F), (0x16F8F, 0x16F92), (0x1BC9D, 0x1BC9E),
    (0x1D167, 0x1D169), (0x1D17B, 0x1D182), (0x1D185, 0x1D18B), (0x1D1AA, 0x1D1AD),
    (0x1D242, 0x1D244), (0x1DA00, 0x1DA36), (0x1DA3B, 0x1DA6C), (0x1DA75, 0x1DA75),
    (0x1DA84, 0x1DA84), (0x1DA9B, 0x1DA9F), (0x1DAA1, 0x1DAAF), (0x1E000, 0x1E006),
    (0x1E008, 0x1E018), (0x1E01B, 0x1E021), (0x1E023, 0x1E024), (0x1E026, 0x1E02A),
    (0x1E130, 0x1E136), (0x1E2EC, 0x1E2EF), (0x1E8D0, 0x1E8D6), (0x1E944, 0x1E94A),
    (0xE0100, 0xE01EF)]"

end
