(* ===== verification/XUtf8.thy ===== *)
theory XUtf8
  imports XPrelude XUtf8Tables
begin

text \<open>
  UTF-8 text (\<open>src/core/utf8.c\<close>): decoding and encoding of one code point, the loops over
  a byte string, the case mappings and the category tests.

  A string is the list of its bytes, so \<open>s + i\<close> with \<open>byte_len - i\<close> is the list of the bytes left;
  a C \<open>int\<close> code point is an \<open>int\<close>. \<open>utf8_decode\<close> gives the bytes consumed and the code point, or
  \<open>None\<close> for the result -1; \<open>utf8_encode\<close> gives the bytes it writes, none for the result 0.
\<close>

section \<open>One code point\<close>

definition is_cont :: "u8 \<Rightarrow> bool" where
  "is_cont c \<longleftrightarrow> c AND 0xC0 = 0x80"

definition utf8_decode :: "u8 list \<Rightarrow> (nat \<times> int) option" where
  "utf8_decode s =
     (if s = [] then None
      else let c = s ! 0
      in if c < 0x80 then Some (1, uint c)
      else if c AND 0xE0 = 0xC0 then
        (if length s < 2 \<or> \<not> is_cont (s ! 1) then None
         else let cp = push_bit 6 (uint c AND 0x1F) OR (uint (s ! 1) AND 0x3F)
              in if cp < 0x80 then None else Some (2, cp))
      else if c AND 0xF0 = 0xE0 then
        (if length s < 3 \<or> \<not> is_cont (s ! 1) \<or> \<not> is_cont (s ! 2) then None
         else let cp = push_bit 12 (uint c AND 0x0F) OR push_bit 6 (uint (s ! 1) AND 0x3F) OR
                       (uint (s ! 2) AND 0x3F)
              in if cp < 0x800 then None
                 else if 0xD800 \<le> cp \<and> cp \<le> 0xDFFF then None
                 else Some (3, cp))
      else if c AND 0xF8 = 0xF0 then
        (if length s < 4 \<or> \<not> is_cont (s ! 1) \<or> \<not> is_cont (s ! 2) \<or> \<not> is_cont (s ! 3) then None
         else let cp = push_bit 18 (uint c AND 0x07) OR push_bit 12 (uint (s ! 1) AND 0x3F) OR
                       push_bit 6 (uint (s ! 2) AND 0x3F) OR (uint (s ! 3) AND 0x3F)
              in if cp < 0x10000 \<or> 0x10FFFF < cp then None else Some (4, cp))
      else None)"

definition utf8_encode :: "int \<Rightarrow> u8 list" where
  "utf8_encode cp =
     (if cp < 0 then []
      else if cp < 0x80 then [word_of_int cp]
      else if cp < 0x800 then
        [word_of_int (0xC0 OR drop_bit 6 cp), word_of_int (0x80 OR (cp AND 0x3F))]
      else if cp < 0x10000 then
        [word_of_int (0xE0 OR drop_bit 12 cp), word_of_int (0x80 OR (drop_bit 6 cp AND 0x3F)),
         word_of_int (0x80 OR (cp AND 0x3F))]
      else if cp \<le> 0x10FFFF then
        [word_of_int (0xF0 OR drop_bit 18 cp), word_of_int (0x80 OR (drop_bit 12 cp AND 0x3F)),
         word_of_int (0x80 OR (drop_bit 6 cp AND 0x3F)), word_of_int (0x80 OR (cp AND 0x3F))]
      else [])"

lemma utf8_decode_len: "utf8_decode s = Some (n, cp) \<Longrightarrow> 0 < n \<and> n \<le> length s"
  by (auto simp: utf8_decode_def Let_def Suc_le_eq split: if_splits)

lemma utf8_decode_shrinks [termination_simp]:
  "\<lbrakk>s \<noteq> []; utf8_decode s = Some (n, cp)\<rbrakk> \<Longrightarrow> length s - n < length s"
  using utf8_decode_len [of s n cp] by simp

section \<open>Loops over a string\<close>

text \<open>The loops take the bytes left; a byte that starts no code point counts as one.\<close>

fun utf8_strlen :: "u8 list \<Rightarrow> nat" where
  "utf8_strlen s =
     (if s = [] then 0
      else case utf8_decode s of
        None \<Rightarrow> utf8_strlen (tl s) + 1
      | Some (n, cp) \<Rightarrow> utf8_strlen (drop n s) + 1)"

fun utf8_offset :: "u8 list \<Rightarrow> int \<Rightarrow> nat" where
  "utf8_offset s n =
     (if s = [] \<or> n \<le> 0 then 0
      else case utf8_decode s of
        None \<Rightarrow> 1 + utf8_offset (tl s) (n - 1)
      | Some (nb, cp) \<Rightarrow> nb + utf8_offset (drop nb s) (n - 1))"

fun utf8_validate :: "u8 list \<Rightarrow> bool" where
  "utf8_validate s \<longleftrightarrow>
     (if s = [] then True
      else case utf8_decode s of None \<Rightarrow> False | Some (n, cp) \<Rightarrow> utf8_validate (drop n s))"

text \<open>The code point and the bytes after it; -1 at the end, U+FFFD for a bad byte.\<close>

definition utf8_next :: "u8 list \<Rightarrow> int \<times> u8 list" where
  "utf8_next s =
     (if s = [] then (-1, s)
      else case utf8_decode s of None \<Rightarrow> (0xFFFD, tl s) | Some (n, cp) \<Rightarrow> (cp, drop n s))"

definition utf8_is_ascii :: "u8 list \<Rightarrow> bool" where
  "utf8_is_ascii s \<longleftrightarrow> (\<forall>c \<in> set s. \<not> 0x80 \<le> c)"

section \<open>Tables\<close>

text \<open>Binary searches. The bounds are C \<open>int\<close>s, because \<open>hi\<close> starts at -1 on an empty table.\<close>

function case_search :: "(int \<times> int) list \<Rightarrow> int \<Rightarrow> int \<Rightarrow> int \<Rightarrow> int" where
  "case_search table cp lo hi =
     (if lo \<le> hi
      then let mid = (lo + hi) div 2
           in if fst (table ! nat mid) = cp then snd (table ! nat mid)
              else if fst (table ! nat mid) < cp then case_search table cp (mid + 1) hi
              else case_search table cp lo (mid - 1)
      else cp)"
  by pat_completeness auto
termination
  by (relation "measure (\<lambda>(table, cp, lo, hi). nat (hi + 1 - lo))") auto

function range_search :: "(int \<times> int) list \<Rightarrow> int \<Rightarrow> int \<Rightarrow> int \<Rightarrow> bool" where
  "range_search table cp lo hi =
     (if lo \<le> hi
      then let mid = (lo + hi) div 2
           in if cp < fst (table ! nat mid) then range_search table cp lo (mid - 1)
              else if snd (table ! nat mid) < cp then range_search table cp (mid + 1) hi
              else True
      else False)"
  by pat_completeness auto
termination
  by (relation "measure (\<lambda>(table, cp, lo, hi). nat (hi + 1 - lo))") auto

declare utf8_strlen.simps [simp del] utf8_offset.simps [simp del] utf8_validate.simps [simp del]
  case_search.simps [simp del] range_search.simps [simp del]

definition case_lookup :: "(int \<times> int) list \<Rightarrow> int \<Rightarrow> int" where
  "case_lookup table cp = case_search table cp 0 (int (length table) - 1)"

definition in_range_table :: "(int \<times> int) list \<Rightarrow> int \<Rightarrow> bool" where
  "in_range_table table cp = range_search table cp 0 (int (length table) - 1)"

definition utf8_tolower :: "int \<Rightarrow> int" where
  "utf8_tolower cp = case_lookup upper_to_lower cp"

definition utf8_toupper :: "int \<Rightarrow> int" where
  "utf8_toupper cp = case_lookup lower_to_upper cp"

definition utf8_casefold :: "int \<Rightarrow> int" where
  "utf8_casefold cp = (let lo = utf8_tolower cp in if cp = 0x00B5 then 0x03BC else lo)"

definition utf8_is_letter :: "int \<Rightarrow> bool" where
  "utf8_is_letter cp = in_range_table letter_ranges cp"

definition utf8_is_digit :: "int \<Rightarrow> bool" where
  "utf8_is_digit cp = in_range_table digit_ranges cp"

definition utf8_is_combining :: "int \<Rightarrow> bool" where
  "utf8_is_combining cp = in_range_table combining_ranges cp"

definition utf8_is_whitespace :: "int \<Rightarrow> bool" where
  "utf8_is_whitespace cp \<longleftrightarrow>
     cp \<in> {0x0009, 0x000A, 0x000B, 0x000C, 0x000D, 0x0020, 0x0085, 0x00A0, 0x1680, 0x2028, 0x2029, 0x202F,
            0x205F, 0x3000, 0xFEFF} \<or> 0x2000 \<le> cp \<and> cp \<le> 0x200A"

section \<open>Case conversion of strings\<close>

text \<open>The loop of the three conversions; a bad byte is copied.\<close>

fun convert_loop :: "(int \<Rightarrow> int) \<Rightarrow> u8 list \<Rightarrow> u8 list" where
  "convert_loop f s =
     (if s = [] then []
      else case utf8_decode s of
        None \<Rightarrow> hd s # convert_loop f (tl s)
      | Some (n, cp) \<Rightarrow> utf8_encode (f cp) @ convert_loop f (drop n s))"

declare convert_loop.simps [simp del]

definition utf8_str_upper :: "u8 list \<Rightarrow> u8 list" where
  "utf8_str_upper s = convert_loop utf8_toupper s"

definition utf8_str_lower :: "u8 list \<Rightarrow> u8 list" where
  "utf8_str_lower s = convert_loop utf8_tolower s"

definition utf8_str_casefold :: "u8 list \<Rightarrow> u8 list" where
  "utf8_str_casefold s = convert_loop utf8_casefold s"

end
