(* ===== verification/XUtf8Proofs.thy ===== *)
theory XUtf8Proofs
  imports XUtf8
begin

text \<open>
  Decoding and encoding in arithmetic form, that they are inverse to each other, what the loops
  compute on encoded text, and that the binary searches find what is in a sorted table.
\<close>

section \<open>Bits of a byte as arithmetic\<close>

lemma u8_all: "(\<forall>u \<in> set [0..255]. P u) \<Longrightarrow> P (uint c)" for c :: u8
  using unsigned_less [of c, where ?'a = int] by (auto dest!: bspec [of _ _ "uint c"])

lemma byte_masks:
  "u AND 0xE0 = 0xC0 \<longleftrightarrow> 192 \<le> u \<and> u < 224"
  "u AND 0xF0 = 0xE0 \<longleftrightarrow> 224 \<le> u \<and> u < 240"
  "u AND 0xF8 = 0xF0 \<longleftrightarrow> 240 \<le> u \<and> u < 248"
  "u AND 0xC0 = 0x80 \<longleftrightarrow> 128 \<le> u \<and> u < 192"
  if "u = uint (c :: u8)" for u
  unfolding that by (rule u8_all, code_simp)+

lemma u8_classes:
  fixes c :: u8
  shows "c < 0x80 \<longleftrightarrow> uint c < 128"
    and "c AND 0xE0 = 0xC0 \<longleftrightarrow> 192 \<le> uint c \<and> uint c < 224"
    and "c AND 0xF0 = 0xE0 \<longleftrightarrow> 224 \<le> uint c \<and> uint c < 240"
    and "c AND 0xF8 = 0xF0 \<longleftrightarrow> 240 \<le> uint c \<and> uint c < 248"
    and "is_cont c \<longleftrightarrow> 128 \<le> uint c \<and> uint c < 192"
  using byte_masks [OF refl, of c] by (simp_all add: word_less_def is_cont_def word_uint_eq_iff unsigned_and_eq)

lemma and_low: "x AND 0x07 = x mod 8" "x AND 0x0F = x mod 16" "x AND 0x1F = x mod 32" "x AND 0x3F = x mod 64"
  for x :: int
  using take_bit_eq_mask [of 3 x] take_bit_eq_mask [of 4 x] take_bit_eq_mask [of 5 x] take_bit_eq_mask [of 6 x]
  by (simp_all add: mask_eq_exp_minus_1 take_bit_eq_mod)

lemma push_or: "\<lbrakk>0 \<le> b; b < 2 ^ n\<rbrakk> \<Longrightarrow> push_bit n a OR b = a * 2 ^ n + b" for a b :: int
proof -
  assume b: "0 \<le> b" "b < 2 ^ n"
  have "push_bit n a AND b = push_bit n a AND take_bit n b" using b by (simp add: take_bit_int_eq_self)
  also have "\<dots> = 0" by (simp add: bit_eq_iff bit_simps)
  finally show ?thesis by (simp add: disjunctive_add_eq_or [symmetric] push_bit_eq_mult)
qed

lemma join2: "push_bit 6 (a :: int) OR b mod 64 = a * 64 + b mod 64"
  using push_or [of "b mod 64" 6 a] by simp

lemma join3: "push_bit 12 (a :: int) OR (b mod 64 * 64 + c mod 64) = a * 4096 + b mod 64 * 64 + c mod 64"
proof -
  have "0 \<le> b mod 64" "b mod 64 < 64" "0 \<le> c mod 64" "c mod 64 < 64" by simp_all
  then show ?thesis using push_or [of "b mod 64 * 64 + c mod 64" 12 a] by simp
qed

lemma join4: "push_bit 18 (a :: int) OR (b mod 64 * 4096 + c mod 64 * 64 + d mod 64) =
    a * 262144 + b mod 64 * 4096 + c mod 64 * 64 + d mod 64"
proof -
  have "0 \<le> b mod 64" "b mod 64 < 64" "0 \<le> c mod 64" "c mod 64 < 64" "0 \<le> d mod 64" "d mod 64 < 64" by simp_all
  then show ?thesis using push_or [of "b mod 64 * 4096 + c mod 64 * 64 + d mod 64" 18 a] by simp
qed

lemma lead_or: "0 \<le> x \<Longrightarrow> x < 32 \<Longrightarrow> 0xC0 OR x = 192 + x" "0 \<le> x \<Longrightarrow> x < 16 \<Longrightarrow> 0xE0 OR x = 224 + x"
    "0 \<le> x \<Longrightarrow> x < 8 \<Longrightarrow> 0xF0 OR x = 240 + x" "0x80 OR x mod 64 = 128 + x mod 64" for x :: int
  using push_or [of x 5 6] push_or [of x 4 14] push_or [of x 3 30] push_or [of "x mod 64" 6 2]
  by (simp_all add: push_bit_eq_mult)

lemma uint_byte: "0 \<le> x \<Longrightarrow> x < 256 \<Longrightarrow> uint (word_of_int x :: u8) = x"
  by (simp add: uint_word_of_int)

section \<open>Encoding and decoding one code point\<close>

definition scalar :: "int \<Rightarrow> bool" where
  "scalar cp \<longleftrightarrow> 0 \<le> cp \<and> cp \<le> 0x10FFFF \<and> \<not> (0xD800 \<le> cp \<and> cp \<le> 0xDFFF)"

lemma encode_bytes:
  assumes "0 \<le> cp" "cp \<le> 0x10FFFF"
  shows "map uint (utf8_encode cp) =
     (if cp < 128 then [cp]
      else if cp < 2048 then [192 + cp div 64, 128 + cp mod 64]
      else if cp < 65536 then [224 + cp div 4096, 128 + cp div 64 mod 64, 128 + cp mod 64]
      else [240 + cp div 262144, 128 + cp div 4096 mod 64, 128 + cp div 64 mod 64, 128 + cp mod 64])"
proof -
  have d: "0 \<le> cp div 64" "0 \<le> cp div 4096" "0 \<le> cp div 262144" "cp < 2048 \<Longrightarrow> cp div 64 < 32"
    "cp < 65536 \<Longrightarrow> cp div 4096 < 16" "cp div 262144 < 8" using assms by auto
  have m: "uint (word_of_int (128 + x mod 64) :: u8) = 128 + x mod 64" for x
    using pos_mod_bound [of 64 x] pos_mod_sign [of 64 x] by (intro uint_byte) linarith+
  have l: "0 \<le> x \<Longrightarrow> x < 16 \<Longrightarrow> uint (word_of_int (240 + x) :: u8) = 240 + x" for x
    by (rule uint_byte) linarith+
  have k: "0 \<le> x \<Longrightarrow> x < 32 \<Longrightarrow> uint (word_of_int (n + x) :: u8) = n + x" if "n = 192 \<or> n = 224" for n x
    using that by (intro uint_byte) linarith+
  show ?thesis
    using assms d
    by (simp add: utf8_encode_def and_low drop_bit_eq_div lead_or m l k uint_byte del: of_int_add)
qed

text \<open>The digits of a number in base 64.\<close>

lemma digits:
  fixes a b c d :: int
  assumes "0 \<le> b" "b < 64" "0 \<le> c" "c < 64" "0 \<le> d" "d < 64"
  shows "(a * 64 + b) div 64 = a" "(a * 64 + b) mod 64 = b"
    and "(a * 4096 + b * 64 + c) div 4096 = a" "(a * 4096 + b * 64 + c) div 64 mod 64 = b"
      "(a * 4096 + b * 64 + c) mod 64 = c"
    and "(a * 262144 + b * 4096 + c * 64 + d) div 262144 = a"
      "(a * 262144 + b * 4096 + c * 64 + d) div 4096 mod 64 = b"
      "(a * 262144 + b * 4096 + c * 64 + d) div 64 mod 64 = c"
      "(a * 262144 + b * 4096 + c * 64 + d) mod 64 = d"
proof -
  have s64: "(x * 64 + y) div 64 = x" "(x * 64 + y) mod 64 = y" if "0 \<le> y" "y < 64" for x y :: int
    using that by (auto intro: int_div_pos_eq int_mod_pos_eq)
  have h3: "(x * 4096 + y * 64 + z) div 64 = x * 64 + y" if "0 \<le> z" "z < 64" for x y z :: int
    using that s64 [of z "x * 64 + y"] by (simp add: algebra_simps)
  have h4: "(a * 262144 + b * 4096 + c * 64 + d) div 64 = a * 4096 + b * 64 + c"
    using assms s64 [of d "a * 4096 + b * 64 + c"] by (simp add: algebra_simps)
  show "(a * 64 + b) div 64 = a" "(a * 64 + b) mod 64 = b" using assms s64 by auto
  show "(a * 4096 + b * 64 + c) div 4096 = a" using assms by (intro int_div_pos_eq [where r = "b * 64 + c"]) auto
  show "(a * 4096 + b * 64 + c) div 64 mod 64 = b" using assms s64 by (simp only: h3)
  show "(a * 4096 + b * 64 + c) mod 64 = c" using assms by (intro int_mod_pos_eq [where q = "a * 64 + b"]) auto
  show "(a * 262144 + b * 4096 + c * 64 + d) div 262144 = a"
    using assms by (intro int_div_pos_eq [where r = "b * 4096 + c * 64 + d"]) auto
  have "(a * 262144 + b * 4096 + c * 64 + d) div 4096 = a * 64 + b"
    using assms by (intro int_div_pos_eq [where r = "c * 64 + d"]) auto
  then show "(a * 262144 + b * 4096 + c * 64 + d) div 4096 mod 64 = b" using assms s64 by simp
  show "(a * 262144 + b * 4096 + c * 64 + d) div 64 mod 64 = c"
    unfolding h4 using assms by (intro int_mod_pos_eq [where q = "a * 64 + b"]) auto
  show "(a * 262144 + b * 4096 + c * 64 + d) mod 64 = d"
    using assms by (intro int_mod_pos_eq [where q = "a * 4096 + b * 64 + c"]) auto
qed

lemma compose:
  fixes cp :: int
  shows "cp div 64 * 64 + cp mod 64 = cp"
    and "cp div 4096 * 4096 + cp div 64 mod 64 * 64 + cp mod 64 = cp"
    and "cp div 262144 * 262144 + cp div 4096 mod 64 * 4096 + cp div 64 mod 64 * 64 + cp mod 64 = cp"
proof -
  have q: "cp div 4096 = cp div 64 div 64" "cp div 262144 = cp div 64 div 64 div 64"
    using zdiv_zmult2_eq [of 64 cp 64] zdiv_zmult2_eq [of 64 cp 4096] zdiv_zmult2_eq [of 64 "cp div 64" 64] by simp_all
  have e: "x = x div 64 * 64 + x mod 64" for x :: int by simp
  show "cp div 64 * 64 + cp mod 64 = cp" by simp
  show "cp div 4096 * 4096 + cp div 64 mod 64 * 64 + cp mod 64 = cp"
    unfolding q using e [of cp] e [of "cp div 64"] by linarith
  show "cp div 262144 * 262144 + cp div 4096 mod 64 * 4096 + cp div 64 mod 64 * 64 + cp mod 64 = cp"
    unfolding q using e [of cp] e [of "cp div 64"] e [of "cp div 64 div 64"] by linarith
qed

lemmas decode_arith = u8_classes and_low join2 join3 join4

lemma cont_byte: "is_cont x \<Longrightarrow> \<exists>b. uint x = 128 + b \<and> 0 \<le> b \<and> b < 64 \<and> uint x mod 64 = b"
  and lead_byte: "192 \<le> uint x \<and> uint x < 224 \<Longrightarrow> \<exists>a. uint x = 192 + a \<and> 0 \<le> a \<and> a < 32 \<and> uint x mod 32 = a"
    "224 \<le> uint x \<and> uint x < 240 \<Longrightarrow> \<exists>a. uint x = 224 + a \<and> 0 \<le> a \<and> a < 16 \<and> uint x mod 16 = a"
    "240 \<le> uint x \<and> uint x < 248 \<Longrightarrow> \<exists>a. uint x = 240 + a \<and> 0 \<le> a \<and> a < 8 \<and> uint x mod 8 = a"
  unfolding u8_classes by presburger+

lemma lead_mod: "0 \<le> x \<and> x < 32 \<Longrightarrow> (192 + x) mod 32 = x" "0 \<le> x \<and> x < 16 \<Longrightarrow> (224 + x) mod 16 = x"
    "0 \<le> x \<and> x < 8 \<Longrightarrow> (240 + x) mod 8 = x" "(128 + y mod 64) mod 64 = y mod 64" for x y :: int
  by (auto intro: int_mod_pos_eq [where q = 6] int_mod_pos_eq [where q = 14] int_mod_pos_eq [where q = 30]
      int_mod_pos_eq [where q = 2])

lemma decode_encode:
  assumes "scalar cp"
  shows "utf8_decode (utf8_encode cp @ r) = Some (length (utf8_encode cp), cp)"
proof -
  have r: "0 \<le> cp" "cp \<le> 0x10FFFF" using assms by (auto simp: scalar_def)
  note b = encode_bytes [OF r]
  have d: "0 \<le> cp div 64" "0 \<le> cp div 4096" "0 \<le> cp div 262144" "cp < 2048 \<Longrightarrow> cp div 64 < 32"
    "cp < 65536 \<Longrightarrow> cp div 4096 < 16" "cp div 262144 < 8" using r by auto
  consider "cp < 128" | "128 \<le> cp" "cp < 2048" | "2048 \<le> cp" "cp < 65536" | "65536 \<le> cp" by linarith
  then show ?thesis
  proof cases
    case 1
    then obtain c where "utf8_encode cp = [c]" "uint c = cp" using b by (auto simp: map_eq_Cons_conv)
    then show ?thesis using 1 by (simp add: utf8_decode_def u8_classes)
  next
    case 2
    then obtain c c1 where e: "utf8_encode cp = [c, c1]" "uint c = 192 + cp div 64" "uint c1 = 128 + cp mod 64"
      using b by (auto simp: map_eq_Cons_conv)
    show ?thesis
      using 2 d by (simp add: utf8_decode_def decode_arith e lead_mod compose Let_def)
  next
    case 3
    then obtain c c1 c2 where e: "utf8_encode cp = [c, c1, c2]" "uint c = 224 + cp div 4096"
      "uint c1 = 128 + cp div 64 mod 64" "uint c2 = 128 + cp mod 64"
      using b by (auto simp: map_eq_Cons_conv)
    show ?thesis
      using 3 d assms by (simp add: utf8_decode_def decode_arith e lead_mod compose Let_def scalar_def)
  next
    case 4
    then obtain c c1 c2 c3 where e: "utf8_encode cp = [c, c1, c2, c3]" "uint c = 240 + cp div 262144"
      "uint c1 = 128 + cp div 4096 mod 64" "uint c2 = 128 + cp div 64 mod 64" "uint c3 = 128 + cp mod 64"
      using b by (auto simp: map_eq_Cons_conv)
    show ?thesis
      using 4 d r by (simp add: utf8_decode_def decode_arith e lead_mod compose Let_def)
  qed
qed

lemma map_uint_inj: "map uint xs = map uint ys \<Longrightarrow> xs = (ys :: u8 list)"
  by (erule map_injective) (metis injI word_of_int_uint)

lemma take_nths: "1 \<le> length s \<Longrightarrow> take 1 s = [s ! 0]" "2 \<le> length s \<Longrightarrow> take 2 s = [s ! 0, s ! 1]"
    "3 \<le> length s \<Longrightarrow> take 3 s = [s ! 0, s ! 1, s ! 2]" "4 \<le> length s \<Longrightarrow> take 4 s = [s ! 0, s ! 1, s ! 2, s ! 3]"
  by (auto simp: take_Suc_conv_app_nth eval_nat_numeral Suc_le_eq simp del: length_greater_0_conv)

lemma decode_tree:
  "(if u < 128 then Some (1, v1)
    else if 192 \<le> u \<and> u < 224 then
      (if l < 2 \<or> \<not> k1 then None else if v2 < 128 then None else Some (2, v2))
    else if 224 \<le> u \<and> u < 240 then
      (if l < 3 \<or> \<not> k1 \<or> \<not> k2 then None
       else if v3 < 2048 then None else if 0xD800 \<le> v3 \<and> v3 \<le> 0xDFFF then None else Some (3, v3))
    else if 240 \<le> u \<and> u < 248 then
      (if l < 4 \<or> \<not> k1 \<or> \<not> k2 \<or> \<not> k3 then None
       else if v4 < 0x10000 \<or> 0x10FFFF < v4 then None else Some (4, v4))
    else None) = Some (n, cp) \<Longrightarrow>
   u < 128 \<and> n = 1 \<and> cp = v1 \<or>
   192 \<le> u \<and> u < 224 \<and> k1 \<and> n = 2 \<and> 128 \<le> cp \<and> cp = v2 \<or>
   224 \<le> u \<and> u < 240 \<and> k1 \<and> k2 \<and> n = 3 \<and> 2048 \<le> cp \<and> \<not> (0xD800 \<le> cp \<and> cp \<le> 0xDFFF) \<and> cp = v3 \<or>
   240 \<le> u \<and> u < 248 \<and> k1 \<and> k2 \<and> k3 \<and> n = 4 \<and> 65536 \<le> cp \<and> cp \<le> 0x10FFFF \<and> cp = v4"
  for u v1 v2 v3 v4 cp :: int and l n :: nat
  by (simp only: split: if_splits) auto

lemma decode_sound:
  assumes "utf8_decode s = Some (n, cp)"
  shows "scalar cp \<and> n = length (utf8_encode cp) \<and> take n s = utf8_encode cp"
proof -
  have s: "s \<noteq> []" using assms by (auto simp: utf8_decode_def)
  have len: "n \<le> length s" using utf8_decode_len [OF assms] by simp
  let ?u = "\<lambda>i. uint (s ! i) mod 64"
  have u: "0 \<le> ?u i \<and> ?u i < 64" for i by simp
  have "scalar cp \<and> map uint (take n s) = map uint (utf8_encode cp)"
  proof -
    consider "uint (s ! 0) < 128" "n = 1" "cp = uint (s ! 0)"
      | "192 \<le> uint (s ! 0) \<and> uint (s ! 0) < 224" "is_cont (s ! 1)" "n = 2" "128 \<le> cp"
        "cp = uint (s ! 0) mod 32 * 64 + ?u 1"
      | "224 \<le> uint (s ! 0) \<and> uint (s ! 0) < 240" "is_cont (s ! 1)" "is_cont (s ! 2)" "n = 3" "2048 \<le> cp"
        "\<not> (0xD800 \<le> cp \<and> cp \<le> 0xDFFF)" "cp = uint (s ! 0) mod 16 * 4096 + ?u 1 * 64 + ?u 2"
      | "240 \<le> uint (s ! 0) \<and> uint (s ! 0) < 248" "is_cont (s ! 1)" "is_cont (s ! 2)" "is_cont (s ! 3)" "n = 4"
        "65536 \<le> cp" "cp \<le> 0x10FFFF" "cp = uint (s ! 0) mod 8 * 262144 + ?u 1 * 4096 + ?u 2 * 64 + ?u 3"
      using decode_tree [OF assms [unfolded utf8_decode_def u8_classes(1-4) and_low join2 join3 join4 Let_def if_not_P [OF s]]]
      by (elim disjE) blast+
    then show ?thesis
    proof cases
      case 1
      have r: "0 \<le> cp" "cp < 128" using 1(1) unfolding 1(3) by simp_all
      have e: "map uint (utf8_encode cp) = [cp]" using r encode_bytes [of cp] by simp
      have "take n s = [s ! 0]" using take_nths(1) [of s] len unfolding 1(2) by blast
      then have "map uint (take n s) = [cp]" unfolding 1(3) by simp
      then show ?thesis using r e by (simp add: scalar_def)
    next
      case 2
      obtain a where a: "uint (s ! 0) = 192 + a" "0 \<le> a" "a < 32" "uint (s ! 0) mod 32 = a" using lead_byte(1) 2(1) by blast
      obtain b where b: "uint (s ! 1) = 128 + b" "0 \<le> b" "b < 64" "uint (s ! 1) mod 64 = b" using cont_byte 2(2) by blast
      have cp: "cp = a * 64 + b" unfolding 2(5) a(4) b(4) by (rule refl)
      have q: "cp div 64 = a" "cp mod 64 = b" unfolding cp using digits(1,2) [OF b(2,3) b(2,3) b(2,3)] by blast+
      have r: "0 \<le> cp" "cp < 2048" using cp a(2,3) b(2,3) by linarith+
      have "map uint (utf8_encode cp) = [192 + a, 128 + b]" using r 2(4) encode_bytes [of cp] unfolding q by simp
      moreover have "map uint (take n s) = [192 + a, 128 + b]" using len 2(3) a(1) b(1) by (simp add: take_nths)
      ultimately show ?thesis using r by (simp add: scalar_def)
    next
      case 3
      obtain a where a: "uint (s ! 0) = 224 + a" "0 \<le> a" "a < 16" "uint (s ! 0) mod 16 = a" using lead_byte(2) 3(1) by blast
      obtain b where b: "uint (s ! 1) = 128 + b" "0 \<le> b" "b < 64" "uint (s ! 1) mod 64 = b" using cont_byte 3(2) by blast
      obtain c where c: "uint (s ! 2) = 128 + c" "0 \<le> c" "c < 64" "uint (s ! 2) mod 64 = c" using cont_byte 3(3) by blast
      have cp: "cp = a * 4096 + b * 64 + c" unfolding 3(7) a(4) b(4) c(4) by (rule refl)
      have q: "cp div 4096 = a" "cp div 64 mod 64 = b" "cp mod 64 = c"
        unfolding cp using digits(3-5) [OF b(2,3) c(2,3) c(2,3)] by blast+
      have r: "0 \<le> cp" "cp < 65536" using cp a(2,3) b(2,3) c(2,3) by linarith+
      have "map uint (take n s) = [224 + a, 128 + b, 128 + c]"
        using len 3(4) a(1) b(1) c(1) by (simp add: take_nths)
      moreover have "map uint (utf8_encode cp) = [224 + a, 128 + b, 128 + c]"
        using r 3(5) encode_bytes [of cp] unfolding q by simp
      ultimately show ?thesis using 3(6) r by (simp add: scalar_def)
    next
      case 4
      obtain a where a: "uint (s ! 0) = 240 + a" "0 \<le> a" "a < 8" "uint (s ! 0) mod 8 = a" using lead_byte(3) 4(1) by blast
      obtain b where b: "uint (s ! 1) = 128 + b" "0 \<le> b" "b < 64" "uint (s ! 1) mod 64 = b" using cont_byte 4(2) by blast
      obtain c where c: "uint (s ! 2) = 128 + c" "0 \<le> c" "c < 64" "uint (s ! 2) mod 64 = c" using cont_byte 4(3) by blast
      obtain d where d: "uint (s ! 3) = 128 + d" "0 \<le> d" "d < 64" "uint (s ! 3) mod 64 = d" using cont_byte 4(4) by blast
      have cp: "cp = a * 262144 + b * 4096 + c * 64 + d" unfolding 4(8) a(4) b(4) c(4) d(4) by (rule refl)
      have q: "cp div 262144 = a" "cp div 4096 mod 64 = b" "cp div 64 mod 64 = c" "cp mod 64 = d"
        unfolding cp using digits(6-9) [OF b(2,3) c(2,3) d(2,3)] by blast+
      have "map uint (take n s) = [240 + a, 128 + b, 128 + c, 128 + d]"
        using len 4(5) a(1) b(1) c(1) d(1) by (simp add: take_nths)
      moreover have "map uint (utf8_encode cp) = [240 + a, 128 + b, 128 + c, 128 + d]"
        using 4(6,7) encode_bytes [of cp] unfolding q by simp
      ultimately show ?thesis using 4(6,7) by (simp add: scalar_def)
    qed
  qed
  then show ?thesis
    using len map_uint_inj [of "take n s" "utf8_encode cp"] by (metis length_take min.absorb2)
qed

section \<open>Loops over encoded text\<close>

abbreviation encoded :: "int list \<Rightarrow> u8 list" where
  "encoded cps \<equiv> concat (map utf8_encode cps)"

lemma encode_nonempty: "scalar cp \<Longrightarrow> utf8_encode cp \<noteq> []"
  by (auto simp: scalar_def utf8_encode_def)

lemma encode_at_most_4: "length (utf8_encode cp) \<le> 4"
  by (simp add: utf8_encode_def)

lemma decode_split: "utf8_decode s = Some (n, cp) \<Longrightarrow> scalar cp \<and> s = utf8_encode cp @ drop n s"
  using decode_sound append_take_drop_id by metis

lemma on_encoded:
  assumes "scalar c"
  shows "utf8_validate (utf8_encode c @ r) = utf8_validate r" "utf8_strlen (utf8_encode c @ r) = Suc (utf8_strlen r)"
    "utf8_offset (utf8_encode c @ r) (int (Suc k)) = length (utf8_encode c) + utf8_offset r (int k)"
    "convert_loop f (utf8_encode c @ r) = utf8_encode (f c) @ convert_loop f r"
    and "utf8_next (utf8_encode c @ r) = (c, r)"
  using decode_encode [OF assms, of r] encode_nonempty [OF assms]
  by (simp_all add: utf8_validate.simps [of "utf8_encode c @ r"] utf8_strlen.simps [of "utf8_encode c @ r"]
      utf8_offset.simps [of "utf8_encode c @ r"] convert_loop.simps [of f "utf8_encode c @ r"] utf8_next_def)

lemma on_empty [simp]: "utf8_validate []" "utf8_strlen [] = 0" "utf8_offset [] n = 0" "convert_loop f [] = []"
  by (simp_all add: utf8_validate.simps utf8_strlen.simps utf8_offset.simps convert_loop.simps)

lemma validate_encoded: "\<forall>c \<in> set cps. scalar c \<Longrightarrow> utf8_validate (encoded cps)"
  by (induction cps) (simp_all add: on_encoded)

lemma validate_complete: "utf8_validate s \<Longrightarrow> \<exists>cps. (\<forall>c \<in> set cps. scalar c) \<and> s = encoded cps"
proof (induction s rule: utf8_validate.induct)
  case (1 s)
  show ?case
  proof (cases "s = []")
    case True
    then show ?thesis by (intro exI [of _ "[]"]) simp
  next
    case False
    then obtain n cp where d: "utf8_decode s = Some (n, cp)" "utf8_validate (drop n s)"
      using 1(2) by (auto simp: utf8_validate.simps [of s] split: option.splits)
    then obtain cps where "\<forall>c \<in> set cps. scalar c" "drop n s = encoded cps" using 1(1) False by metis
    then show ?thesis using decode_split [OF d(1)] by (intro exI [of _ "cp # cps"]) simp
  qed
qed

lemma strlen_encoded: "\<forall>c \<in> set cps. scalar c \<Longrightarrow> utf8_strlen (encoded cps) = length cps"
  by (induction cps) (simp_all add: on_encoded)

lemma offset_encoded: "\<forall>c \<in> set cps. scalar c \<Longrightarrow> utf8_offset (encoded cps) (int k) = length (encoded (take k cps))"
proof (induction cps arbitrary: k)
  case (Cons c cps)
  then show ?case
  proof (cases k)
    case 0
    then show ?thesis by (simp add: utf8_offset.simps [of _ 0])
  next
    case (Suc j)
    then show ?thesis using Cons on_encoded(3) [of c "encoded cps" j] by simp
  qed
qed simp

lemma convert_encoded: "\<forall>c \<in> set cps. scalar c \<Longrightarrow> convert_loop f (encoded cps) = encoded (map f cps)"
  by (induction cps) (simp_all add: on_encoded)

lemma convert_fits: "length (convert_loop f s) \<le> 4 * length s"
proof (induction f s rule: convert_loop.induct)
  case (1 f s)
  show ?case
  proof (cases "utf8_decode s")
    case None
    then show ?thesis using 1(1) by (cases "s = []") (auto simp: convert_loop.simps [of f s] Suc_le_eq neq_Nil_conv)
  next
    case (Some r)
    then obtain n cp where d: "utf8_decode s = Some (n, cp)" by (cases r) simp
    then have "s \<noteq> []" "0 < n" "n \<le> length s" using utf8_decode_len [OF d] by auto
    then show ?thesis
      using 1(2) [OF _ d refl] d encode_at_most_4 [of "f cp"] by (simp add: convert_loop.simps [of f s])
  qed
qed

section \<open>Binary search\<close>

lemma upto: "int (nat m) = m \<Longrightarrow> int i < m + 1 \<Longrightarrow> i \<noteq> nat m \<Longrightarrow> i < nat m"
  by linarith

lemma case_search_map:
  assumes "sorted_wrt (<) (map fst t)" "0 \<le> lo" "hi < int (length t)"
    "\<forall>i < length t. int i < lo \<longrightarrow> fst (t ! i) < cp" "\<forall>i < length t. hi < int i \<longrightarrow> cp < fst (t ! i)"
  shows "case_search t cp lo hi = (case map_of t cp of None \<Rightarrow> cp | Some c \<Rightarrow> c)"
  using assms
proof (induction t cp lo hi rule: case_search.induct)
  case (1 t cp lo hi)
  have lt: "fst (t ! i) < fst (t ! j)" if "i < j" "j < length t" for i j
    using 1(3) that by (simp add: sorted_wrt_iff_nth_less)
  show ?case
  proof (cases "lo \<le> hi")
    case True
    define mid where "mid = (lo + hi) div 2"
    have m: "lo \<le> mid" "mid \<le> hi" "nat mid < length t" "int (nat mid) = mid" using True 1(4,5) by (auto simp: mid_def)
    note ih = 1(1) [OF True mid_def] and ih' = 1(2) [OF True mid_def]
    consider "fst (t ! nat mid) = cp" | "fst (t ! nat mid) < cp" | "cp < fst (t ! nat mid)" by linarith
    then show ?thesis
    proof cases
      case 1
      have "distinct (map fst t)" using \<open>sorted_wrt (<) (map fst t)\<close> strict_sorted_iff by blast
      then have "map_of t cp = Some (snd (t ! nat mid))"
        using m(3) 1 by (metis map_of_eq_Some_iff nth_mem prod.collapse)
      then show ?thesis using True 1 by (simp add: case_search.simps [of t cp lo hi] Let_def mid_def)
    next
      case 2
      have "fst (t ! i) < cp" if "i < length t" "int i < mid + 1" for i
        using that 2 lt [of i "nat mid"] m(3) upto [OF m(4), of i] by (cases "i = nat mid") auto
      then have "case_search t cp (mid + 1) hi = (case map_of t cp of None \<Rightarrow> cp | Some c \<Rightarrow> c)"
        using ih 2 m 1(3-7) by simp
      then show ?thesis using 2 True by (simp add: case_search.simps [of t cp lo hi] Let_def flip: mid_def)
    next
      case 3
      have "cp < fst (t ! i)" if "i < length t" "mid - 1 < int i" for i
        using that 3 lt [of "nat mid" i] by (cases "i = nat mid") force+
      then have "case_search t cp lo (mid - 1) = (case map_of t cp of None \<Rightarrow> cp | Some c \<Rightarrow> c)"
        using ih' 3 m 1(3-7) by simp
      then show ?thesis using 3 True by (simp add: case_search.simps [of t cp lo hi] Let_def flip: mid_def)
    qed
  next
    case False
    have "cp \<notin> fst ` set t"
      using 1(6,7) False by (force simp: in_set_conv_nth)
    then show ?thesis using False by (simp add: case_search.simps [of t cp lo hi] map_of_eq_None_iff [THEN iffD2])
  qed
qed

definition ranges_ok :: "(int \<times> int) list \<Rightarrow> bool" where
  "ranges_ok t \<longleftrightarrow> sorted_wrt (\<lambda>x y. snd x < fst y) t \<and> (\<forall>x \<in> set t. fst x \<le> snd x)"

lemma range_search_in:
  assumes "ranges_ok t" "0 \<le> lo" "hi < int (length t)"
    "\<forall>i < length t. int i < lo \<longrightarrow> snd (t ! i) < cp" "\<forall>i < length t. hi < int i \<longrightarrow> cp < fst (t ! i)"
  shows "range_search t cp lo hi \<longleftrightarrow> (\<exists>x \<in> set t. fst x \<le> cp \<and> cp \<le> snd x)"
  using assms
proof (induction t cp lo hi rule: range_search.induct)
  case (1 t cp lo hi)
  have lt: "snd (t ! i) < fst (t ! j)" if "i < j" "j < length t" for i j
    using 1(3) that by (simp add: ranges_ok_def sorted_wrt_iff_nth_less)
  have le: "fst (t ! i) \<le> snd (t ! i)" if "i < length t" for i using 1(3) that by (simp add: ranges_ok_def)
  show ?case
  proof (cases "lo \<le> hi")
    case True
    define mid where "mid = (lo + hi) div 2"
    have m: "lo \<le> mid" "mid \<le> hi" "nat mid < length t" "int (nat mid) = mid" using True 1(4,5) by (auto simp: mid_def)
    note ih = 1(1) [OF True mid_def] and ih' = 1(2) [OF True mid_def]
    consider "cp < fst (t ! nat mid)" | "snd (t ! nat mid) < cp" | "fst (t ! nat mid) \<le> cp" "cp \<le> snd (t ! nat mid)" by linarith
    then show ?thesis
    proof cases
      case 1
      have "cp < fst (t ! i)" if "i < length t" "mid - 1 < int i" for i
        using that 1 lt [of "nat mid" i] le [OF m(3)] by (cases "i = nat mid") force+
      then have "range_search t cp lo (mid - 1) \<longleftrightarrow> (\<exists>x \<in> set t. fst x \<le> cp \<and> cp \<le> snd x)"
        using ih 1 m \<open>ranges_ok t\<close> \<open>0 \<le> lo\<close> \<open>hi < int (length t)\<close>
          \<open>\<forall>i < length t. int i < lo \<longrightarrow> snd (t ! i) < cp\<close> by simp
      then show ?thesis using 1 True by (simp add: range_search.simps [of t cp lo hi] Let_def flip: mid_def)
    next
      case 2
      have "snd (t ! i) < cp" if "i < length t" "int i < mid + 1" for i
        using that 2 lt [of i "nat mid"] le [OF m(3)] m(3) upto [OF m(4), of i] by (cases "i = nat mid") auto
      then have "range_search t cp (mid + 1) hi \<longleftrightarrow> (\<exists>x \<in> set t. fst x \<le> cp \<and> cp \<le> snd x)"
        using ih' 2 m 1(3-7) le [OF m(3)] by simp
      then show ?thesis
        using 2 True le [OF m(3)] by (simp add: range_search.simps [of t cp lo hi] Let_def flip: mid_def)
    next
      case 3
      then have "range_search t cp lo hi" using True by (simp add: range_search.simps [of t cp lo hi] Let_def flip: mid_def)
      then show ?thesis using 3 nth_mem [OF m(3)] by blast
    qed
  next
    case False
    have "\<not> (fst x \<le> cp \<and> cp \<le> snd x)" if "x \<in> set t" for x
      using 1(6,7) False that by (force simp: in_set_conv_nth)
    then show ?thesis using False by (simp add: range_search.simps [of t cp lo hi])
  qed
qed

lemma case_lookup_map: "sorted_wrt (<) (map fst t) \<Longrightarrow> case_lookup t cp = (case map_of t cp of None \<Rightarrow> cp | Some c \<Rightarrow> c)"
  unfolding case_lookup_def by (rule case_search_map) auto

lemma in_range_table_in: "ranges_ok t \<Longrightarrow> in_range_table t cp \<longleftrightarrow> (\<exists>x \<in> set t. fst x \<le> cp \<and> cp \<le> snd x)"
  unfolding in_range_table_def by (rule range_search_in) auto

section \<open>The tables are sorted\<close>

text \<open>Order between neighbours, checked in one pass.\<close>

fun chain :: "('a \<Rightarrow> 'a \<Rightarrow> bool) \<Rightarrow> 'a list \<Rightarrow> bool" where
  "chain P (x # y # xs) \<longleftrightarrow> P x y \<and> chain P (y # xs)"
| "chain P xs \<longleftrightarrow> True"

lemma chain_sorted: "chain (\<lambda>x y. fst x < fst y) t \<Longrightarrow> sorted_wrt (<) (map fst (t :: (int \<times> int) list))"
  by (induction t rule: induct_list012) auto

lemma chain_ranges: "chain (\<lambda>x y. snd x < fst y) t \<Longrightarrow> \<forall>x \<in> set t. fst x \<le> snd x \<Longrightarrow> ranges_ok t"
  unfolding ranges_ok_def by (induction t rule: induct_list012) (simp_all, force)

lemma tables_ok:
  "sorted_wrt (<) (map fst upper_to_lower)" "sorted_wrt (<) (map fst lower_to_upper)"
  "ranges_ok letter_ranges" "ranges_ok digit_ranges" "ranges_ok combining_ranges"
  by ((rule chain_sorted, code_simp)+, (rule chain_ranges, code_simp, code_simp)+)

lemma targets_scalar:
  "\<forall>x \<in> set upper_to_lower. scalar (snd x)" "\<forall>x \<in> set lower_to_upper. scalar (snd x)"
  by code_simp+

end
