(* ===== verification/XUtf8Spec.thy ===== *)
theory XUtf8Spec
  imports XUtf8Proofs
begin



text \<open>C29. The decoder reads a code point exactly when the bytes begin with the encoding of a Unicode
  scalar value (at most U+10FFFF, no surrogate), and then consumes exactly that encoding: no
  overlong form, no surrogate and no truncated sequence passes, and encoding then decoding any
  scalar value is the identity.\<close>
theorem utf8_codec_exact:
  "utf8_decode s = Some (n, cp) \<longleftrightarrow>
     0 \<le> cp \<and> cp \<le> 0x10FFFF \<and> cp \<notin> {0xD800..0xDFFF} \<and>
     n = length (utf8_encode cp) \<and> take n s = utf8_encode cp"
proof -
  have "utf8_decode s = Some (n, cp)" if "scalar cp" "n = length (utf8_encode cp)" "take n s = utf8_encode cp"
    using decode_encode [OF that(1), of "drop n s"] that append_take_drop_id by metis
  then show ?thesis using decode_sound [of s n cp] unfolding scalar_def atLeastAtMost_iff by blast
qed

text \<open>C30. A byte string is valid exactly when it is the encodings of scalar values one after the other,
  and then the length is the number of these values, the offset of the k-th value is the length
  of the encodings before it, and reading the next one gives the first value and the rest.\<close>
theorem utf8_text_exact:
  "(utf8_validate s \<longleftrightarrow> (\<exists>cps. (\<forall>c \<in> set cps. scalar c) \<and> s = concat (map utf8_encode cps))) \<and>
   (\<forall>cps. (\<forall>c \<in> set cps. scalar c) \<longrightarrow>
      utf8_strlen (concat (map utf8_encode cps)) = length cps \<and>
      (\<forall>k. utf8_offset (concat (map utf8_encode cps)) (int k) = length (concat (map utf8_encode (take k cps)))) \<and>
      (cps \<noteq> [] \<longrightarrow>
        utf8_next (concat (map utf8_encode cps)) = (hd cps, concat (map utf8_encode (tl cps)))))"
proof -
  have "cps \<noteq> [] \<Longrightarrow> \<forall>c \<in> set cps. scalar c \<Longrightarrow> utf8_next (encoded cps) = (hd cps, encoded (tl cps))" for cps
    by (cases cps) (simp_all add: on_encoded)
  then show ?thesis using validate_encoded validate_complete strlen_encoded offset_encoded by metis
qed

theorem utf8_text_exact_witness:
  "utf8_validate [0xC3, 0xA9, 0x41] \<and> utf8_strlen (concat (map utf8_encode [0xE9, 0x41])) = 2"
proof -
  have "\<forall>c \<in> set [0xE9, 0x41]. scalar c" "concat (map utf8_encode [0xE9, 0x41]) = [0xC3, 0xA9, 0x41]"
    by (simp_all add: scalar_def utf8_encode_def drop_bit_eq_div and_low)
  then show ?thesis using utf8_text_exact [of "[0xC3, 0xA9, 0x41]"] by (metis length_Cons list.size(3) numeral_2_eq_2)
qed



text \<open>The category tests are membership in their range tables, which the binary search decides:
  the tables are sorted and their ranges do not overlap.\<close>
theorem utf8_category_exact:
  "(utf8_is_letter cp \<longleftrightarrow> (\<exists>(lo, hi) \<in> set letter_ranges. lo \<le> cp \<and> cp \<le> hi)) \<and>
   (utf8_is_digit cp \<longleftrightarrow> (\<exists>(lo, hi) \<in> set digit_ranges. lo \<le> cp \<and> cp \<le> hi)) \<and>
   (utf8_is_combining cp \<longleftrightarrow> (\<exists>(lo, hi) \<in> set combining_ranges. lo \<le> cp \<and> cp \<le> hi))"
  by (simp add: utf8_is_letter_def utf8_is_digit_def utf8_is_combining_def in_range_table_in tables_ok split_def)

end
