(* ===== verification/XPasses.thy ===== *)
theory XPasses
  imports XPrelude
begin

text \<open>
  The plugin pipeline's validation (\<open>src/plugins/conflict.c\<close>, \<open>pipeline.h\<close>): the conflict checks
  between plugins and the ordering of compiler passes by Kahn's algorithm.

  Pointers into the pass table are indices. A check that prints its complaints on stderr and
  returns -1 is modelled by its result; the warnings of \<open>conflict_warn_transform_visibility\<close>, its only
  output, are returned.
\<close>

section \<open>State\<close>

datatype pass_kind = PASS_ANALYZE | PASS_ANNOTATE | PASS_TRANSFORM

datatype rule_kind = SEMA_RULE_NEW | SEMA_RULE_OVERRIDE | SEMA_RULE_EXCLUSIVE

record token_def =
  tk_name :: string
  tk_pattern :: string

record pass =
  ps_name :: string
  ps_plugin :: string
  phase_ref :: "string option"
  is_after :: bool
  ps_kind :: pass_kind
  visitor_tags :: "int list"
  ps_order :: int

record sema_rule =
  sr_target :: string
  sr_kind :: rule_kind

record meta =
  m_id :: string
  provides :: "string list"
  conflicts_with :: "string list"
  depends_on :: "string list"

record pipeline =
  tokens :: "token_def list"
  passes :: "pass list"
  sorted_passes :: "nat list"
  sema_rules :: "sema_rule list"
  metas :: "meta list"
  constraints :: "(string \<times> string) list"

abbreviation npasses :: "pipeline \<Rightarrow> nat" where
  "npasses p \<equiv> length (passes p)"

section \<open>Conflicts between plugins\<close>

definition conflict_check_metas :: "pipeline \<Rightarrow> int" where
  "conflict_check_metas p =
     (if \<exists>i \<in> set [0..<length (metas p)]. \<exists>c \<in> set (conflicts_with (metas p ! i)).
           \<exists>j \<in> set [0..<length (metas p)]. i \<noteq> j \<and> c = m_id (metas p ! j) then -1
      else if \<exists>m \<in> set (metas p). \<exists>d \<in> set (depends_on m). \<not> (\<exists>m' \<in> set (metas p). d = m_id m') then -1
      else 0)"

text \<open>Two loops over the pairs \<open>i < j\<close> of a table, reporting whether one is bad.\<close>

fun any_pair :: "('a \<Rightarrow> 'a \<Rightarrow> bool) \<Rightarrow> 'a list \<Rightarrow> bool" where
  "any_pair bad [] \<longleftrightarrow> False"
| "any_pair bad (x # xs) \<longleftrightarrow> (\<exists>y \<in> set xs. bad x y) \<or> any_pair bad xs"

definition conflict_check_tokens :: "pipeline \<Rightarrow> int" where
  "conflict_check_tokens p =
     (if any_pair (\<lambda>s t. tk_name s = tk_name t \<and> tk_pattern s \<noteq> tk_pattern t) (tokens p) then -1 else 0)"

definition conflict_check_node_names :: "pipeline \<Rightarrow> int" where
  "conflict_check_node_names p =
     (if any_pair (\<lambda>m m'. \<exists>name \<in> set (provides m). name \<in> set (provides m')) (metas p) then -1 else 0)"

definition conflict_check_sema_exclusive :: "pipeline \<Rightarrow> int" where
  "conflict_check_sema_exclusive p =
     (if any_pair (\<lambda>r s. sr_kind r = SEMA_RULE_EXCLUSIVE \<and> sr_kind s = SEMA_RULE_EXCLUSIVE \<and>
           sr_target r = sr_target s) (sema_rules p) then -1 else 0)"

section \<open>The constraint graph\<close>

fun find_pass_from :: "pass list \<Rightarrow> string \<Rightarrow> nat \<Rightarrow> nat option" where
  "find_pass_from [] name i = None"
| "find_pass_from (q # qs) name i = (if ps_name q = name then Some i else find_pass_from qs name (Suc i))"

definition find_pass :: "pipeline \<Rightarrow> string \<Rightarrow> nat option" where
  "find_pass p name = find_pass_from (passes p) name 0"

text \<open>
  The graph is the flat \<open>n * n\<close> matrix \<open>adj\<close> with the number of edges into each pass; an edge that
  is already there is not counted again.
\<close>

type_synonym graph = "bool list \<times> int list"

definition add_edge :: "nat \<Rightarrow> nat \<Rightarrow> nat \<Rightarrow> graph \<Rightarrow> graph" where
  "add_edge n a b g =
     (let (adj, indeg) = g
      in if \<not> adj ! (a * n + b) then (adj[a * n + b := True], indeg[b := indeg ! b + 1]) else g)"

definition phase_edge :: "pipeline \<Rightarrow> nat \<Rightarrow> graph \<Rightarrow> graph" where
  "phase_edge p i g =
     (case phase_ref (passes p ! i) of
        None \<Rightarrow> g
      | Some ref \<Rightarrow>
          (case find_pass p ref of
             None \<Rightarrow> g
           | Some target \<Rightarrow>
               if is_after (passes p ! i) then add_edge (npasses p) target i g
               else add_edge (npasses p) i target g))"

definition constraint_edge :: "pipeline \<Rightarrow> string \<times> string \<Rightarrow> graph \<Rightarrow> graph" where
  "constraint_edge p c g =
     (case (find_pass p (fst c), find_pass p (snd c)) of
        (Some from, Some to) \<Rightarrow> add_edge (npasses p) from to g
      | _ \<Rightarrow> g)"

definition build_graph :: "pipeline \<Rightarrow> graph" where
  "build_graph p =
     fold (constraint_edge p) (constraints p)
       (fold (phase_edge p) [0..<npasses p]
         (replicate (npasses p * npasses p) False, replicate (npasses p) 0))"

section \<open>Kahn's algorithm\<close>

text \<open>\<open>strcmp(s, t) < 0\<close>.\<close>

fun strcmp_less :: "string \<Rightarrow> string \<Rightarrow> bool" where
  "strcmp_less s [] \<longleftrightarrow> False"
| "strcmp_less [] (c # t) \<longleftrightarrow> True"
| "strcmp_less (c # s) (d # t) \<longleftrightarrow> (of_char c :: nat) < of_char d \<or> c = d \<and> strcmp_less s t"

definition better :: "pass list \<Rightarrow> nat \<Rightarrow> nat \<Rightarrow> bool" where
  "better ps b a \<longleftrightarrow>
     ps_order (ps ! b) < ps_order (ps ! a) \<or>
     ps_order (ps ! b) = ps_order (ps ! a) \<and> strcmp_less (ps_name (ps ! b)) (ps_name (ps ! a))"

text \<open>The scan for the best entry of \<open>ready\<close> from position \<open>r\<close> on.\<close>

function best_loop :: "pass list \<Rightarrow> nat list \<Rightarrow> nat \<Rightarrow> nat \<Rightarrow> nat" where
  "best_loop ps ready best r =
     (if r < length ready
      then best_loop ps ready (if better ps (ready ! r) (ready ! best) then r else best) (Suc r)
      else best)"
  by pat_completeness auto
termination
  by (relation "measure (\<lambda>(ps, ready, best, r). length ready - r)") auto

declare best_loop.simps [simp del]

text \<open>The edges out of the chosen pass are removed.\<close>

definition release :: "bool list \<Rightarrow> nat \<Rightarrow> nat \<Rightarrow> nat \<Rightarrow> int list \<times> nat list \<Rightarrow> int list \<times> nat list" where
  "release adj n pick j st =
     (let (indeg, ready) = st
      in if adj ! (pick * n + j)
         then let indeg' = indeg[j := indeg ! j - 1]
              in (indeg', if indeg' ! j = 0 then ready @ [j] else ready)
         else st)"

definition positive :: "int list \<Rightarrow> nat" where
  "positive indeg = length (filter (\<lambda>d. 0 < d) indeg)"

lemma positive_update:
  "j < length indeg \<Longrightarrow> positive (indeg[j := d]) + (if 0 < indeg ! j then 1 else 0) = positive indeg + (if 0 < d then 1 else 0)"
proof (induction indeg arbitrary: j)
  case (Cons x xs)
  then show ?case by (cases j) (auto simp: positive_def)
qed simp

lemma release_measure:
  assumes "j < length (fst st)"
  shows "length (snd (release adj n pick j st)) + positive (fst (release adj n pick j st)) \<le> length (snd st) + positive (fst st)"
    and "length (fst (release adj n pick j st)) = length (fst st)"
  using assms positive_update [of j "fst st" "fst st ! j - 1"] positive_update [of j "fst st" 0] by (auto simp: release_def Let_def split_def split: if_splits)

lemma release_all_measure:
  "\<forall>j \<in> set js. j < length (fst st) \<Longrightarrow>
     length (snd (fold (release adj n pick) js st)) + positive (fst (fold (release adj n pick) js st)) \<le>
       length (snd st) + positive (fst st)"
proof (induction js arbitrary: st)
  case (Cons j js)
  have "j < length (fst st)" using Cons.prems by simp
  note r = release_measure [OF this, of adj n pick]
  have "\<forall>j' \<in> set js. j' < length (fst (release adj n pick j st))" using Cons.prems r(2) by simp
  from Cons.IH [OF this] r(1) show ?case by simp
qed simp

text \<open>The main loop; \<open>indeg\<close> has \<open>n\<close> entries. The result is the order found.\<close>

function kahn_loop :: "pass list \<Rightarrow> bool list \<Rightarrow> int list \<times> nat list \<Rightarrow> nat list \<Rightarrow> nat list" where
  "kahn_loop ps adj st out =
     (if snd st = [] then out
      else let ready = snd st;
               best = best_loop ps ready 0 1;
               pick = ready ! best;
               n = length (fst st)
           in kahn_loop ps adj
                (fold (release adj n pick) [0..<n] (fst st, butlast (ready[best := last ready]))) (out @ [pick]))"
  by pat_completeness auto
termination
proof (relation "measure (\<lambda>(ps, adj, st, out). length (snd st) + positive (fst st))", goal_cases)
  case (2 ps adj st out ready best pick n)
  have "0 < length (snd st)" using 2(1) by simp
  then show ?case
    using release_all_measure [of "[0..<n]" "(fst st, butlast (ready[best := last ready]))" adj n pick]
    unfolding 2(2-5) by (simp add: length_greater_0_conv [symmetric] del: length_greater_0_conv)
qed simp

declare kahn_loop.simps [simp del]

definition conflict_check_pass_cycles :: "pipeline \<Rightarrow> int \<times> pipeline" where
  "conflict_check_pass_cycles p =
     (if npasses p = 0 then (0, p\<lparr>sorted_passes := []\<rparr>)
      else let (adj, indeg) = build_graph p;
               out = kahn_loop (passes p) adj (indeg, filter (\<lambda>i. indeg ! i = 0) [0..<npasses p]) []
           in (if length out \<noteq> npasses p then -1 else 0, p\<lparr>sorted_passes := out\<rparr>))"

section \<open>Validation\<close>

text \<open>The plugin of pass \<open>v\<close> depends on the plugin of pass \<open>t\<close>; the first entry with its name counts.\<close>

definition has_dep :: "pipeline \<Rightarrow> pass \<Rightarrow> pass \<Rightarrow> bool" where
  "has_dep p v t \<longleftrightarrow>
     (case find (\<lambda>m. m_id m = ps_plugin v) (metas p) of
        None \<Rightarrow> False
      | Some m \<Rightarrow> ps_plugin t \<in> set (depends_on m))"

definition pair_warnings :: "pipeline \<Rightarrow> pass \<Rightarrow> pass \<Rightarrow> (string \<times> string \<times> int) list" where
  "pair_warnings p t v =
     (if ps_kind v = PASS_TRANSFORM \<or> has_dep p v t then []
      else [(ps_name t, ps_name v, a). a \<leftarrow> visitor_tags t, b \<leftarrow> visitor_tags v, a = b])"

fun order_warnings :: "pipeline \<Rightarrow> pass list \<Rightarrow> (string \<times> string \<times> int) list" where
  "order_warnings p [] = []"
| "order_warnings p (t # vs) =
     (if ps_kind t = PASS_TRANSFORM then concat (map (pair_warnings p t) vs) else []) @ order_warnings p vs"

definition conflict_warn_transform_visibility :: "pipeline \<Rightarrow> int \<times> pipeline \<times> (string \<times> string \<times> int) list" where
  "conflict_warn_transform_visibility p =
     (let (r, p') = (if length (sorted_passes p) \<noteq> npasses p then conflict_check_pass_cycles p else (0, p))
      in if r < 0 then (-1, p', [])
         else (0, p', order_warnings p' (map ((!) (passes p')) (sorted_passes p'))))"

definition pipeline_validate :: "pipeline \<Rightarrow> int \<times> pipeline \<times> (string \<times> string \<times> int) list" where
  "pipeline_validate p =
     (let e = (if conflict_check_metas p < 0 \<or> conflict_check_tokens p < 0 \<or> conflict_check_node_names p < 0 \<or>
                  conflict_check_sema_exclusive p < 0 then -1 else 0);
          (r, p1) = conflict_check_pass_cycles p;
          (w, p2, ws) = conflict_warn_transform_visibility p1
      in (if r < 0 \<or> w < 0 then -1 else e, p2, ws))"

end
