(* ===== verification/XPassesProofs.thy ===== *)
theory XPassesProofs
  imports XPasses "HOL-Library.Multiset"
begin

text \<open>
  The graph that the constraints build, the choice of the best ready pass, and the invariant of
  Kahn's algorithm.
\<close>

section \<open>The graph\<close>

lemma find_pass_from_Some:
  "find_pass_from qs name i = Some k \<Longrightarrow> i \<le> k \<and> k - i < length qs \<and> ps_name (qs ! (k - i)) = name"
proof (induction qs name i rule: find_pass_from.induct)
  case (2 q qs name i)
  then show ?case by (cases "ps_name q = name") (auto simp: nth_Cons' Suc_diff_le)
qed simp

lemma find_pass_Some: "find_pass p name = Some k \<Longrightarrow> k < npasses p \<and> ps_name (passes p ! k) = name"
  using find_pass_from_Some [of "passes p" name 0 k] by (simp add: find_pass_def)

text \<open>The edges that the passes' own references and the pipeline's constraints ask for.\<close>

definition phase_edges :: "pipeline \<Rightarrow> nat \<Rightarrow> (nat \<times> nat) set" where
  "phase_edges p i =
     {(a, b). \<exists>ref t. phase_ref (passes p ! i) = Some ref \<and> find_pass p ref = Some t \<and>
        (if is_after (passes p ! i) then a = t \<and> b = i else a = i \<and> b = t)}"

definition constraint_edges :: "pipeline \<Rightarrow> string \<times> string \<Rightarrow> (nat \<times> nat) set" where
  "constraint_edges p c = {(a, b). find_pass p (fst c) = Some a \<and> find_pass p (snd c) = Some b}"

definition pass_edges :: "pipeline \<Rightarrow> (nat \<times> nat) set" where
  "pass_edges p = (\<Union>i < npasses p. phase_edges p i) \<union> (\<Union>c \<in> set (constraints p). constraint_edges p c)"

definition graph_ok :: "nat \<Rightarrow> (nat \<times> nat) set \<Rightarrow> graph \<Rightarrow> bool" where
  "graph_ok n E g \<longleftrightarrow>
     length (fst g) = n * n \<and> length (snd g) = n \<and> E \<subseteq> {..<n} \<times> {..<n} \<and>
     (\<forall>a < n. \<forall>b < n. fst g ! (a * n + b) \<longleftrightarrow> (a, b) \<in> E) \<and>
     (\<forall>b < n. snd g ! b = int (card {a. (a, b) \<in> E}))"

lemma flat_less: "a < n \<Longrightarrow> b < n \<Longrightarrow> a * n + b < n * n" for a b n :: nat
proof -
  assume "a < n" "b < n"
  then have "a * n + b < Suc a * n" by simp
  also have "\<dots> \<le> n * n" using \<open>a < n\<close> by (intro mult_right_mono) auto
  finally show ?thesis .
qed

lemma flat_inj: "\<lbrakk>a * n + b = c * n + d; b < n; d < n\<rbrakk> \<Longrightarrow> a = c \<and> b = d" for a b c d n :: nat
proof -
  assume e: "a * n + b = c * n + d" and b: "b < n" "d < n"
  have "(a * n + b) div n = a" "(c * n + d) div n = c" "(a * n + b) mod n = b" "(c * n + d) mod n = d" using b by auto
  then show ?thesis using e by metis
qed

lemma add_edge_ok:
  assumes g: "graph_ok n E g" and a: "a < n" and b: "b < n"
  shows "graph_ok n (insert (a, b) E) (add_edge n a b g)"
proof (cases "(a, b) \<in> E")
  case True
  then have "add_edge n a b g = g" using assms by (simp add: graph_ok_def add_edge_def split_def Let_def)
  then show ?thesis using g True by (simp add: insert_absorb)
next
  case False
  have f: "a * n + b < n * n" by (rule flat_less [OF a b])
  have e: "add_edge n a b g = ((fst g)[a * n + b := True], (snd g)[b := snd g ! b + 1])"
    using assms False by (simp add: graph_ok_def add_edge_def split_def Let_def)
  have fin: "finite {x. (x, y) \<in> E}" for y
    by (rule finite_subset [of _ "{..<n}"]) (use g in \<open>auto simp: graph_ok_def\<close>)
  have c: "card {x. (x, y) \<in> insert (a, b) E} = (if y = b then Suc (card {x. (x, b) \<in> E}) else card {x. (x, y) \<in> E})" for y
  proof -
    have "{x. (x, y) \<in> insert (a, b) E} = (if y = b then insert a {x. (x, b) \<in> E} else {x. (x, y) \<in> E})" by auto
    then show ?thesis using False fin by (simp del: insert_iff)
  qed
  have "(fst g)[a * n + b := True] ! (x * n + y) \<longleftrightarrow> (x, y) \<in> insert (a, b) E" if "x < n" "y < n" for x y
    using that g f flat_inj [of x n y a b] b by (auto simp: graph_ok_def nth_list_update)
  then show ?thesis using g a b c by (auto simp: e graph_ok_def nth_list_update)
qed

lemma phase_edge_ok: "graph_ok (npasses p) E g \<Longrightarrow> i < npasses p \<Longrightarrow> graph_ok (npasses p) (phase_edges p i \<union> E) (phase_edge p i g)"
proof -
  assume g: "graph_ok (npasses p) E g" and i: "i < npasses p"
  show ?thesis
  proof (cases "\<exists>ref t. phase_ref (passes p ! i) = Some ref \<and> find_pass p ref = Some t")
    case True
    then obtain ref t where r: "phase_ref (passes p ! i) = Some ref" "find_pass p ref = Some t" by blast
    then have "phase_edges p i = {if is_after (passes p ! i) then (t, i) else (i, t)}" by (auto simp: phase_edges_def)
    then show ?thesis using r i find_pass_Some [OF r(2)] add_edge_ok [OF g] by (simp add: phase_edge_def)
  next
    case False
    then have "phase_edges p i = {}" "phase_edge p i g = g"
      by (auto simp: phase_edges_def phase_edge_def split: option.splits)
    then show ?thesis using g by simp
  qed
qed

lemma constraint_edge_ok: "graph_ok (npasses p) E g \<Longrightarrow> graph_ok (npasses p) (constraint_edges p c \<union> E) (constraint_edge p c g)"
proof -
  assume g: "graph_ok (npasses p) E g"
  show ?thesis
  proof (cases "\<exists>a b. find_pass p (fst c) = Some a \<and> find_pass p (snd c) = Some b")
    case True
    then obtain a b where r: "find_pass p (fst c) = Some a" "find_pass p (snd c) = Some b" by blast
    then have "constraint_edges p c = {(a, b)}" by (auto simp: constraint_edges_def)
    then show ?thesis using r find_pass_Some add_edge_ok [OF g] by (simp add: constraint_edge_def)
  next
    case False
    then have "constraint_edges p c = {}" "constraint_edge p c g = g"
      by (auto simp: constraint_edges_def constraint_edge_def split: option.splits)
    then show ?thesis using g by simp
  qed
qed

lemma fold_graph_ok:
  assumes "\<And>E g x. x \<in> set xs \<Longrightarrow> graph_ok n E g \<Longrightarrow> graph_ok n (f x \<union> E) (h x g)" and "graph_ok n E g"
  shows "graph_ok n ((\<Union>x \<in> set xs. f x) \<union> E) (fold h xs g)"
  using assms
proof (induction xs arbitrary: E g)
  case (Cons x xs)
  have "graph_ok n (f x \<union> E) (h x g)" using Cons.prems by simp
  then have "graph_ok n ((\<Union>x \<in> set xs. f x) \<union> (f x \<union> E)) (fold h xs (h x g))" using Cons by simp
  moreover have "(\<Union>x \<in> set xs. f x) \<union> (f x \<union> E) = (\<Union>x \<in> set (x # xs). f x) \<union> E" by auto
  ultimately show ?case by simp
qed simp

lemma build_graph_ok: "graph_ok (npasses p) (pass_edges p) (build_graph p)"
proof -
  let ?n = "npasses p"
  have "graph_ok ?n {} (replicate (?n * ?n) False, replicate ?n 0)" by (simp add: graph_ok_def flat_less)
  then have "graph_ok ?n ((\<Union>i \<in> set [0..<?n]. phase_edges p i) \<union> {})
      (fold (phase_edge p) [0..<?n] (replicate (?n * ?n) False, replicate ?n 0))"
    by (intro fold_graph_ok phase_edge_ok) auto
  then have "graph_ok ?n ((\<Union>c \<in> set (constraints p). constraint_edges p c) \<union> ((\<Union>i \<in> set [0..<?n]. phase_edges p i) \<union> {}))
      (build_graph p)"
    unfolding build_graph_def by (intro fold_graph_ok [OF constraint_edge_ok])
  moreover have "(\<Union>c \<in> set (constraints p). constraint_edges p c) \<union> ((\<Union>i \<in> set [0..<?n]. phase_edges p i) \<union> {}) = pass_edges p"
    by (auto simp: pass_edges_def)
  ultimately show ?thesis by simp
qed

section \<open>The best ready pass\<close>

lemma strcmp_less_trans: "strcmp_less s t \<Longrightarrow> strcmp_less t u \<Longrightarrow> strcmp_less s u"
proof (induction s t arbitrary: u rule: strcmp_less.induct)
  case (2 c t)
  then show ?case by (cases u) auto
next
  case (3 c s d t)
  then show ?case by (cases u) auto
qed simp

lemma better_trans: "better ps x y \<Longrightarrow> better ps y z \<Longrightarrow> better ps x z"
  using strcmp_less_trans by (auto simp: better_def)

lemma strcmp_less_irrefl: "\<not> strcmp_less s s"
  by (induction s) auto

lemma better_irrefl: "\<not> better ps x x"
  by (simp add: better_def strcmp_less_irrefl)

lemma best_loop_best:
  "\<lbrakk>best < length ready; \<forall>k < r. k < length ready \<longrightarrow> \<not> better ps (ready ! k) (ready ! best)\<rbrakk> \<Longrightarrow>
     best_loop ps ready best r < length ready \<and>
     (\<forall>k < length ready. \<not> better ps (ready ! k) (ready ! best_loop ps ready best r))"
proof (induction ps ready best r rule: best_loop.induct)
  case (1 ps ready best r)
  show ?case
  proof (cases "r < length ready")
    case True
    let ?b = "if better ps (ready ! r) (ready ! best) then r else best"
    have "\<not> better ps (ready ! k) (ready ! ?b)" if "k < Suc r" "k < length ready" for k
      using that 1(3) better_trans better_irrefl by (cases "k = r") (auto simp: less_Suc_eq)
    then have "\<forall>k < Suc r. k < length ready \<longrightarrow> \<not> better ps (ready ! k) (ready ! ?b)" by blast
    moreover have "?b < length ready" using 1(2) True by simp
    ultimately have "best_loop ps ready ?b (Suc r) < length ready \<and>
        (\<forall>k < length ready. \<not> better ps (ready ! k) (ready ! best_loop ps ready ?b (Suc r)))"
      by (rule 1(1) [OF True, rotated])
    then show ?thesis unfolding best_loop.simps [of ps ready best r] if_P [OF True] .
  next
    case False
    then show ?thesis using 1(2,3) by (simp add: best_loop.simps [of ps ready best r])
  qed
qed

section \<open>Kahn's algorithm\<close>

lemma release_fold:
  "\<lbrakk>distinct js; \<forall>j \<in> set js. j < length (fst st)\<rbrakk> \<Longrightarrow>
     length (fst (fold (release adj n pick) js st)) = length (fst st) \<and>
     (\<forall>j < length (fst st). fst (fold (release adj n pick) js st) ! j =
        fst st ! j - (if j \<in> set js \<and> adj ! (pick * n + j) then 1 else 0)) \<and>
     snd (fold (release adj n pick) js st) = snd st @ filter (\<lambda>j. adj ! (pick * n + j) \<and> fst st ! j = 1) js"
proof (induction js arbitrary: st)
  case (Cons j js)
  let ?st = "release adj n pick j st"
  have j: "j < length (fst st)" "j \<notin> set js" "distinct js" using Cons.prems by auto
  have l: "length (fst ?st) = length (fst st)" by (rule release_measure(2) [OF j(1)])
  have i: "fst ?st ! k = fst st ! k - (if k = j \<and> adj ! (pick * n + j) then 1 else 0)" if "k < length (fst st)" for k
    using that by (auto simp: release_def Let_def split_def nth_list_update)
  have s: "snd ?st = snd st @ (if adj ! (pick * n + j) \<and> fst st ! j = 1 then [j] else [])"
    using j by (auto simp: release_def Let_def split_def)
  have "filter (\<lambda>k. adj ! (pick * n + k) \<and> fst ?st ! k = 1) js = filter (\<lambda>k. adj ! (pick * n + k) \<and> fst st ! k = 1) js"
    using i j Cons.prems(2) by (intro filter_cong) auto
  then show ?case
    using Cons.IH [of ?st] j l i s Cons.prems(2) by auto
qed simp

definition preds :: "(nat \<times> nat) set \<Rightarrow> nat \<Rightarrow> nat set" where
  "preds E j = {a. (a, j) \<in> E}"

text \<open>In \<open>out\<close>, each pass comes after all it must follow, and none that could have come was better.\<close>

definition ordered :: "pass list \<Rightarrow> (nat \<times> nat) set \<Rightarrow> nat \<Rightarrow> nat list \<Rightarrow> bool" where
  "ordered ps E n out \<longleftrightarrow>
     (\<forall>k < length out. preds E (out ! k) \<subseteq> set (take k out) \<and>
        (\<forall>j < n. preds E j \<subseteq> set (take k out) \<longrightarrow> j \<notin> set (take k out) \<longrightarrow> \<not> better ps j (out ! k)))"

definition kahn_inv :: "pass list \<Rightarrow> (nat \<times> nat) set \<Rightarrow> nat \<Rightarrow> int list \<times> nat list \<Rightarrow> nat list \<Rightarrow> bool" where
  "kahn_inv ps E n st out \<longleftrightarrow>
     length (fst st) = n \<and> distinct (out @ snd st) \<and> set (out @ snd st) = {j. j < n \<and> preds E j \<subseteq> set out} \<and>
     (\<forall>j < n. fst st ! j = int (card (preds E j - set out))) \<and> ordered ps E n out"

lemma ordered_snoc:
  assumes "ordered ps E n out" "preds E x \<subseteq> set out"
    "\<forall>j < n. preds E j \<subseteq> set out \<longrightarrow> j \<notin> set out \<longrightarrow> \<not> better ps j x"
  shows "ordered ps E n (out @ [x])"
  using assms by (auto simp: ordered_def nth_append less_Suc_eq)

lemma swap_last_mset: "b < length xs \<Longrightarrow> add_mset (xs ! b) (mset (butlast (xs[b := last xs]))) = mset xs"
proof (cases xs rule: rev_exhaust)
  case (snoc ys y)
  assume b: "b < length xs"
  show ?thesis
  proof (cases "b = length ys")
    case True
    then show ?thesis using snoc by simp
  next
    case False
    then have "b < length ys" using b snoc by simp
    then show ?thesis using snoc by (simp add: list_update_append nth_append mset_update butlast_append)
  qed
qed simp

lemma distinct_step:
  "\<lbrakk>distinct (x # ys); distinct xs; distinct zs; set xs \<inter> insert x (set ys) = {};
    (set xs \<union> insert x (set ys)) \<inter> set zs = {}\<rbrakk> \<Longrightarrow> distinct ((xs @ [x]) @ ys @ zs)"
  by auto

lemma kahn_step:
  assumes inv: "kahn_inv ps E n st out" and g: "\<forall>a < n. \<forall>b < n. adj ! (a * n + b) \<longleftrightarrow> (a, b) \<in> E"
    and E: "E \<subseteq> {..<n} \<times> {..<n}" and ne: "snd st \<noteq> []"
    and best: "best = best_loop ps (snd st) 0 1" and pick: "pick = snd st ! best"
  shows "kahn_inv ps E n (fold (release adj n pick) [0..<n] (fst st, butlast ((snd st)[best := last (snd st)]))) (out @ [pick])"
proof -
  let ?ready = "butlast ((snd st)[best := last (snd st)])"
  let ?new = "filter (\<lambda>j. adj ! (pick * n + j) \<and> fst st ! j = 1) [0..<n]"
  have len: "length (fst st) = n" using inv by (simp add: kahn_inv_def)
  note deg = conjunct1 [OF conjunct2 [OF conjunct2 [OF conjunct2 [OF inv [unfolded kahn_inv_def]]]]]
  have mem: "set (out @ snd st) = {j. j < n \<and> preds E j \<subseteq> set out}" using inv by (simp add: kahn_inv_def)
  have b: "best < length (snd st)" "\<forall>k < length (snd st). \<not> better ps (snd st ! k) pick"
    using best_loop_best [of 0 "snd st" 1 ps] ne better_irrefl unfolding best pick by auto
  have ms: "mset (snd st) = add_mset pick (mset ?ready)" using swap_last_mset [OF b(1)] pick by simp
  have dist: "distinct (out @ snd st)" using inv by (simp add: kahn_inv_def)
  have dr: "distinct (pick # ?ready)"
    using dist ms mset_eq_imp_distinct_iff [of "pick # ?ready" "snd st"] by simp
  have sr: "set (snd st) = insert pick (set ?ready)"
    using ms by (metis set_mset_add_mset_insert set_mset_mset)
  have pr: "pick < n" "preds E pick \<subseteq> set out" "pick \<notin> set out" using mem sr dist by auto
  note r = release_fold [of "[0..<n]" "(fst st, ?ready)" adj n pick]
  have fin: "finite (preds E j)" for j
    by (rule finite_subset [of _ "{..<n}"]) (use E in \<open>auto simp: preds_def\<close>)
  have pe: "adj ! (pick * n + j) \<longleftrightarrow> pick \<in> preds E j" if "j < n" for j using g that pr(1) by (simp add: preds_def)
  have deg': "int (card (preds E j - set (out @ [pick]))) = fst st ! j - (if adj ! (pick * n + j) then 1 else 0)"
    if "j < n" for j
  proof -
    have "preds E j - set (out @ [pick]) = (preds E j - set out) - {pick}" by auto
    moreover have "pick \<in> preds E j - set out \<longleftrightarrow> adj ! (pick * n + j)" using pe [OF that] pr(3) by simp
    ultimately show ?thesis
      using deg that fin [of j] card_Suc_Diff1 [of "preds E j - set out" pick] by (cases "adj ! (pick * n + j)") auto
  qed
  have new: "j \<in> set ?new \<longleftrightarrow> j < n \<and> preds E j \<subseteq> set (out @ [pick]) \<and> \<not> preds E j \<subseteq> set out" for j
  proof (cases "j < n")
    case True
    have "preds E j \<subseteq> set (out @ [pick]) \<longleftrightarrow> card (preds E j - set (out @ [pick])) = 0" using fin [of j] by auto
    moreover have "preds E j \<subseteq> set out \<longleftrightarrow> card (preds E j - set out) = 0" using fin [of j] by auto
    ultimately show ?thesis using deg' [OF True] deg True by (cases "adj ! (pick * n + j)") auto
  qed simp
  have "set ((out @ [pick]) @ ?ready @ ?new) = {j. j < n \<and> preds E j \<subseteq> set (out @ [pick])}"
    using mem sr new by (auto simp del: set_filter)
  moreover have "distinct ((out @ [pick]) @ ?ready @ ?new)"
  proof -
    have "set out \<union> insert pick (set ?ready) = {j. j < n \<and> preds E j \<subseteq> set out}"
      using mem unfolding set_append sr .
    then have "(set out \<union> insert pick (set ?ready)) \<inter> set ?new = {}" unfolding disjoint_iff new by simp
    moreover have "set out \<inter> insert pick (set ?ready) = {}" using dist unfolding distinct_append sr by (elim conjE)
    moreover have "distinct out" "distinct ?new" using dist by simp_all
    ultimately show ?thesis using dr by (intro distinct_step)
  qed
  moreover have "ordered ps E n (out @ [pick])"
  proof (rule ordered_snoc [OF _ pr(2)])
    show "ordered ps E n out" using inv by (simp add: kahn_inv_def)
    show "\<forall>j < n. preds E j \<subseteq> set out \<longrightarrow> j \<notin> set out \<longrightarrow> \<not> better ps j pick"
      using b(2) mem by (metis (mono_tags, lifting) Un_iff in_set_conv_nth mem_Collect_eq set_append)
  qed
  ultimately show ?thesis using r len deg' by (simp add: kahn_inv_def)
qed

lemma kahn_loop_inv:
  "\<lbrakk>kahn_inv ps E (length (fst st)) st out;
    \<forall>a < length (fst st). \<forall>b < length (fst st). adj ! (a * length (fst st) + b) \<longleftrightarrow> (a, b) \<in> E;
    E \<subseteq> {..<length (fst st)} \<times> {..<length (fst st)}\<rbrakk> \<Longrightarrow>
   \<exists>st'. kahn_inv ps E (length (fst st)) (st', []) (kahn_loop ps adj st out)"
proof (induction ps adj st out rule: kahn_loop.induct)
  case (1 ps adj st out)
  show ?case
  proof (cases "snd st = []")
    case True
    then show ?thesis using 1(2) by (auto simp: kahn_loop.simps [of ps adj st out] intro!: exI [of _ "fst st"] simp flip: True)
  next
    case False
    let ?n = "length (fst st)" and ?best = "best_loop ps (snd st) 0 1"
    let ?pick = "snd st ! ?best"
    let ?st = "fold (release adj ?n ?pick) [0..<?n] (fst st, butlast ((snd st)[?best := last (snd st)]))"
    have inv: "kahn_inv ps E ?n ?st (out @ [?pick])" by (rule kahn_step [OF 1(2-4) False refl refl])
    then have l: "length (fst ?st) = ?n" by (simp add: kahn_inv_def)
    show ?thesis
      using 1(1) [OF False refl refl refl refl] inv 1(3,4) False
      unfolding l by (simp add: kahn_loop.simps [of ps adj st out] Let_def)
  qed
qed

lemma start_inv:
  assumes "graph_ok n E (adj, indeg)"
  shows "kahn_inv ps E n (indeg, filter (\<lambda>i. indeg ! i = 0) [0..<n]) []"
proof -
  have fin: "finite (preds E j)" for j
    by (rule finite_subset [of _ "{..<n}"]) (use assms in \<open>auto simp: preds_def graph_ok_def\<close>)
  have "j < n \<Longrightarrow> indeg ! j = int (card (preds E j))" for j using assms by (simp add: graph_ok_def preds_def)
  then show ?thesis using assms fin by (auto simp: kahn_inv_def graph_ok_def ordered_def)
qed

lemma all_sorted_iff:
  assumes "kahn_inv ps E n (st, []) out" and "E \<subseteq> {..<n} \<times> {..<n}"
  shows "length out = n \<longleftrightarrow> acyclic E"
proof
  have d: "distinct out" and s: "set out = {j. j < n \<and> preds E j \<subseteq> set out}" and o: "ordered ps E n out"
    using assms(1) by (auto simp: kahn_inv_def)
  have sub: "set out \<subseteq> {..<n}" using s by blast
  {
    assume "length out = n"
    then have all: "set out = {..<n}" using card_subset_eq [OF _ sub] distinct_card [OF d] by simp
    define pos where "pos a = (THE k. k < length out \<and> out ! k = a)" for a
    have pos: "pos (out ! k) = k" if "k < length out" for k
      unfolding pos_def using that d by (intro the_equality) (auto simp: nth_eq_iff_index_eq)
    have "pos a < pos b" if "(a, b) \<in> E" for a b
    proof -
      have "b \<in> set out" using that assms(2) all by auto
      then obtain k where k: "k < length out" "out ! k = b" by (auto simp: in_set_conv_nth)
      then have "a \<in> set (take k out)" using o that by (auto simp: ordered_def preds_def)
      then obtain i where "i < k" "out ! i = a" using k by (auto simp: in_set_conv_nth)
      then show ?thesis using pos [of i] pos [of k] k by auto
    qed
    then have "E \<subseteq> measure pos" by auto
    then show "acyclic E" using wf_measure wf_acyclic wf_subset by metis
  }
  {
    assume a: "acyclic E"
    have "finite E" using assms(2) finite_subset by blast
    then have "wf E" using a by (rule finite_acyclic_wf)
    have "j \<in> set out" if "j < n" for j
      using \<open>wf E\<close> that
    proof (induction j rule: wf_induct_rule)
      case (less j)
      have "preds E j \<subseteq> set out" using less assms(2) by (auto simp: preds_def)
      then show ?case using less s by blast
    qed
    then have "set out = {..<n}" using sub by auto
    then show "length out = n" using distinct_card [OF d] by simp
  }
qed

lemma check_cycles:
  "\<exists>out. conflict_check_pass_cycles p = (if acyclic (pass_edges p) then 0 else -1, p\<lparr>sorted_passes := out\<rparr>) \<and>
     distinct out \<and> set out \<subseteq> {..<npasses p} \<and> ordered (passes p) (pass_edges p) (npasses p) out \<and>
     (length out = npasses p \<longleftrightarrow> acyclic (pass_edges p))"
proof (cases "npasses p = 0")
  case True
  then have "pass_edges p = {}" by (auto simp: pass_edges_def constraint_edges_def dest: find_pass_Some)
  then show ?thesis using True by (auto simp: conflict_check_pass_cycles_def ordered_def acyclic_def)
next
  case False
  obtain adj indeg where g: "build_graph p = (adj, indeg)" by fastforce
  note ok = build_graph_ok [of p, unfolded g]
  let ?st = "(indeg, filter (\<lambda>i. indeg ! i = 0) [0..<npasses p])"
  have l: "length (fst ?st) = npasses p" using ok by (simp add: graph_ok_def)
  obtain st' where i: "kahn_inv (passes p) (pass_edges p) (npasses p) (st', []) (kahn_loop (passes p) adj ?st [])"
    using kahn_loop_inv [of "passes p" "pass_edges p" ?st "[]" adj] start_inv [OF ok] ok unfolding l graph_ok_def by auto
  have E: "pass_edges p \<subseteq> {..<npasses p} \<times> {..<npasses p}" using ok by (simp add: graph_ok_def)
  show ?thesis
    using False i all_sorted_iff [OF i E]
    by (intro exI [of _ "kahn_loop (passes p) adj ?st []"])
      (auto simp: conflict_check_pass_cycles_def g Let_def kahn_inv_def)
qed

section \<open>The other checks\<close>

lemma any_pair_iff: "any_pair bad xs \<longleftrightarrow> (\<exists>i j. i < j \<and> j < length xs \<and> bad (xs ! i) (xs ! j))"
proof (induction xs)
  case (Cons x xs)
  have "(\<exists>i j. i < j \<and> j < length (x # xs) \<and> bad ((x # xs) ! i) ((x # xs) ! j)) \<longleftrightarrow>
      (\<exists>j < length xs. bad x (xs ! j)) \<or> (\<exists>i j. i < j \<and> j < length xs \<and> bad (xs ! i) (xs ! j))" (is "?l \<longleftrightarrow> ?r")
  proof
    assume ?l
    then obtain i j where "i < j" "j < length (x # xs)" "bad ((x # xs) ! i) ((x # xs) ! j)" by blast
    then show ?r by (cases i; cases j) auto
  next
    assume ?r
    then show ?l by (metis Suc_less_eq Suc_mono length_Cons nth_Cons_0 nth_Cons_Suc zero_less_Suc)
  qed
  then show ?case using Cons unfolding any_pair.simps Bex_def in_set_conv_nth by blast
qed simp

lemma check_metas_ok:
  "\<not> conflict_check_metas p < 0 \<longleftrightarrow>
     (\<forall>i < length (metas p). \<forall>j < length (metas p). i \<noteq> j \<longrightarrow> m_id (metas p ! j) \<notin> set (conflicts_with (metas p ! i))) \<and>
     (\<forall>m \<in> set (metas p). set (depends_on m) \<subseteq> m_id ` set (metas p))"
proof -
  have "(\<exists>i \<in> set [0..<length (metas p)]. \<exists>c \<in> set (conflicts_with (metas p ! i)).
        \<exists>j \<in> set [0..<length (metas p)]. i \<noteq> j \<and> c = m_id (metas p ! j)) \<longleftrightarrow>
      \<not> (\<forall>i < length (metas p). \<forall>j < length (metas p). i \<noteq> j \<longrightarrow> m_id (metas p ! j) \<notin> set (conflicts_with (metas p ! i)))"
    by force
  moreover have "(\<exists>m \<in> set (metas p). \<exists>d \<in> set (depends_on m). \<not> (\<exists>m' \<in> set (metas p). d = m_id m')) \<longleftrightarrow>
      \<not> (\<forall>m \<in> set (metas p). set (depends_on m) \<subseteq> m_id ` set (metas p))"
    by blast
  ultimately show ?thesis unfolding conflict_check_metas_def by (simp only: split: if_split) auto
qed

lemma check_tokens_ok:
  "\<not> conflict_check_tokens p < 0 \<longleftrightarrow>
     (\<forall>i j. i < j \<and> j < length (tokens p) \<and> tk_name (tokens p ! i) = tk_name (tokens p ! j) \<longrightarrow>
        tk_pattern (tokens p ! i) = tk_pattern (tokens p ! j))"
  by (auto simp: conflict_check_tokens_def any_pair_iff)

lemma check_names_ok:
  "\<not> conflict_check_node_names p < 0 \<longleftrightarrow>
     (\<forall>i j. i < j \<and> j < length (metas p) \<longrightarrow> set (provides (metas p ! i)) \<inter> set (provides (metas p ! j)) = {})"
  by (auto simp: conflict_check_node_names_def any_pair_iff)

lemma check_exclusive_ok:
  "\<not> conflict_check_sema_exclusive p < 0 \<longleftrightarrow>
     (\<forall>i j. i < j \<and> j < length (sema_rules p) \<and> sr_target (sema_rules p ! i) = sr_target (sema_rules p ! j) \<longrightarrow>
        \<not> (sr_kind (sema_rules p ! i) = SEMA_RULE_EXCLUSIVE \<and> sr_kind (sema_rules p ! j) = SEMA_RULE_EXCLUSIVE))"
  by (auto simp: conflict_check_sema_exclusive_def any_pair_iff)

text \<open>What one pair of passes is warned about.\<close>

definition warned :: "pipeline \<Rightarrow> pass \<Rightarrow> pass \<Rightarrow> (string \<times> string \<times> int) set" where
  "warned p t v =
     {(ps_name t, ps_name v, a) | a. ps_kind t = PASS_TRANSFORM \<and> ps_kind v \<noteq> PASS_TRANSFORM \<and> \<not> has_dep p v t \<and>
        a \<in> set (visitor_tags t) \<and> a \<in> set (visitor_tags v)}"

lemma set_pair_warnings: "ps_kind t = PASS_TRANSFORM \<Longrightarrow> set (pair_warnings p t v) = warned p t v"
  by (auto simp: pair_warnings_def warned_def)

lemma set_order_warnings:
  "set (order_warnings p ts) = {w. \<exists>i j. i < j \<and> j < length ts \<and> w \<in> warned p (ts ! i) (ts ! j)}"
proof (induction ts)
  case (Cons t vs)
  have first: "set (if ps_kind t = PASS_TRANSFORM then concat (map (pair_warnings p t) vs) else []) =
      {w. \<exists>v \<in> set vs. w \<in> warned p t v}"
    using set_pair_warnings [of t p] by (auto simp: warned_def)
  have "w \<in> set (order_warnings p vs) \<longleftrightarrow> any_pair (\<lambda>a b. w \<in> warned p a b) vs" for w
    unfolding any_pair_iff Cons by simp
  then have "w \<in> set (order_warnings p (t # vs)) \<longleftrightarrow> any_pair (\<lambda>a b. w \<in> warned p a b) (t # vs)" for w
    unfolding order_warnings.simps set_append first by simp
  then show ?case unfolding any_pair_iff by blast
qed simp

lemma set_order_warnings_map:
  "set (order_warnings p (map f ks)) = {w. \<exists>i j. i < j \<and> j < length ks \<and> w \<in> warned p (f (ks ! i)) (f (ks ! j))}"
  unfolding set_order_warnings by (rule Collect_cong) (auto, (metis nth_map order_less_trans)+)

end
