(* ===== verification/XPassesSpec.thy ===== *)
theory XPassesSpec
  imports XPassesProofs
begin

text \<open>
  What validating the plugin pipeline promises: a pass order that respects every constraint and
  prefers better passes, or the report of a cycle; and acceptance exactly of the pipelines without
  conflicts.
\<close>

text \<open>C12. Ordering the passes reports a cycle exactly when the constraint graph has one. Otherwise it
  puts every pass into the order once, each after all the passes it must follow; and at every
  place it takes a pass that no other pass that could stand there beats by priority, or by name
  when priorities are equal. In no case is the order longer than the table it is written to.\<close>
theorem pass_order_exact:
  "case conflict_check_pass_cycles p of (r, p') \<Rightarrow>
     r = (if acyclic (pass_edges p) then 0 else -1) \<and>
     p' = p\<lparr>sorted_passes := sorted_passes p'\<rparr> \<and> length (sorted_passes p') \<le> npasses p \<and>
     (r = 0 \<longrightarrow>
        distinct (sorted_passes p') \<and> set (sorted_passes p') = {..<npasses p} \<and>
        (\<forall>(a, b) \<in> pass_edges p. \<exists>i j. i < j \<and> j < npasses p \<and> sorted_passes p' ! i = a \<and> sorted_passes p' ! j = b) \<and>
        (\<forall>k < npasses p. \<forall>j < npasses p. (\<forall>a. (a, j) \<in> pass_edges p \<longrightarrow> a \<in> set (take k (sorted_passes p'))) \<longrightarrow>
           j \<notin> set (take k (sorted_passes p')) \<longrightarrow> \<not> better (passes p) j (sorted_passes p' ! k)))"
proof -
  obtain out where c: "conflict_check_pass_cycles p = (if acyclic (pass_edges p) then 0 else -1, p\<lparr>sorted_passes := out\<rparr>)"
    and d: "distinct out" "set out \<subseteq> {..<npasses p}" and o: "ordered (passes p) (pass_edges p) (npasses p) out"
    and l: "length out = npasses p \<longleftrightarrow> acyclic (pass_edges p)"
    using check_cycles [of p] by blast
  have le: "length out \<le> npasses p" using d card_mono [of "{..<npasses p}" "set out"] distinct_card [of out] by simp
  have all: "set out = {..<npasses p}" if "acyclic (pass_edges p)"
    using card_subset_eq [OF _ d(2)] distinct_card [OF d(1)] that l by simp
  have "\<exists>i j. i < j \<and> j < npasses p \<and> out ! i = a \<and> out ! j = b" if e: "(a, b) \<in> pass_edges p" and ac: "acyclic (pass_edges p)" for a b
  proof -
    have "b < npasses p" using e build_graph_ok [of p] by (auto simp: graph_ok_def)
    then obtain j where j: "j < length out" "out ! j = b" using all [OF ac] by (metis in_set_conv_nth lessThan_iff)
    then have "a \<in> set (take j out)" using o e by (auto simp: ordered_def preds_def)
    then obtain i where "i < j" "out ! i = a" using j(1) by (auto simp: in_set_conv_nth)
    then show ?thesis using j le by (intro exI [of _ i] exI [of _ j]) simp
  qed
  moreover have "\<not> better (passes p) j (out ! k)"
    if "acyclic (pass_edges p)" "k < npasses p" "j < npasses p" "\<forall>a. (a, j) \<in> pass_edges p \<longrightarrow> a \<in> set (take k out)" "j \<notin> set (take k out)"
    for k j
    using that o l unfolding ordered_def preds_def subset_iff mem_Collect_eq by simp
  ultimately show ?thesis using c d le all by auto
qed

text \<open>Two passes, the second of which must come before the first.\<close>

abbreviation two_passes :: pipeline where
  "two_passes \<equiv> \<lparr>tokens = [], passes =
      [\<lparr>ps_name = ''a'', ps_plugin = ''p'', phase_ref = Some ''b'', is_after = True, ps_kind = PASS_TRANSFORM,
        visitor_tags = [1], ps_order = 0\<rparr>,
       \<lparr>ps_name = ''b'', ps_plugin = ''q'', phase_ref = None, is_after = False, ps_kind = PASS_ANALYZE,
        visitor_tags = [1], ps_order = 5\<rparr>],
     sorted_passes = [], sema_rules = [], metas = [], constraints = []\<rparr>"

theorem pass_order_exact_witness:
  "conflict_check_pass_cycles two_passes = (0, two_passes\<lparr>sorted_passes := [1, 0]\<rparr>) \<and>
   \<not> better (passes two_passes) 1 1"
proof -
  have c: "conflict_check_pass_cycles two_passes = (0, two_passes\<lparr>sorted_passes := [1, 0]\<rparr>)"
    by code_simp
  then have a: "\<forall>k < 2. \<forall>j < 2. (\<forall>a. (a, j) \<in> pass_edges two_passes \<longrightarrow> a \<in> set (take k [1, 0])) \<longrightarrow>
      j \<notin> set (take k [1, 0]) \<longrightarrow> \<not> better (passes two_passes) j ([1, 0] ! k)"
    using pass_order_exact [of two_passes] by (simp add: numeral_2_eq_2)
  have "(a, 1) \<notin> pass_edges two_passes" for a
    by (auto simp: pass_edges_def phase_edges_def find_pass_def less_Suc_eq)
  then have "\<not> better (passes two_passes) 1 1" using a [rule_format, of 0 1] by simp
  then show ?thesis using c by simp
qed

text \<open>C32. Validation accepts a pipeline exactly when no loaded plugin names another as conflicting, every
  plugin that one depends on is loaded, no two tokens share a name with different patterns, no
  node name is provided twice, no target has two exclusive rules, and the pass constraints have no
  cycle. The warnings are then the pairs of a transforming pass and a later pass that does not
  transform, whose plugin does not depend on the other, for each visitor tag they share.\<close>
theorem validate_exact:
  "case pipeline_validate p of (r, p', ws) \<Rightarrow>
     (r = 0 \<longleftrightarrow>
        (\<forall>i < length (metas p). \<forall>j < length (metas p). i \<noteq> j \<longrightarrow> m_id (metas p ! j) \<notin> set (conflicts_with (metas p ! i))) \<and>
        (\<forall>m \<in> set (metas p). set (depends_on m) \<subseteq> m_id ` set (metas p)) \<and>
        (\<forall>i j. i < j \<and> j < length (tokens p) \<and> tk_name (tokens p ! i) = tk_name (tokens p ! j) \<longrightarrow>
           tk_pattern (tokens p ! i) = tk_pattern (tokens p ! j)) \<and>
        (\<forall>i j. i < j \<and> j < length (metas p) \<longrightarrow> set (provides (metas p ! i)) \<inter> set (provides (metas p ! j)) = {}) \<and>
        (\<forall>i j. i < j \<and> j < length (sema_rules p) \<and> sr_target (sema_rules p ! i) = sr_target (sema_rules p ! j) \<longrightarrow>
           \<not> (sr_kind (sema_rules p ! i) = SEMA_RULE_EXCLUSIVE \<and> sr_kind (sema_rules p ! j) = SEMA_RULE_EXCLUSIVE)) \<and>
        acyclic (pass_edges p)) \<and>
     (r \<noteq> 0 \<longrightarrow> r = -1) \<and>
     (acyclic (pass_edges p) \<longrightarrow>
        set ws = {(ps_name t, ps_name v, a) | i j t v a. i < j \<and> j < npasses p \<and>
          t = passes p ! (sorted_passes p' ! i) \<and> v = passes p ! (sorted_passes p' ! j) \<and>
          ps_kind t = PASS_TRANSFORM \<and> ps_kind v \<noteq> PASS_TRANSFORM \<and> \<not> has_dep p v t \<and>
          a \<in> set (visitor_tags t) \<and> a \<in> set (visitor_tags v)})"
proof -
  obtain out where c: "conflict_check_pass_cycles p = (if acyclic (pass_edges p) then 0 else -1, p\<lparr>sorted_passes := out\<rparr>)"
    and l: "length out = npasses p \<longleftrightarrow> acyclic (pass_edges p)"
    using check_cycles [of p] by blast
  let ?p = "p\<lparr>sorted_passes := out\<rparr>"
  have edges: "pass_edges ?p = pass_edges p"
    by (simp add: pass_edges_def phase_edges_def constraint_edges_def find_pass_def)
  have warn: "\<exists>p' ws. conflict_warn_transform_visibility ?p = (if acyclic (pass_edges p) then 0 else -1, p', ws) \<and>
      (acyclic (pass_edges p) \<longrightarrow> p' = ?p \<and> ws = order_warnings ?p (map ((!) (passes p)) out))"
    using check_cycles [of ?p] l unfolding edges
    by (auto simp: conflict_warn_transform_visibility_def Let_def split_def)
  then obtain p' ws where w: "conflict_warn_transform_visibility ?p = (if acyclic (pass_edges p) then 0 else -1, p', ws)"
    "acyclic (pass_edges p) \<longrightarrow> p' = ?p \<and> ws = order_warnings ?p (map ((!) (passes p)) out)" by blast
  let ?ok = "\<not> (conflict_check_metas p < 0 \<or> conflict_check_tokens p < 0 \<or> conflict_check_node_names p < 0 \<or>
      conflict_check_sema_exclusive p < 0)"
  have v: "pipeline_validate p = (if \<not> acyclic (pass_edges p) then -1 else if ?ok then 0 else -1, p', ws)"
    using c w by (simp add: pipeline_validate_def Let_def)
  have ok: "?ok \<longleftrightarrow>
      (\<forall>i < length (metas p). \<forall>j < length (metas p). i \<noteq> j \<longrightarrow> m_id (metas p ! j) \<notin> set (conflicts_with (metas p ! i))) \<and>
      (\<forall>m \<in> set (metas p). set (depends_on m) \<subseteq> m_id ` set (metas p)) \<and>
      (\<forall>i j. i < j \<and> j < length (tokens p) \<and> tk_name (tokens p ! i) = tk_name (tokens p ! j) \<longrightarrow>
         tk_pattern (tokens p ! i) = tk_pattern (tokens p ! j)) \<and>
      (\<forall>i j. i < j \<and> j < length (metas p) \<longrightarrow> set (provides (metas p ! i)) \<inter> set (provides (metas p ! j)) = {}) \<and>
      (\<forall>i j. i < j \<and> j < length (sema_rules p) \<and> sr_target (sema_rules p ! i) = sr_target (sema_rules p ! j) \<longrightarrow>
         \<not> (sr_kind (sema_rules p ! i) = SEMA_RULE_EXCLUSIVE \<and> sr_kind (sema_rules p ! j) = SEMA_RULE_EXCLUSIVE))"
    by (simp only: de_Morgan_disj check_metas_ok check_tokens_ok check_names_ok check_exclusive_ok conj_assoc)
  have warnings: "set ws = {(ps_name t, ps_name v, a) | i j t v a. i < j \<and> j < npasses p \<and>
        t = passes p ! (sorted_passes p' ! i) \<and> v = passes p ! (sorted_passes p' ! j) \<and>
        ps_kind t = PASS_TRANSFORM \<and> ps_kind v \<noteq> PASS_TRANSFORM \<and> \<not> has_dep p v t \<and>
        a \<in> set (visitor_tags t) \<and> a \<in> set (visitor_tags v)}" if "acyclic (pass_edges p)"
  proof -
    have e: "p' = ?p" "ws = order_warnings ?p (map ((!) (passes p)) out)" "length out = npasses p" using w(2) l that by auto
    have dep: "has_dep ?p v t = has_dep p v t" for v t by (simp add: has_dep_def)
    show ?thesis unfolding e(1,2) set_order_warnings_map e(3) warned_def dep by (rule Collect_cong) (simp, blast)
  qed
  show ?thesis unfolding v prod.case using ok warnings by auto
qed

theorem validate_exact_witness:
  "pipeline_validate two_passes = (0, two_passes\<lparr>sorted_passes := [1, 0]\<rparr>, []) \<and> acyclic (pass_edges two_passes)"
proof -
  have "pipeline_validate two_passes = (0, two_passes\<lparr>sorted_passes := [1, 0]\<rparr>, [])" by code_simp
  then show ?thesis using validate_exact [of two_passes] by simp
qed

end
