(* ===== verification/XBTree.thy ===== *)
theory XBTree
  imports XPrelude "HOL-Library.Monad_Syntax"
begin

text \<open>
  The B-tree of the embedded database (\<open>src/db/xsdb.c\<close>, \<open>xsdb.h\<close>): rows by 64-bit key, with
  search, insertion by splitting full nodes on the way down, deletion by refilling small ones, and
  the scan in key order.

  A node holds its \<open>nkeys\<close> keys with their rows, and its children (none in a leaf). A tree is \<open>None\<close>
  where the root pointer is \<open>NULL\<close>. An operation is \<open>None\<close> where the C code would follow a missing
  child, read or write outside a node's arrays, or use a row that was not found.
\<close>

section \<open>Nodes\<close>

definition XSDB_ORDER :: nat where
  "XSDB_ORDER = 64"

definition min_keys :: nat where
  "min_keys = (XSDB_ORDER - 1) div 2"

datatype 'r bnode = BNode (is_leaf: bool) (ents: "(int \<times> 'r) list") (kids: "'r bnode list")

abbreviation nkeys :: "'r bnode \<Rightarrow> nat" where
  "nkeys t \<equiv> length (ents t)"

definition child :: "'r bnode \<Rightarrow> nat \<Rightarrow> 'r bnode option" where
  "child t i = (if i < length (kids t) then Some (kids t ! i) else None)"

definition set_child :: "'r bnode \<Rightarrow> nat \<Rightarrow> 'r bnode \<Rightarrow> 'r bnode" where
  "set_child t i c = BNode (is_leaf t) (ents t) ((kids t)[i := c])"

text \<open>The height bounds the recursions.\<close>

primrec ht :: "'r bnode \<Rightarrow> nat" where
  "ht (BNode l es ks) = Suc (foldr max (map ht ks) 0)"

lemma foldr_max_ge: "x \<in> set xs \<Longrightarrow> x \<le> foldr max xs (0 :: nat)"
  by (induction xs) auto

lemma foldr_max_le: "\<forall>x \<in> set xs. x \<le> n \<Longrightarrow> foldr max xs (0 :: nat) \<le> n"
  by (induction xs) auto

lemma ht_kid: "k \<in> set (kids t) \<Longrightarrow> ht k < ht t"
  by (cases t) (auto intro: foldr_max_ge simp: less_Suc_eq_le)

lemma ht_le: "(\<And>k. k \<in> set (kids t) \<Longrightarrow> ht k < n) \<Longrightarrow> 0 < n \<Longrightarrow> ht t \<le> n"
proof (cases t)
  case (BNode l es ks)
  assume "\<And>k. k \<in> set (kids t) \<Longrightarrow> ht k < n" "0 < n"
  then have "\<forall>x \<in> set (map ht ks). x \<le> n - 1" using BNode by fastforce
  then have "foldr max (map ht ks) 0 \<le> n - 1" by (rule foldr_max_le)
  then show "ht t \<le> n" using \<open>0 < n\<close> BNode by simp
qed

lemma child_kid: "child t i = Some c \<Longrightarrow> c \<in> set (kids t)"
  by (auto simp: child_def split: if_splits)

lemma ht_child [termination_simp]: "child t i = Some c \<Longrightarrow> ht c < ht t"
  by (rule ht_kid [OF child_kid])

text \<open>Operations that rearrange a node give children that are its own or have only its grandchildren.\<close>

definition below_node :: "'r bnode \<Rightarrow> 'r bnode \<Rightarrow> bool" where
  "below_node p c \<longleftrightarrow> c \<in> set (kids p) \<or>
     (\<exists>a \<in> set (kids p). \<exists>b \<in> set (kids p). set (kids c) \<subseteq> set (kids a) \<union> set (kids b))"

lemma below_kid: "c \<in> set (kids p) \<Longrightarrow> below_node p c"
  by (simp add: below_node_def)

lemma below_new: "\<lbrakk>a \<in> set (kids p); b \<in> set (kids p); set (kids c) \<subseteq> set (kids a) \<union> set (kids b)\<rbrakk> \<Longrightarrow> below_node p c"
  by (auto simp: below_node_def)

lemma below_ht: "below_node p c \<Longrightarrow> ht c < ht p"
  unfolding below_node_def
proof (elim disjE bexE)
  fix a b assume ab: "a \<in> set (kids p)" "b \<in> set (kids p)" "set (kids c) \<subseteq> set (kids a) \<union> set (kids b)"
  have pos: "0 < ht a" by (cases a) simp
  have "ht k < max (ht a) (ht b)" if "k \<in> set (kids c)" for k
    using ab(3) that ht_kid [of k a] ht_kid [of k b] by auto
  then have "ht c \<le> max (ht a) (ht b)" using pos by (intro ht_le) auto
  then show "ht c < ht p" using ht_kid [OF ab(1)] ht_kid [OF ab(2)] by linarith
qed (rule ht_kid)

lemma child_below: "(\<And>c. c \<in> set (kids p') \<Longrightarrow> below_node p c) \<Longrightarrow> child p' i = Some c' \<Longrightarrow> ht c' < ht p"
  using child_kid below_ht by blast

lemma set_update2: "x \<in> set (xs[i := a, j := b]) \<Longrightarrow> x = a \<or> x = b \<or> x \<in> set xs"
  by (metis in_set_conv_nth length_list_update nth_list_update_eq nth_list_update_neq)

section \<open>Search\<close>

text \<open>The first position whose key is not below the key sought.\<close>

fun slot :: "(int \<times> 'r) list \<Rightarrow> int \<Rightarrow> nat" where
  "slot [] key = 0"
| "slot (e # es) key = (if fst e < key then Suc (slot es key) else 0)"

function xsdb_btree_search :: "'r bnode \<Rightarrow> int \<Rightarrow> 'r option" where
  "xsdb_btree_search t key =
     (let i = slot (ents t) key
      in if i < nkeys t \<and> key = fst (ents t ! i) then Some (snd (ents t ! i))
         else if is_leaf t then None
         else case child t i of None \<Rightarrow> None | Some c \<Rightarrow> xsdb_btree_search c key)"
  by pat_completeness auto
termination
  by (relation "measure (ht \<circ> fst)") (auto simp: ht_child)

declare xsdb_btree_search.simps [simp del]

section \<open>Insertion\<close>

definition btree_split_child :: "'r bnode \<Rightarrow> nat \<Rightarrow> 'r bnode option" where
  "btree_split_child p idx = do {
     c \<leftarrow> child p idx;
     let mid = (XSDB_ORDER - 1) div 2;
     if mid < nkeys c \<and> nkeys p < XSDB_ORDER - 1
     then Some (BNode (is_leaf p)
            (take idx (ents p) @ [ents c ! mid] @ drop idx (ents p))
            (take idx (kids p) @
             [BNode (is_leaf c) (take mid (ents c)) (take (Suc mid) (kids c)),
              BNode (is_leaf c) (drop (Suc mid) (ents c)) (drop (Suc mid) (kids c))] @
             drop (Suc idx) (kids p)))
     else None }"

lemma split_child_ht:
  assumes "btree_split_child p idx = Some p'" and "child p' i = Some c'"
  shows "ht c' < ht p"
proof (rule child_below [OF _ assms(2)])
  fix x assume x: "x \<in> set (kids p')"
  obtain c where c: "child p idx = Some c" using assms(1) by (cases "child p idx") (auto simp: btree_split_child_def)
  then have ck: "c \<in> set (kids p)" by (rule child_kid)
  have "x \<in> set (kids p) \<or> set (kids x) \<subseteq> set (kids c)"
    using assms(1) c x
    by (auto simp: btree_split_child_def Let_def dest!: in_set_takeD in_set_dropD split: if_splits)
  then show "below_node p x" using below_kid below_new [OF ck ck] by blast
qed

text \<open>The scan from the right: the position after the last key that is not above \<open>key\<close>.\<close>

fun rslot :: "(int \<times> 'r) list \<Rightarrow> int \<Rightarrow> nat \<Rightarrow> nat" where
  "rslot es key 0 = 0"
| "rslot es key (Suc i) = (if key < fst (es ! i) then rslot es key i else Suc i)"

function btree_insert_nonfull :: "'r bnode \<Rightarrow> int \<Rightarrow> 'r \<Rightarrow> 'r bnode option" where
  "btree_insert_nonfull t key row =
     (let i = rslot (ents t) key (nkeys t)
      in if is_leaf t then
           (if nkeys t < XSDB_ORDER - 1
            then Some (BNode True (take i (ents t) @ [(key, row)] @ drop i (ents t)) (kids t)) else None)
         else case child t i of
           None \<Rightarrow> None
         | Some c \<Rightarrow>
             if nkeys c = XSDB_ORDER - 1 then
               (case btree_split_child t i of
                  None \<Rightarrow> None
                | Some t' \<Rightarrow>
                    let j = (if fst (ents t' ! i) < key then Suc i else i)
                    in case child t' j of
                         None \<Rightarrow> None
                       | Some c' \<Rightarrow> map_option (set_child t' j) (btree_insert_nonfull c' key row))
             else map_option (set_child t i) (btree_insert_nonfull c key row))"
  by pat_completeness auto
termination
  by (relation "measure (ht \<circ> fst)") (auto simp: ht_child split_child_ht)

declare btree_insert_nonfull.simps [simp del]

text \<open>The result code and the new root; a key that is there is refused.\<close>

definition xsdb_btree_insert :: "'r bnode option \<Rightarrow> int \<Rightarrow> 'r \<Rightarrow> (int \<times> 'r bnode option) option" where
  "xsdb_btree_insert root key row =
     (case root of
        None \<Rightarrow> Some (0, Some (BNode True [(key, row)] []))
      | Some t \<Rightarrow>
          if xsdb_btree_search t key \<noteq> None then Some (-1, root)
          else if nkeys t = XSDB_ORDER - 1 then do {
            r \<leftarrow> btree_split_child (BNode False [] [t]) 0;
            let i = (if fst (ents r ! 0) < key then 1 else 0);
            c \<leftarrow> child r i;
            c' \<leftarrow> btree_insert_nonfull c key row;
            Some (0, Some (set_child r i c')) }
          else do { t' \<leftarrow> btree_insert_nonfull t key row; Some (0, Some t') })"

section \<open>Deletion\<close>

function btree_predecessor_key :: "'r bnode \<Rightarrow> int option" where
  "btree_predecessor_key t =
     (if is_leaf t then (if ents t = [] then None else Some (fst (ents t ! (nkeys t - 1))))
      else case child t (nkeys t) of None \<Rightarrow> None | Some c \<Rightarrow> btree_predecessor_key c)"
  by pat_completeness auto
termination
  by (relation "measure ht") (auto simp: ht_child)

function btree_successor_key :: "'r bnode \<Rightarrow> int option" where
  "btree_successor_key t =
     (if is_leaf t then (if ents t = [] then None else Some (fst (ents t ! 0)))
      else case child t 0 of None \<Rightarrow> None | Some c \<Rightarrow> btree_successor_key c)"
  by pat_completeness auto
termination
  by (relation "measure ht") (auto simp: ht_child)

declare btree_predecessor_key.simps [simp del] btree_successor_key.simps [simp del]

text \<open>The index is an \<open>int\<close>, because \<open>btree_fill\<close> may pass -1.\<close>

definition btree_merge :: "'r bnode \<Rightarrow> int \<Rightarrow> 'r bnode option" where
  "btree_merge p k =
     (if k < 0 \<or> int (nkeys p) \<le> k then None
      else do {
        let idx = nat k;
        left \<leftarrow> child p idx;
        right \<leftarrow> child p (Suc idx);
        if nkeys left + 1 + nkeys right \<le> XSDB_ORDER - 1
        then Some (BNode (is_leaf p)
               (take idx (ents p) @ drop (Suc idx) (ents p))
               (take idx (kids p) @
                [BNode (is_leaf left) (ents left @ [ents p ! idx] @ ents right)
                   (if is_leaf left then kids left else kids left @ kids right)] @
                drop (Suc (Suc idx)) (kids p)))
        else None })"

definition borrow_left :: "'r bnode \<Rightarrow> nat \<Rightarrow> 'r bnode \<Rightarrow> 'r bnode \<Rightarrow> 'r bnode" where
  "borrow_left p idx left c =
     (let n = nkeys left
      in BNode (is_leaf p) ((ents p)[idx - 1 := ents left ! (n - 1)])
           ((kids p)[idx - 1 := BNode (is_leaf left) (take (n - 1) (ents left)) (take n (kids left)),
                     idx := BNode (is_leaf c) (ents p ! (idx - 1) # ents c)
                       (if is_leaf c then kids c else drop n (kids left) @ kids c)]))"

definition borrow_right :: "'r bnode \<Rightarrow> nat \<Rightarrow> 'r bnode \<Rightarrow> 'r bnode \<Rightarrow> 'r bnode" where
  "borrow_right p idx right c =
     BNode (is_leaf p) ((ents p)[idx := ents right ! 0])
       ((kids p)[Suc idx := BNode (is_leaf right) (drop 1 (ents right)) (drop 1 (kids right)),
                 idx := BNode (is_leaf c) (ents c @ [ents p ! idx])
                   (if is_leaf c then kids c else kids c @ take 1 (kids right))])"

text \<open>The second half of \<open>btree_fill\<close>: borrow from the right sibling, or merge.\<close>

definition fill_right :: "'r bnode \<Rightarrow> nat \<Rightarrow> 'r bnode \<Rightarrow> 'r bnode option" where
  "fill_right p idx c =
     (if idx < nkeys p then do {
        right \<leftarrow> child p (Suc idx);
        if min_keys < nkeys right then Some (borrow_right p idx right c) else btree_merge p (int idx) }
      else btree_merge p (int idx - 1))"

definition btree_fill :: "'r bnode \<Rightarrow> nat \<Rightarrow> 'r bnode option" where
  "btree_fill p idx = do {
     c \<leftarrow> child p idx;
     if 0 < idx then do {
       left \<leftarrow> child p (idx - 1);
       if min_keys < nkeys left then Some (borrow_left p idx left c) else fill_right p idx c }
     else fill_right p idx c }"

lemma merge_below:
  assumes "btree_merge p k = Some p'" and "c' \<in> set (kids p')"
  shows "below_node p c'"
proof -
  obtain left right where lr: "child p (nat k) = Some left" "child p (Suc (nat k)) = Some right"
    "p' = BNode (is_leaf p) (take (nat k) (ents p) @ drop (Suc (nat k)) (ents p))
       (take (nat k) (kids p) @
        [BNode (is_leaf left) (ents left @ [ents p ! nat k] @ ents right)
           (if is_leaf left then kids left else kids left @ kids right)] @ drop (Suc (Suc (nat k))) (kids p))"
    using assms(1) by (auto simp: btree_merge_def Let_def split: if_splits bind_splits)
  have "c' \<in> set (kids p) \<or> set (kids c') \<subseteq> set (kids left) \<union> set (kids right)"
    using assms(2) unfolding lr(3) by (auto dest!: in_set_takeD in_set_dropD split: if_splits)
  then show ?thesis using below_kid below_new [OF child_kid [OF lr(1)] child_kid [OF lr(2)]] by blast
qed

lemma borrow_below:
  "\<lbrakk>child p (idx - 1) = Some l; child p idx = Some c; c' \<in> set (kids (borrow_left p idx l c))\<rbrakk> \<Longrightarrow> below_node p c'"
  "\<lbrakk>child p (Suc idx) = Some r; child p idx = Some c; c' \<in> set (kids (borrow_right p idx r c))\<rbrakk> \<Longrightarrow> below_node p c'"
proof -
  assume l: "child p (idx - 1) = Some l" and c: "child p idx = Some c" and m: "c' \<in> set (kids (borrow_left p idx l c))"
  have "c' \<in> set (kids p) \<or> set (kids c') \<subseteq> set (kids l) \<union> set (kids c)"
    using m unfolding borrow_left_def Let_def
    by (auto dest!: set_update2 in_set_takeD in_set_dropD split: if_splits)
  then show "below_node p c'" using below_kid below_new [OF child_kid [OF l] child_kid [OF c]] by blast
next
  assume r: "child p (Suc idx) = Some r" and c: "child p idx = Some c" and m: "c' \<in> set (kids (borrow_right p idx r c))"
  have "c' \<in> set (kids p) \<or> set (kids c') \<subseteq> set (kids r) \<union> set (kids c)"
    using m unfolding borrow_right_def
    by (auto dest!: set_update2 in_set_takeD in_set_dropD split: if_splits)
  then show "below_node p c'" using below_kid below_new [OF child_kid [OF r] child_kid [OF c]] by blast
qed

lemma merge_ht: "btree_merge p k = Some p' \<Longrightarrow> child p' i = Some c' \<Longrightarrow> ht c' < ht p"
  by (rule child_below [OF merge_below])

lemma fill_ht: "btree_fill p idx = Some p' \<Longrightarrow> child p' i = Some c' \<Longrightarrow> ht c' < ht p"
  by (erule child_below [rotated])
    (auto simp: btree_fill_def fill_right_def intro: merge_below borrow_below split: if_splits bind_splits)

text \<open>The result is the new node and the result code.\<close>

function btree_delete_recursive :: "'r bnode \<Rightarrow> int \<Rightarrow> ('r bnode \<times> int) option" where
  "btree_delete_recursive t key =
     (let i = slot (ents t) key
      in if i < nkeys t \<and> key = fst (ents t ! i) then
           (if is_leaf t then Some (BNode True (take i (ents t) @ drop (Suc i) (ents t)) (kids t), 0)
            else case child t i of
              None \<Rightarrow> None
            | Some a \<Rightarrow>
                if min_keys < nkeys a then
                  (case btree_predecessor_key a of
                     None \<Rightarrow> None
                   | Some pred \<Rightarrow>
                       (case xsdb_btree_search a pred of
                          None \<Rightarrow> None
                        | Some row \<Rightarrow>
                            map_option (\<lambda>(a', rc). (BNode False ((ents t)[i := (pred, row)]) ((kids t)[i := a']), rc))
                              (btree_delete_recursive a pred)))
                else case child t (Suc i) of
                  None \<Rightarrow> None
                | Some b \<Rightarrow>
                    if min_keys < nkeys b then
                      (case btree_successor_key b of
                         None \<Rightarrow> None
                       | Some succ \<Rightarrow>
                           (case xsdb_btree_search b succ of
                              None \<Rightarrow> None
                            | Some row \<Rightarrow>
                                map_option (\<lambda>(b', rc). (BNode False ((ents t)[i := (succ, row)]) ((kids t)[Suc i := b']), rc))
                                  (btree_delete_recursive b succ)))
                    else
                      (case btree_merge t (int i) of
                         None \<Rightarrow> None
                       | Some t' \<Rightarrow>
                           (case child t' i of
                              None \<Rightarrow> None
                            | Some c \<Rightarrow> map_option (\<lambda>(c', rc). (set_child t' i c', rc)) (btree_delete_recursive c key))))
         else if is_leaf t then Some (t, -1)
         else case child t i of
           None \<Rightarrow> None
         | Some a \<Rightarrow>
             if nkeys a \<le> min_keys then
               (case btree_fill t i of
                  None \<Rightarrow> None
                | Some t' \<Rightarrow>
                    let j = (if nkeys t' < i then i - 1 else i)
                    in case child t' j of
                         None \<Rightarrow> None
                       | Some c \<Rightarrow> map_option (\<lambda>(c', rc). (set_child t' j c', rc)) (btree_delete_recursive c key))
             else map_option (\<lambda>(a', rc). (set_child t i a', rc)) (btree_delete_recursive a key))"
  by pat_completeness auto
termination
  by (relation "measure (ht \<circ> fst)") (auto simp: ht_child merge_ht fill_ht)

declare btree_delete_recursive.simps [simp del]

definition xsdb_btree_delete :: "'r bnode option \<Rightarrow> int \<Rightarrow> (int \<times> 'r bnode option) option" where
  "xsdb_btree_delete root key =
     (case root of
        None \<Rightarrow> Some (-1, None)
      | Some t \<Rightarrow> do {
          (t', rc) \<leftarrow> btree_delete_recursive t key;
          if rc \<noteq> 0 then Some (rc, Some t')
          else if nkeys t' = 0 \<and> \<not> is_leaf t' then do { c \<leftarrow> child t' 0; Some (0, Some c) }
          else if nkeys t' = 0 then Some (0, None)
          else Some (0, Some t') })"

section \<open>Scan\<close>

text \<open>The rows in the order the callback gets them; a missing child is an empty tree.\<close>

function xsdb_btree_scan :: "'r bnode \<Rightarrow> 'r list" where
  "xsdb_btree_scan t =
     concat (map (\<lambda>i. (if \<not> is_leaf t then (case child t i of None \<Rightarrow> [] | Some c \<Rightarrow> xsdb_btree_scan c) else []) @
                      [snd (ents t ! i)]) [0..<nkeys t]) @
     (if \<not> is_leaf t then (case child t (nkeys t) of None \<Rightarrow> [] | Some c \<Rightarrow> xsdb_btree_scan c) else [])"
  by pat_completeness auto
termination
  by (relation "measure ht") (auto simp: ht_child)

declare xsdb_btree_scan.simps [simp del]

definition xsdb_btree_count :: "'r bnode option \<Rightarrow> nat" where
  "xsdb_btree_count root = (case root of None \<Rightarrow> 0 | Some t \<Rightarrow> length (xsdb_btree_scan t))"

end
