(* ===== verification/XBTreeProofs.thy ===== *)
theory XBTreeProofs
  imports XBTree
begin

text \<open>
  The shape of a B-tree, its entries in key order, and what each operation does to them. A node is
  taken apart around one child: the entries before the child, the child's own, those after.
\<close>

section \<open>Entries in order\<close>

fun pre :: "'a list list \<Rightarrow> 'a list \<Rightarrow> 'a list" where
  "pre (k # ks) (e # es) = k @ e # pre ks es"
| "pre ks es = []"

fun post :: "'a list \<Rightarrow> 'a list list \<Rightarrow> 'a list" where
  "post (e # es) (k # ks) = e # k @ post es ks"
| "post es ks = []"

fun weave :: "'a list list \<Rightarrow> 'a list \<Rightarrow> 'a list" where
  "weave [] es = []"
| "weave (k # ks) es = k @ post es ks"

primrec inorder :: "'r bnode \<Rightarrow> (int \<times> 'r) list" where
  "inorder (BNode l es ks) = (if l then es else weave (map inorder ks) es)"

abbreviation ipre :: "'r bnode list \<Rightarrow> (int \<times> 'r) list \<Rightarrow> (int \<times> 'r) list" where
  "ipre ks es \<equiv> pre (map inorder ks) es"

abbreviation ipost :: "(int \<times> 'r) list \<Rightarrow> 'r bnode list \<Rightarrow> (int \<times> 'r) list" where
  "ipost es ks \<equiv> post es (map inorder ks)"

lemma weave_mid: "length ks1 = length es1 \<Longrightarrow> weave (ks1 @ c # ks2) (es1 @ es2) = pre ks1 es1 @ c @ post es2 ks2"
proof (induction ks1 es1 rule: list_induct2)
  case (Cons k ks e es)
  have "weave ((k # ks) @ c # ks2) ((e # es) @ es2) = k @ e # weave (ks @ c # ks2) (es @ es2)"
    by (cases ks) simp_all
  then show ?case using Cons by simp
qed simp

lemma pre_append: "length ks1 = length es1 \<Longrightarrow> pre (ks1 @ ks2) (es1 @ es2) = pre ks1 es1 @ pre ks2 es2"
  by (induction ks1 es1 rule: list_induct2) auto

lemma post_append: "length es1 = length ks1 \<Longrightarrow> post (es1 @ es2) (ks1 @ ks2) = post es1 ks1 @ post es2 ks2"
  by (induction es1 ks1 rule: list_induct2) auto

lemma inorder_mid:
  "length ks1 = length es1 \<Longrightarrow> inorder (BNode False (es1 @ es2) (ks1 @ c # ks2)) = ipre ks1 es1 @ inorder c @ ipost es2 ks2"
  using weave_mid [of "map inorder ks1" es1 "inorder c"] by simp

abbreviation ksorted :: "(int \<times> 'r) list \<Rightarrow> bool" where
  "ksorted xs \<equiv> sorted_wrt (<) (map fst xs)"

lemma pre_less:
  "\<lbrakk>length ks = length es; ksorted (pre ks es); \<forall>e \<in> set es. fst e < key\<rbrakk> \<Longrightarrow> \<forall>x \<in> set (pre ks es). fst x < (key :: int)"
  by (induction ks es rule: list_induct2) (auto simp: sorted_wrt_append dest: order_less_trans)

lemma pre_sorted: "\<lbrakk>length ks = length es; ksorted (pre ks es)\<rbrakk> \<Longrightarrow> ksorted es"
proof (induction ks es rule: list_induct2)
  case (Cons k ks e es)
  have "set es \<subseteq> set (pre ks es)" if "length ks = length es" for ks :: "(int \<times> 'a) list list" and es
    using that by (induction ks es rule: list_induct2) auto
  then show ?case using Cons by (auto simp: sorted_wrt_append)
qed simp

lemma set_pre: "length ks = length es \<Longrightarrow> set es \<subseteq> set (pre ks es)"
  by (induction ks es rule: list_induct2) auto

lemma post_greater: "\<lbrakk>ksorted (post es ks); es \<noteq> [] \<longrightarrow> key < fst (hd es)\<rbrakk> \<Longrightarrow> \<forall>x \<in> set (post es ks). key < fst x"
  by (cases "(es, ks)" rule: post.cases) (auto simp: sorted_wrt_append dest: order_less_trans)

section \<open>The shape\<close>

primrec valid :: "nat \<Rightarrow> 'r bnode \<Rightarrow> bool" where
  "valid 0 t \<longleftrightarrow> is_leaf t \<and> kids t = []"
| "valid (Suc h) t \<longleftrightarrow> \<not> is_leaf t \<and> length (kids t) = Suc (nkeys t) \<and>
     (\<forall>k \<in> set (kids t). valid h k \<and> min_keys \<le> nkeys k \<and> nkeys k < XSDB_ORDER)"

lemma order_arith: "min_keys = 31" "XSDB_ORDER = 64" "(XSDB_ORDER - 1) div 2 = 31" "XSDB_ORDER - 1 = 63"
  by (simp_all add: min_keys_def XSDB_ORDER_def)

lemma list_at: "i < length xs \<Longrightarrow> \<exists>ys x zs. xs = ys @ x # zs \<and> length ys = i"
  by (metis id_take_nth_drop length_take min.absorb4)

lemma list_upto: "i \<le> length xs \<Longrightarrow> \<exists>ys zs. xs = ys @ zs \<and> length ys = i"
  by (metis append_take_drop_id length_take min.absorb2)

text \<open>A node taken apart around its \<open>i\<close>-th child.\<close>

lemma node_at:
  assumes "valid (Suc h) t" and "i \<le> nkeys t"
  obtains es1 es2 ks1 c ks2 where "t = BNode False (es1 @ es2) (ks1 @ c # ks2)" "length es1 = i" "length ks1 = i"
    "length ks2 = length es2" "child t i = Some c"
    "inorder t = ipre ks1 es1 @ inorder c @ ipost es2 ks2"
    "valid h c" "min_keys \<le> nkeys c" "nkeys c < XSDB_ORDER"
    "\<forall>k \<in> set ks1 \<union> set ks2. valid h k \<and> min_keys \<le> nkeys k \<and> nkeys k < XSDB_ORDER"
proof -
  obtain l es ks where t: "t = BNode l es ks" by (cases t)
  obtain es1 es2 where e: "es = es1 @ es2" "length es1 = i" using assms(2) t list_upto [of i es] by auto
  obtain ks1 c ks2 where k: "ks = ks1 @ c # ks2" "length ks1 = i" using assms t list_at [of i ks] by auto
  show ?thesis
  proof (rule that [of es1 es2 ks1 c ks2])
    show "inorder t = ipre ks1 es1 @ inorder c @ ipost es2 ks2"
      using assms(1) inorder_mid [of ks1 es1 es2 c ks2] by (simp add: t e k)
  qed (use assms(1) in \<open>auto simp: t e k child_def nth_append\<close>)
qed

lemma valid_mid:
  "\<lbrakk>valid h c; min_keys \<le> nkeys c; nkeys c < XSDB_ORDER; length ks1 + length ks2 = length es1 + length es2;
    \<forall>k \<in> set ks1 \<union> set ks2. valid h k \<and> min_keys \<le> nkeys k \<and> nkeys k < XSDB_ORDER\<rbrakk> \<Longrightarrow>
   valid (Suc h) (BNode False (es1 @ es2) (ks1 @ c # ks2))"
  by auto

lemma set_child_mid: "length ks1 = i \<Longrightarrow> set_child (BNode l es (ks1 @ c # ks2)) i c' = BNode l es (ks1 @ c' # ks2)"
  by (auto simp: set_child_def list_update_append)

section \<open>Positions\<close>

lemma slot_split:
  "slot (es1 @ es2) key = length es1" if "\<forall>e \<in> set es1. fst e < key" "es2 \<noteq> [] \<longrightarrow> \<not> fst (hd es2) < key"
  using that by (cases es2; induction es1; simp)

lemma slot_snoc: "\<not> fst e < key \<Longrightarrow> slot (es @ [e]) key = slot es key"
  by (induction es) auto

lemma slot_spec: "slot es key \<le> length es \<and> (\<forall>e \<in> set (take (slot es key) es). fst e < key) \<and>
    (slot es key < length es \<longrightarrow> \<not> fst (es ! slot es key) < key)"
  by (induction es) auto

lemma rslot_slot:
  "\<lbrakk>n \<le> length es; ksorted es; key \<notin> fst ` set es\<rbrakk> \<Longrightarrow> rslot es key n = slot (take n es) key"
proof (induction n)
  case (Suc n)
  have lt: "\<forall>e \<in> set (take n es). fst e < fst (es ! n)"
  proof
    fix e assume "e \<in> set (take n es)"
    then obtain j where "j < n" "e = es ! j" using Suc.prems(1) by (auto simp: in_set_conv_nth)
    then show "fst e < fst (es ! n)"
      using sorted_wrt_nth_less [OF Suc.prems(2), of j n] Suc.prems(1) by simp
  qed
  have ne: "fst (es ! n) \<noteq> key" using Suc.prems(1,3) by (metis Suc_le_eq image_eqI nth_mem)
  have t: "take (Suc n) es = take n es @ [es ! n]" using Suc.prems(1) by (simp add: take_Suc_conv_app_nth)
  show ?case
  proof (cases "key < fst (es ! n)")
    case True
    then have "slot (take n es @ [es ! n]) key = slot (take n es) key" by (intro slot_snoc) simp
    then show ?thesis using Suc True t by simp
  next
    case False
    then have "slot ((take n es @ [es ! n]) @ []) key = length (take n es @ [es ! n])"
      using lt ne by (intro slot_split) auto
    then show ?thesis using False Suc.prems(1) t by simp
  qed
qed simp

lemma ents_inorder:
  assumes v: "valid h t" and s: "ksorted (inorder t)"
  shows "ksorted (ents t) \<and> set (ents t) \<subseteq> set (inorder t)"
proof (cases h)
  case 0
  then show ?thesis using assms by (cases t) simp
next
  case (Suc h')
  obtain es1 es2 ks1 c ks2 where t: "t = BNode False (es1 @ es2) (ks1 @ c # ks2)" "length es1 = nkeys t" "length ks1 = nkeys t"
    and io: "inorder t = ipre ks1 es1 @ inorder c @ ipost es2 ks2"
    using node_at [OF v [unfolded Suc] order_refl] by metis
  have e: "ents t = es1" "es2 = []" using t(1,2) by simp_all
  show ?thesis
    using s pre_sorted [of "map inorder ks1" es1] set_pre [of "map inorder ks1" es1] t(2,3) unfolding io e
    by (auto simp: sorted_wrt_append)
qed

text \<open>The decomposition of a node around the child a key belongs to.\<close>

lemma node_for:
  assumes v: "valid (Suc h) t" and s: "ksorted (inorder t)"
  obtains es1 es2 ks1 c ks2 where "t = BNode False (es1 @ es2) (ks1 @ c # ks2)" "length es1 = slot (ents t) key"
    "length ks1 = slot (ents t) key" "length ks2 = length es2" "child t (slot (ents t) key) = Some c"
    "inorder t = ipre ks1 es1 @ inorder c @ ipost es2 ks2"
    "valid h c" "min_keys \<le> nkeys c" "nkeys c < XSDB_ORDER"
    "\<forall>k \<in> set ks1 \<union> set ks2. valid h k \<and> min_keys \<le> nkeys k \<and> nkeys k < XSDB_ORDER"
    "\<forall>x \<in> set (ipre ks1 es1). fst x < key" "es2 \<noteq> [] \<longrightarrow> \<not> fst (hd es2) < key" "\<forall>e \<in> set es1. fst e < key"
proof -
  note sp = slot_spec [of "ents t" key]
  obtain es1 es2 ks1 c ks2 where d: "t = BNode False (es1 @ es2) (ks1 @ c # ks2)" "length es1 = slot (ents t) key"
    "length ks1 = slot (ents t) key" "length ks2 = length es2" "child t (slot (ents t) key) = Some c"
    "inorder t = ipre ks1 es1 @ inorder c @ ipost es2 ks2"
    "valid h c" "min_keys \<le> nkeys c" "nkeys c < XSDB_ORDER"
    "\<forall>k \<in> set ks1 \<union> set ks2. valid h k \<and> min_keys \<le> nkeys k \<and> nkeys k < XSDB_ORDER"
    using node_at [OF v] sp by metis
  have e1: "\<forall>e \<in> set es1. fst e < key" using sp d(2) unfolding d(1) by simp
  have "ksorted (ipre ks1 es1)" using s unfolding d(6) by (simp add: sorted_wrt_append)
  then have "\<forall>x \<in> set (ipre ks1 es1). fst x < key" using pre_less [of "map inorder ks1" es1 key] e1 d(2,3) by simp
  moreover have "es2 \<noteq> [] \<longrightarrow> \<not> fst (hd es2) < key"
    using sp d(2) unfolding d(1) by (auto simp: nth_append hd_conv_nth)
  ultimately show ?thesis using that d e1 by blast
qed

section \<open>Search\<close>

lemma map_of_mid:
  assumes "\<forall>x \<in> set xs. fst x \<noteq> key" and "\<forall>x \<in> set zs. fst x \<noteq> key"
  shows "map_of (xs @ ys @ zs) key = map_of ys key"
proof -
  have "map_of xs key = None" "map_of zs key = None" using assms by (auto simp: map_of_eq_None_iff)
  then show ?thesis by (simp add: map_add_def split: option.split)
qed

lemma ksorted_distinct: "ksorted xs \<Longrightarrow> distinct (map fst xs)"
  using strict_sorted_iff by blast

lemma map_of_slot:
  assumes s: "ksorted es"
  shows "map_of es key = (if slot es key < length es \<and> key = fst (es ! slot es key) then Some (snd (es ! slot es key)) else None)"
proof (cases "slot es key < length es \<and> key = fst (es ! slot es key)")
  case True
  then have "(key, snd (es ! slot es key)) \<in> set es" by (metis nth_mem prod.collapse)
  then show ?thesis using True map_of_is_SomeI [OF ksorted_distinct [OF s]] by simp
next
  case False
  note sp = slot_spec [of es key]
  have "\<forall>e \<in> set es. fst e \<noteq> key"
  proof
    fix e assume "e \<in> set es"
    then obtain j where j: "j < length es" "e = es ! j" by (auto simp: in_set_conv_nth)
    consider "j < slot es key" | "j = slot es key" | "slot es key < j" by linarith
    then show "fst e \<noteq> key"
    proof cases
      case 1
      then have "e \<in> set (take (slot es key) es)" using j sp by (auto simp: in_set_conv_nth intro!: exI [of _ j])
      then show ?thesis using sp by auto
    next
      case 2 then show ?thesis using False j by auto
    next
      case 3
      then have "fst (es ! slot es key) < fst e" using sorted_wrt_nth_less [OF s 3] j by simp
      then show ?thesis using sp 3 j by auto
    qed
  qed
  then have "map_of es key = None" by (auto simp: map_of_eq_None_iff)
  then show ?thesis using False by auto
qed

lemma search_map_of:
  "\<lbrakk>valid h t; ksorted (inorder t)\<rbrakk> \<Longrightarrow> xsdb_btree_search t key = map_of (inorder t) key"
proof (induction h arbitrary: t)
  case 0
  obtain es where t: "t = BNode True es []" using 0 by (cases t) auto
  have s: "ksorted es" using 0 t by simp
  have "xsdb_btree_search t key =
      (if slot es key < length es \<and> key = fst (es ! slot es key) then Some (snd (es ! slot es key)) else None)"
    unfolding t by (simp add: xsdb_btree_search.simps [of "BNode True es []"] Let_def)
  then show ?case using map_of_slot [OF s, of key] t by simp
next
  case (Suc h)
  obtain es1 es2 ks1 c ks2 where d: "t = BNode False (es1 @ es2) (ks1 @ c # ks2)" "length es1 = slot (ents t) key"
    "length ks1 = slot (ents t) key" "length ks2 = length es2" "child t (slot (ents t) key) = Some c"
    "inorder t = ipre ks1 es1 @ inorder c @ ipost es2 ks2" "valid h c"
    "\<forall>x \<in> set (ipre ks1 es1). fst x < key" "es2 \<noteq> [] \<longrightarrow> \<not> fst (hd es2) < key"
    using node_for [OF Suc.prems] by metis
  have so: "ksorted (inorder c)" "ksorted (ipost es2 ks2)" using Suc.prems(2) unfolding d(6) by (simp_all add: sorted_wrt_append)
  show ?case
  proof (cases "es2 \<noteq> [] \<and> key = fst (hd es2)")
    case True
    then obtain e es where e: "es2 = e # es" "fst e = key" by (cases es2) auto
    then have "e \<in> set (inorder t)" using d(4) unfolding d(6) by (cases ks2) auto
    then have "map_of (inorder t) key = Some (snd e)"
      using ksorted_distinct [OF Suc.prems(2)] e(2) by (metis map_of_eq_Some_iff prod.collapse)
    moreover have "xsdb_btree_search t key = Some (snd e)"
    proof -
      have en: "ents t = es1 @ e # es" using d(1) e(1) by simp
      then have "slot (ents t) key < nkeys t" "ents t ! slot (ents t) key = e"
        unfolding d(2) [symmetric] by simp_all
      then show ?thesis using e(2) by (simp only: xsdb_btree_search.simps [of t] Let_def simp_thms if_True)
    qed
    ultimately show ?thesis by simp
  next
    case False
    then have "es2 \<noteq> [] \<longrightarrow> key < fst (hd es2)" using d(9) by auto
    then have "\<forall>x \<in> set (ipost es2 ks2). key < fst x" using post_greater [OF so(2)] by blast
    then have "map_of (inorder t) key = map_of (inorder c) key" unfolding d(6) using d(8) by (intro map_of_mid) fastforce+
    moreover have "xsdb_btree_search t key = xsdb_btree_search c key"
    proof -
      have "\<not> (slot (ents t) key < nkeys t \<and> key = fst (ents t ! slot (ents t) key))"
      proof -
        have en: "ents t = es1 @ es2" using d(1) by simp
        have es: "slot (es1 @ es2) key = length es1" using d(2) unfolding en by simp
        show ?thesis using False unfolding en es by (auto simp: hd_conv_nth nth_append)
      qed
      moreover have "\<not> is_leaf t" using d(1) by simp
      ultimately show ?thesis
        unfolding xsdb_btree_search.simps [of t] Let_def using d(5) by (simp only: if_False option.case)
    qed
    ultimately show ?thesis using Suc.IH [OF d(7) so(1)] by simp
  qed
qed

end
