(* ===== verification/XBTreeIns.thy ===== *)
theory XBTreeIns
  imports XBTreeProofs
begin

text \<open>
  Insertion into the B-tree: splitting a full child keeps the entries and the shape, and an insertion
  on the way down puts the entry at its place in the key order.
\<close>

section \<open>Insertion into a sorted list\<close>

fun ins_key :: "int \<Rightarrow> 'r \<Rightarrow> (int \<times> 'r) list \<Rightarrow> (int \<times> 'r) list" where
  "ins_key k r [] = [(k, r)]"
| "ins_key k r (e # es) = (if fst e < k then e # ins_key k r es else (k, r) # e # es)"

lemma ins_after: "\<forall>x \<in> set xs. fst x < k \<Longrightarrow> ins_key k r (xs @ ys) = xs @ ins_key k r ys"
  by (induction xs) auto

lemma ins_before: "\<forall>x \<in> set zs. k < fst x \<Longrightarrow> ins_key k r (ys @ zs) = ins_key k r ys @ zs"
  by (induction ys) (cases zs; auto)+

lemma ins_mid: "\<lbrakk>\<forall>x \<in> set xs. fst x < k; \<forall>x \<in> set zs. k < fst x\<rbrakk> \<Longrightarrow> ins_key k r (xs @ ys @ zs) = xs @ ins_key k r ys @ zs"
  by (simp add: ins_after ins_before)

lemma set_ins: "set (ins_key k r xs) = insert (k, r) (set xs)"
  by (induction xs) auto

lemma length_ins [simp]: "length (ins_key k r xs) = Suc (length xs)"
  by (induction xs) auto

lemma ksorted_ins: "\<lbrakk>ksorted xs; k \<notin> fst ` set xs\<rbrakk> \<Longrightarrow> ksorted (ins_key k r xs)"
  by (induction xs) (auto simp: set_ins dest: order_less_trans)

lemma map_of_ins: "k \<notin> fst ` set xs \<Longrightarrow> map_of (ins_key k r xs) = (map_of xs)(k \<mapsto> r)"
  by (induction xs) auto

lemma ins_slot: "take (slot es k) es @ [(k, r)] @ drop (slot es k) es = ins_key k r es"
  by (induction es) auto

section \<open>Splitting a child\<close>

lemma weave_append:
  "\<lbrakk>length ks1 = Suc (length es1); length ks2 = Suc (length es2)\<rbrakk> \<Longrightarrow>
   weave (ks1 @ ks2) (es1 @ e # es2) = weave ks1 es1 @ e # weave ks2 es2"
  by (cases ks1; cases ks2) (simp_all add: post_append)

lemma split_node:
  assumes v: "valid h (BNode l (es1 @ e # es2) ks)" and n: "length es1 = m"
    and a: "a = BNode l es1 (take (Suc m) ks)" and b: "b = BNode l es2 (drop (Suc m) ks)"
  shows "valid h a \<and> valid h b \<and> inorder (BNode l (es1 @ e # es2) ks) = inorder a @ e # inorder b"
proof (cases h)
  case 0
  then show ?thesis using assms by simp
next
  case (Suc h')
  have l: "\<not> l" "length ks = Suc (Suc (length es1 + length es2))" using v Suc by simp_all
  have "weave (map inorder (take (Suc m) ks) @ map inorder (drop (Suc m) ks)) (es1 @ e # es2) =
      weave (map inorder (take (Suc m) ks)) es1 @ e # weave (map inorder (drop (Suc m) ks)) es2"
    using l(2) n by (intro weave_append) simp_all
  then have "inorder (BNode l (es1 @ e # es2) ks) = inorder a @ e # inorder b"
    using l(1) a b by (simp flip: map_append)
  moreover have "valid h a \<and> valid h b"
    using v Suc l n a b by (auto dest: in_set_takeD in_set_dropD)
  ultimately show ?thesis by blast
qed

lemma split_child_at:
  assumes t: "t = BNode False (es1 @ es2) (ks1 @ c # ks2)" and n: "length es1 = i" "length ks1 = i"
    and v: "valid h c" and full: "nkeys c = 63" and room: "nkeys t < 63"
  obtains a e b where "btree_split_child t i = Some (BNode False (es1 @ e # es2) (ks1 @ a # b # ks2))"
    "valid h a" "valid h b" "nkeys a = 31" "nkeys b = 31" "inorder c = inorder a @ e # inorder b"
proof -
  obtain l ces cks where c: "c = BNode l ces cks" by (cases c)
  obtain A e B where ces: "ces = A @ e # B" "length A = 31" using list_at [of 31 ces] full c by auto
  have lB: "length B = 31" using full c ces by simp
  have ch: "child t i = Some c" using t n by (simp add: child_def nth_append)
  have "btree_split_child t i = Some (BNode False (es1 @ e # es2)
      (ks1 @ BNode l A (take (Suc 31) cks) # BNode l B (drop (Suc 31) cks) # ks2))"
    using ch room full unfolding btree_split_child_def order_arith t n [symmetric] c ces
    by (simp add: n ces(2) nth_append)
  moreover have "valid h (BNode l A (take (Suc 31) cks)) \<and> valid h (BNode l B (drop (Suc 31) cks)) \<and>
      inorder c = inorder (BNode l A (take (Suc 31) cks)) @ e # inorder (BNode l B (drop (Suc 31) cks))"
    unfolding c ces(1) by (rule split_node [OF v [unfolded c ces(1)] ces(2) refl refl])
  ultimately show ?thesis using that ces(2) lB by simp
qed

section \<open>Insertion on the way down\<close>

definition ins_ok :: "nat \<Rightarrow> int \<Rightarrow> 'r \<Rightarrow> 'r bnode \<Rightarrow> 'r bnode \<Rightarrow> bool" where
  "ins_ok h key row t t' \<longleftrightarrow> valid h t' \<and> inorder t' = ins_key key row (inorder t) \<and> nkeys t \<le> nkeys t' \<and> nkeys t' \<le> Suc (nkeys t)"

lemma ins_ok_parent:
  assumes t: "t = BNode False (es1 @ es2) (ks1 @ c # ks2)" and n: "length ks1 = length es1"
    and v: "valid (Suc h) t" and c: "nkeys c < 63" and ok: "ins_ok h key row c c'"
    and lt: "\<forall>x \<in> set (ipre ks1 es1). fst x < key" "\<forall>x \<in> set (ipost es2 ks2). key < fst x"
  shows "ins_ok (Suc h) key row t (BNode False (es1 @ es2) (ks1 @ c' # ks2))"
proof -
  have "inorder (BNode False (es1 @ es2) (ks1 @ c' # ks2)) = ins_key key row (inorder t)"
    using ok lt unfolding t inorder_mid [OF n] by (simp add: ins_ok_def ins_mid)
  moreover have "valid (Suc h) (BNode False (es1 @ es2) (ks1 @ c' # ks2))"
    using v c ok by (auto simp: t ins_ok_def order_arith)
  ultimately show ?thesis by (simp add: ins_ok_def t)
qed

lemma ksorted_around:
  assumes "ksorted (xs @ e # ys)" and "fst e \<noteq> key"
  shows "fst e < key \<Longrightarrow> \<forall>x \<in> set (xs @ [e]). fst x < key" "\<not> fst e < key \<Longrightarrow> \<forall>x \<in> set (e # ys). key < fst x"
  using assms by (force simp: sorted_wrt_append)+

lemma sub_mid: "set ys \<subseteq> set (xs @ ys @ zs)"
  by auto

lemma insert_nonfull_ok:
  "\<lbrakk>valid h t; nkeys t < 63; ksorted (inorder t); key \<notin> fst ` set (inorder t)\<rbrakk> \<Longrightarrow>
   \<exists>t'. btree_insert_nonfull t key row = Some t' \<and> ins_ok h key row t t'"
proof (induction h arbitrary: t)
  case 0
  obtain es where t: "t = BNode True es []" using 0 by (cases t) auto
  have "rslot es key (length es) = slot es key" using rslot_slot [of "length es" es key] 0 t by simp
  then have "btree_insert_nonfull t key row = Some (BNode True (ins_key key row es) [])"
    using 0(2) ins_slot [of es key row]
    unfolding t by (simp add: btree_insert_nonfull.simps [of "BNode True es []"] Let_def order_arith)
  then show ?case by (simp add: ins_ok_def t)
next
  case (Suc h)
  let ?i = "slot (ents t) key"
  obtain es1 es2 ks1 c ks2 where t: "t = BNode False (es1 @ es2) (ks1 @ c # ks2)" and n: "length es1 = ?i"
    "length ks1 = ?i" "length ks2 = length es2" and ch: "child t ?i = Some c"
    and io: "inorder t = ipre ks1 es1 @ inorder c @ ipost es2 ks2"
    and vc: "valid h c" and mc: "min_keys \<le> nkeys c" "nkeys c < XSDB_ORDER"
    and lt: "\<forall>x \<in> set (ipre ks1 es1). fst x < key" and es2: "es2 \<noteq> [] \<longrightarrow> \<not> fst (hd es2) < key"
    using node_for [OF Suc.prems(1,3)] by metis
  have n': "length ks1 = length es1" using n by simp
  have so: "ksorted (inorder c)" "ksorted (ipost es2 ks2)" "ksorted (ipre ks1 es1)"
    using Suc.prems(3) unfolding io by (simp_all add: sorted_wrt_append)
  have es2': "es2 \<noteq> [] \<longrightarrow> key < fst (hd es2)"
  proof
    assume ne: "es2 \<noteq> []"
    then have "hd es2 \<in> set (inorder t)" unfolding io using n(3) by (cases es2; cases ks2) auto
    then show "key < fst (hd es2)" using es2 ne Suc.prems(4) by (metis image_eqI linorder_neqE)
  qed
  then have gt: "\<forall>x \<in> set (ipost es2 ks2). key < fst x" using post_greater [OF so(2)] by blast
  have nk: "key \<notin> fst ` set (inorder c)" using Suc.prems(4) unfolding io by auto
  have rs: "rslot (ents t) key (nkeys t) = ?i"
    using rslot_slot [of "nkeys t" "ents t" key] ents_inorder [OF Suc.prems(1,3)] Suc.prems(4) by force
  have leaf: "\<not> is_leaf t" using t by simp
  show ?case
  proof (cases "nkeys c = 63")
    case False
    then have c63: "nkeys c < 63" using mc by (simp add: order_arith)
    obtain c' where c': "btree_insert_nonfull c key row = Some c'" "ins_ok h key row c c'"
      using Suc.IH [OF vc c63 so(1) nk] by blast
    have "btree_insert_nonfull t key row = Some (set_child t ?i c')"
      unfolding btree_insert_nonfull.simps [of t] rs Let_def using leaf ch c' False by (simp add: order_arith)
    also have "set_child t ?i c' = BNode False (es1 @ es2) (ks1 @ c' # ks2)"
      unfolding t using n by (intro set_child_mid) (simp add: t)
    finally show ?thesis using ins_ok_parent [OF t n' Suc.prems(1) c63 c'(2) lt gt] by blast
  next
    case True
    obtain a e b where s: "btree_split_child t ?i = Some (BNode False (es1 @ e # es2) (ks1 @ a # b # ks2))"
      "valid h a" "valid h b" "nkeys a = 31" "nkeys b = 31" "inorder c = inorder a @ e # inorder b"
      using split_child_at [OF t n(1,2) vc True Suc.prems(2)] by blast
    let ?t = "BNode False (es1 @ e # es2) (ks1 @ a # b # ks2)"
    have vt: "valid (Suc h) ?t" using Suc.prems(1) s by (auto simp: t order_arith)
    have it: "inorder ?t = inorder t"
      using inorder_mid [OF n', of "e # es2" a "b # ks2"] s(6) io by simp
    have ne: "fst e \<noteq> key" using nk s(6) by auto
    have so': "ksorted ((ipre ks1 es1 @ inorder a) @ e # (inorder b @ ipost es2 ks2))"
      using Suc.prems(3) io s(6) by simp
    let ?j = "if fst (ents ?t ! ?i) < key then Suc ?i else ?i"
    have step: "btree_insert_nonfull t key row = (case child ?t ?j of None \<Rightarrow> None
        | Some c' \<Rightarrow> map_option (set_child ?t ?j) (btree_insert_nonfull c' key row))"
      unfolding btree_insert_nonfull.simps [of t] rs Let_def using leaf ch s(1) True by (simp add: order_arith)
    have ei: "ents ?t ! ?i = e" using n(1) by (metis bnode.sel(2) nth_append_length)
    show ?thesis
    proof (cases "fst e < key")
      case True
      have j: "?j = Suc ?i" "child ?t (Suc ?i) = Some b" using True ei n by (auto simp: child_def nth_append)
      obtain b' where b': "btree_insert_nonfull b key row = Some b'" "ins_ok h key row b b'"
        using Suc.IH [of b] s nk so(1) by (auto simp: sorted_wrt_append)
      have t2: "?t = BNode False ((es1 @ [e]) @ es2) ((ks1 @ [a]) @ b # ks2)" by simp
      have "ins_ok (Suc h) key row ?t (BNode False ((es1 @ [e]) @ es2) ((ks1 @ [a]) @ b' # ks2))"
      proof (rule ins_ok_parent [OF t2 _ vt])
        show "\<forall>x \<in> set (ipre (ks1 @ [a]) (es1 @ [e])). fst x < key"
          using ksorted_around(1) [OF so' ne True] n' by (simp add: pre_append)
      qed (use b' s gt n in simp_all)
      moreover have "set_child ?t (Suc ?i) b' = BNode False ((es1 @ [e]) @ es2) ((ks1 @ [a]) @ b' # ks2)"
        unfolding t2 using n by (intro set_child_mid) simp
      ultimately show ?thesis using step j b' it by (simp add: ins_ok_def t)
    next
      case False
      have j: "?j = ?i" "child ?t ?i = Some a" using False ei n by (auto simp: child_def nth_append)
      obtain a' where a': "btree_insert_nonfull a key row = Some a'" "ins_ok h key row a a'"
        using Suc.IH [of a] s nk so(1) by (auto simp: sorted_wrt_append)
      have "ins_ok (Suc h) key row ?t (BNode False (es1 @ e # es2) (ks1 @ a' # b # ks2))"
      proof (rule ins_ok_parent [OF refl n' vt])
        show "\<forall>x \<in> set (ipost (e # es2) (b # ks2)). key < fst x"
          using ksorted_around(2) [OF so' ne False] by simp
      qed (use a' s lt in simp_all)
      moreover have "set_child ?t ?i a' = BNode False (es1 @ e # es2) (ks1 @ a' # b # ks2)"
        using n by (intro set_child_mid) simp
      ultimately show ?thesis using step j a' it by (simp add: ins_ok_def t)
    qed
  qed
qed

end
