(* ===== verification/XBTreeDel.thy ===== *)
theory XBTreeDel
  imports XBTreeIns
begin

text \<open>
  Deletion from the B-tree. Borrowing and merging are both seen through the join of two siblings and
  the key between them: a merge is the join, a borrow splits the join at another place.
\<close>

section \<open>Deletion from a sorted list\<close>

abbreviation del :: "int \<Rightarrow> (int \<times> 'r) list \<Rightarrow> (int \<times> 'r) list" where
  "del k xs \<equiv> filter (\<lambda>e. fst e \<noteq> k) xs"

lemma del_absent: "\<forall>x \<in> set xs. fst x \<noteq> k \<Longrightarrow> del k xs = xs"
  by (induction xs) auto

lemma del_mid: "\<lbrakk>\<forall>x \<in> set xs. fst x < k; \<forall>x \<in> set zs. k < fst x\<rbrakk> \<Longrightarrow> del k (xs @ ys @ zs) = xs @ del k ys @ zs"
  by (simp add: del_absent less_imp_neq less_imp_neq [symmetric])

lemma del_at: "ksorted (xs @ e # zs) \<Longrightarrow> del (fst e) (xs @ e # zs) = xs @ zs"
  using del_mid [of xs "fst e" zs "[e]"] by (simp add: sorted_wrt_append)

lemma ksorted_del: "ksorted xs \<Longrightarrow> ksorted (del k xs)"
  by (induction xs) auto

lemma map_of_del: "map_of (del k xs) = (map_of xs)(k := None)"
  by (induction xs) auto

section \<open>Joining siblings\<close>

definition join_nodes :: "'r bnode \<Rightarrow> int \<times> 'r \<Rightarrow> 'r bnode \<Rightarrow> 'r bnode" where
  "join_nodes a e b = BNode (is_leaf a) (ents a @ e # ents b) (kids a @ kids b)"

lemma valid_leaf: "valid h t \<Longrightarrow> is_leaf t = (h = 0)"
  by (cases h) auto

lemma valid_kids: "valid h t \<Longrightarrow> length (kids t) = (if h = 0 then 0 else Suc (nkeys t))"
  by (cases h) auto

lemma valid_join: "\<lbrakk>valid h a; valid h b\<rbrakk> \<Longrightarrow> valid h (join_nodes a e b)"
  by (cases h) (auto simp: join_nodes_def)

lemma inorder_join:
  assumes "valid h a" and "valid h b"
  shows "inorder (join_nodes a e b) = inorder a @ e # inorder b"
proof -
  have "length (kids a) = Suc (nkeys a) \<or> kids a = [] \<and> kids b = []"
    using valid_kids [OF assms(1)] valid_kids [OF assms(2)] by (cases "h = 0") auto
  then have k: "take (Suc (nkeys a)) (kids a @ kids b) = kids a" "drop (Suc (nkeys a)) (kids a @ kids b) = kids b"
    by auto
  have l: "is_leaf a = is_leaf b" using assms valid_leaf by blast
  show ?thesis
    using split_node [OF valid_join [OF assms, of e, unfolded join_nodes_def] refl refl refl]
    unfolding join_nodes_def k by (cases a; cases b) (use l in simp)
qed

lemma resplit:
  assumes v: "valid h a" "valid h b" and x: "ents a @ e # ents b = xs @ x # ys"
    and a': "a' = BNode (is_leaf a) xs (take (Suc (length xs)) (kids a @ kids b))"
    and b': "b' = BNode (is_leaf a) ys (drop (Suc (length xs)) (kids a @ kids b))"
  shows "valid h a' \<and> valid h b' \<and> inorder a @ e # inorder b = inorder a' @ x # inorder b'"
  using split_node [of h "is_leaf a" xs x ys "kids a @ kids b", OF _ refl a' b'] valid_join [OF v, of e] inorder_join [OF v, of e]
  by (simp add: join_nodes_def x)

lemma merge_at:
  assumes t: "t = BNode False (es1 @ e # es2) (ks1 @ a # b # ks2)" and n: "length es1 = i" "length ks1 = i"
    and v: "valid h a" "valid h b" and fits: "nkeys a + nkeys b \<le> 62"
  shows "btree_merge t (int i) = Some (BNode False (es1 @ es2) (ks1 @ join_nodes a e b # ks2))"
proof -
  have ch: "child t i = Some a" "child t (Suc i) = Some b" using t n by (auto simp: child_def nth_append)
  have e: "ents t ! i = e" using t n(1) nth_append_length [of es1 e es2] by simp
  have k: "(if is_leaf a then kids a else kids a @ kids b) = kids a @ kids b"
    using v valid_kids [OF v(2)] valid_leaf [OF v(1)] by auto
  show ?thesis
    using ch fits n e unfolding btree_merge_def order_arith by (simp add: k join_nodes_def) (simp add: t)
qed

lemma borrow_left_at:
  assumes t: "t = BNode False (es1 @ e # es2) (ks1 @ a # b # ks2)" and n: "length es1 = i" "length ks1 = i"
    and v: "valid h a" "valid h b" and x: "ents a = xs @ [x]"
  shows "borrow_left t (Suc i) a b = BNode False (es1 @ x # es2)
    (ks1 @ BNode (is_leaf a) xs (take (Suc (length xs)) (kids a @ kids b)) #
           BNode (is_leaf a) (e # ents b) (drop (Suc (length xs)) (kids a @ kids b)) # ks2)"
proof -
  have l: "is_leaf b = is_leaf a" using v valid_leaf by metis
  have k: "(if is_leaf b then kids b else drop (nkeys a) (kids a) @ kids b) = drop (Suc (length xs)) (kids a @ kids b)"
    "take (nkeys a) (kids a) = take (Suc (length xs)) (kids a @ kids b)"
    using v valid_kids [OF v(1)] valid_kids [OF v(2)] valid_leaf [OF v(2)] x by auto
  show ?thesis
    using n l unfolding borrow_left_def Let_def k by (simp add: t x list_update_append nth_append)
qed

lemma borrow_right_at:
  assumes t: "t = BNode False (es1 @ e # es2) (ks1 @ a # b # ks2)" and n: "length es1 = i" "length ks1 = i"
    and v: "valid h a" "valid h b" and x: "ents b = x # xs"
  shows "borrow_right t i b a = BNode False (es1 @ x # es2)
    (ks1 @ BNode (is_leaf a) (ents a @ [e]) (take (Suc (Suc (nkeys a))) (kids a @ kids b)) #
           BNode (is_leaf a) xs (drop (Suc (Suc (nkeys a))) (kids a @ kids b)) # ks2)"
proof -
  have l: "is_leaf b = is_leaf a" using v valid_leaf by metis
  have k: "(if is_leaf a then kids a else kids a @ take 1 (kids b)) = take (Suc (Suc (nkeys a))) (kids a @ kids b)"
    "drop 1 (kids b) = drop (Suc (Suc (nkeys a))) (kids a @ kids b)"
    using v valid_kids [OF v(1)] valid_kids [OF v(2)] valid_leaf [OF v(1)] x by auto
  show ?thesis
    using n l by (simp only: borrow_right_def k) (simp add: t x list_update_append nth_append)
qed

lemma borrow_left_ok:
  assumes t: "t = BNode False (es1 @ e # es2) (ks1 @ a # b # ks2)" and n: "length es1 = i" "length ks1 = i"
    and v: "valid h a" "valid h b" and x: "ents a = xs @ [x]"
  obtains a' b' where "borrow_left t (Suc i) a b = BNode False (es1 @ x # es2) (ks1 @ a' # b' # ks2)"
    "valid h a'" "valid h b'" "inorder a @ e # inorder b = inorder a' @ x # inorder b'" "ents a' = xs" "ents b' = e # ents b"
  using borrow_left_at [OF t n v x] resplit [OF v, of e xs x "e # ents b", OF _ refl refl] x that by simp

lemma borrow_right_ok:
  assumes t: "t = BNode False (es1 @ e # es2) (ks1 @ a # b # ks2)" and n: "length es1 = i" "length ks1 = i"
    and v: "valid h a" "valid h b" and x: "ents b = x # xs"
  obtains a' b' where "borrow_right t i b a = BNode False (es1 @ x # es2) (ks1 @ a' # b' # ks2)"
    "valid h a'" "valid h b'" "inorder a @ e # inorder b = inorder a' @ x # inorder b'" "ents a' = ents a @ [e]" "ents b' = xs"
  using borrow_right_at [OF t n v x] resplit [OF v, of e "ents a @ [e]" x xs, OF _ refl refl] x that by simp

section \<open>Filling a child\<close>

text \<open>A node taken apart around the child a key is to be deleted from.\<close>

definition around :: "nat \<Rightarrow> int \<Rightarrow> 'r bnode \<Rightarrow> nat \<Rightarrow> 'r bnode \<Rightarrow> bool" where
  "around h key t j c \<longleftrightarrow> (\<exists>es1 es2 ks1 ks2.
     t = BNode False (es1 @ es2) (ks1 @ c # ks2) \<and> length es1 = j \<and> length ks1 = j \<and> length ks2 = length es2 \<and>
     valid h c \<and> 32 \<le> nkeys c \<and>
     (\<forall>k \<in> set ks1 \<union> set ks2. valid h k \<and> min_keys \<le> nkeys k \<and> nkeys k < XSDB_ORDER) \<and> nkeys c < XSDB_ORDER \<and>
     (\<forall>x \<in> set (ipre ks1 es1). fst x < key) \<and> (\<forall>x \<in> set (ipost es2 ks2). key < fst x))"

lemma around_child: "around h key t j c \<Longrightarrow> child t j = Some c"
  by (auto simp: around_def child_def nth_append)

lemma valid_around: "around h key t j c \<Longrightarrow> valid (Suc h) t"
  by (auto simp: around_def order_arith)

lemma after_mem: "\<lbrakk>ksorted (xs @ y # ys); e \<in> set xs\<rbrakk> \<Longrightarrow> \<forall>z \<in> set (y # ys). fst e < fst z"
  by (simp add: sorted_wrt_append)

lemma before_mem: "\<lbrakk>ksorted (xs @ y # ys); e \<in> set ys\<rbrakk> \<Longrightarrow> \<forall>z \<in> set (xs @ [y]). fst z < fst e"
  by (auto simp: sorted_wrt_append)

lemma last_split: "xs \<noteq> [] \<Longrightarrow> \<exists>ys y. xs = ys @ [y]"
  by (metis append_butlast_last_id)

lemma btree_fill_ok:
  assumes t: "t = BNode False (es1 @ es2) (ks1 @ c # ks2)" and n: "length es1 = i" "length ks1 = i" "length ks2 = length es2"
    and v: "valid h c" "min_keys \<le> nkeys c" "nkeys c \<le> min_keys"
    and sib: "\<forall>k \<in> set ks1 \<union> set ks2. valid h k \<and> min_keys \<le> nkeys k \<and> nkeys k < XSDB_ORDER"
    and io: "inorder t = ipre ks1 es1 @ inorder c @ ipost es2 ks2"
    and lt: "\<forall>x \<in> set (ipre ks1 es1). fst x < key" and gt: "\<forall>x \<in> set (ipost es2 ks2). key < fst x"
    and nk: "1 \<le> nkeys t" and s: "ksorted (inorder t)"
  shows "\<exists>t' d. btree_fill t i = Some t' \<and> around h key t' (if nkeys t' < i then i - 1 else i) d \<and>
    inorder t' = inorder t \<and> nkeys t - 1 \<le> nkeys t' \<and> nkeys t' \<le> nkeys t"
proof -
  have c31: "nkeys c = 31" using v(2,3) by (simp add: order_arith)
  have ch: "child t i = Some c" using t n by (simp add: child_def nth_append)
  have right: "\<exists>t' d. fill_right t i c = Some t' \<and> around h key t' (if nkeys t' < i then i - 1 else i) d \<and>
    inorder t' = inorder t \<and> nkeys t - 1 \<le> nkeys t' \<and> nkeys t' \<le> nkeys t"
    if noleft: "\<And>p l q f. es1 = f @ [p] \<Longrightarrow> ks1 = q @ [l] \<Longrightarrow> nkeys l \<le> min_keys"
  proof (cases es2)
    case (Cons e fs2)
    then obtain r ls2 where r: "ks2 = r # ls2" "length ls2 = length fs2" using n(3) by (cases ks2) auto
    have vr: "valid h r" "min_keys \<le> nkeys r" "nkeys r < 64" using sib r by (auto simp: order_arith)
    have t2: "t = BNode False (es1 @ e # fs2) (ks1 @ c # r # ls2)" using t Cons r by simp
    have chr: "child t (Suc i) = Some r" using t2 n by (auto simp: child_def nth_append)
    have i: "i < nkeys t" using t2 n by simp
    show ?thesis
    proof (cases "min_keys < nkeys r")
      case True
      then obtain x xs where x: "ents r = x # xs" by (cases "ents r") auto
      obtain c' r' where b: "borrow_right t i r c = BNode False (es1 @ x # fs2) (ks1 @ c' # r' # ls2)"
        "valid h c'" "valid h r'" "inorder c @ e # inorder r = inorder c' @ x # inorder r'" "ents c' = ents c @ [e]" "ents r' = xs"
        using borrow_right_ok [OF t2 n(1,2) v(1) vr(1) x] by blast
      let ?t = "BNode False (es1 @ x # fs2) (ks1 @ c' # r' # ls2)"
      have f: "fill_right t i c = Some ?t"
        using b(1) i chr True by (simp add: fill_right_def)
      have io': "inorder ?t = inorder t"
        using b inorder_mid [of ks1 es1 "x # fs2" c' "r' # ls2"] n io Cons r by simp
      have "ksorted (inorder c @ e # inorder r)" using s unfolding io Cons r by (simp add: sorted_wrt_append)
      then have so: "ksorted (inorder c' @ x # inorder r')" unfolding b(4) .
      have "key < fst e" "\<forall>y \<in> set (ipost fs2 ls2). key < fst y" using gt unfolding Cons r by simp_all
      then have gt': "\<forall>y \<in> set (ipost (x # fs2) (r' # ls2)). key < fst y"
        using after_mem [OF so, of e] ents_inorder [of h c'] so b by (force simp: sorted_wrt_append dest: order_less_trans)
      have "around h key ?t i c'"
        unfolding around_def using n r b c31 sib vr True x lt gt'
        by (intro exI [of _ es1] exI [of _ "x # fs2"] exI [of _ ks1] exI [of _ "r' # ls2"]) (auto simp: order_arith Cons)
      then show ?thesis using f io' t2 n by auto
    next
      case False
      let ?m = "join_nodes c e r"
      let ?t = "BNode False (es1 @ fs2) (ks1 @ ?m # ls2)"
      have r31: "nkeys r = 31" using False vr(2) by (simp add: order_arith)
      have f: "fill_right t i c = Some ?t"
        using merge_at [OF t2 n(1,2) v(1) vr(1)] i chr False c31 r31 by (simp add: fill_right_def)
      have io': "inorder ?t = inorder t"
        using inorder_join [OF v(1) vr(1)] inorder_mid [of ks1 es1 fs2 ?m ls2] n io Cons r by simp
      have "around h key ?t i ?m"
        unfolding around_def using n r valid_join [OF v(1) vr(1)] c31 r31 sib lt gt Cons
        by (intro exI [of _ es1] exI [of _ fs2] exI [of _ ks1] exI [of _ ls2]) (auto simp: order_arith join_nodes_def)
      then show ?thesis using f io' t2 n by auto
    qed
  next
    case Nil
    then have k2: "ks2 = []" and "i = nkeys t" using n t by auto
    then have "es1 \<noteq> []" "ks1 \<noteq> []" using nk n by auto
    then obtain fs1 e ls1 l where es1: "es1 = fs1 @ [e]" and ks1: "ks1 = ls1 @ [l]" using last_split by metis
    have vl: "valid h l" "min_keys \<le> nkeys l" using sib ks1 by auto
    then have l31: "nkeys l = 31" using noleft [OF es1 ks1] by (simp add: order_arith)
    have t2: "t = BNode False (fs1 @ e # []) (ls1 @ l # c # [])" using t Nil k2 es1 ks1 by simp
    have n2: "length fs1 = i - 1" "length ls1 = i - 1" "0 < i" using n es1 ks1 by auto
    let ?m = "join_nodes l e c"
    let ?t = "BNode False (fs1 @ []) (ls1 @ ?m # [])"
    have "fill_right t i c = btree_merge t (int (i - 1))"
    proof -
      have "int i - 1 = int (i - 1)" using n2(3) by simp
      then show ?thesis using \<open>i = nkeys t\<close> by (simp only: fill_right_def less_irrefl if_False)
    qed
    also have "\<dots> = Some ?t" by (rule merge_at [OF t2 n2(1,2) vl(1) v(1)]) (simp add: c31 l31)
    finally have f: "fill_right t i c = Some ?t" .
    have io': "inorder ?t = inorder t"
      using inorder_join [OF vl(1) v(1)] inorder_mid [of ls1 fs1 "[]" ?m "[]"] n2 io Nil k2 es1 ks1 by (simp add: pre_append)
    have "around h key ?t (i - 1) ?m"
      unfolding around_def using n2 valid_join [OF vl(1) v(1)] c31 l31 sib lt es1 ks1
      by (intro exI [of _ fs1] exI [of _ "[]"] exI [of _ ls1] exI [of _ "[]"]) (auto simp: order_arith join_nodes_def pre_append)
    then show ?thesis using f io' t2 n2 by auto
  qed
  show ?thesis
  proof (cases "i = 0")
    case True
    then have "es1 = []" using n by simp
    then show ?thesis using right True ch by (simp add: btree_fill_def)
  next
    case False
    then obtain fs1 e ls1 l where es1: "es1 = fs1 @ [e]" and ks1: "ks1 = ls1 @ [l]"
      using n last_split by (metis list.size(3))
    have n2: "length fs1 = i - 1" "length ls1 = i - 1" "0 < i" "Suc (i - 1) = i" using n es1 ks1 by auto
    have vl: "valid h l" "min_keys \<le> nkeys l" "nkeys l < 64" using sib ks1 by (auto simp: order_arith)
    have t2: "t = BNode False (fs1 @ e # es2) (ls1 @ l # c # ks2)" using t es1 ks1 by simp
    have chl: "child t (i - 1) = Some l" using t2 n2 by (auto simp: child_def nth_append)
    show ?thesis
    proof (cases "min_keys < nkeys l")
      case False
      then have f: "btree_fill t i = fill_right t i c" using ch chl n2 by (simp add: btree_fill_def)
      show ?thesis unfolding f by (rule right) (use False es1 ks1 in simp)
    next
      case True
      then obtain xs x where x: "ents l = xs @ [x]" using last_split [of "ents l"] by fastforce
      obtain l' c' where b: "borrow_left t (Suc (i - 1)) l c = BNode False (fs1 @ x # es2) (ls1 @ l' # c' # ks2)"
        "valid h l'" "valid h c'" "inorder l @ e # inorder c = inorder l' @ x # inorder c'" "ents l' = xs" "ents c' = e # ents c"
        using borrow_left_ok [OF t2 n2(1,2) vl(1) v(1) x] by blast
      let ?t = "BNode False ((fs1 @ [x]) @ es2) ((ls1 @ [l']) @ c' # ks2)"
      have f: "btree_fill t i = Some ?t"
        using b(1) n2 ch chl True by (simp add: btree_fill_def)
      have io': "inorder ?t = inorder t"
        using b inorder_mid [of "ls1 @ [l']" "fs1 @ [x]" es2 c' ks2] n2 io es1 ks1 by (simp add: pre_append)
      have "ksorted (inorder l @ e # inorder c)"
        using s unfolding io es1 ks1 using n2 by (simp add: pre_append sorted_wrt_append)
      then have so: "ksorted (inorder l' @ x # inorder c')" unfolding b(4) .
      have "fst e < key" "\<forall>y \<in> set (ipre ls1 fs1). fst y < key" using lt n2 unfolding es1 ks1 by (simp_all add: pre_append)
      then have lt': "\<forall>y \<in> set (ipre (ls1 @ [l']) (fs1 @ [x])). fst y < key"
        using before_mem [OF so, of e] ents_inorder [of h c'] so b n2 by (force simp: pre_append sorted_wrt_append dest: order_less_trans)
      have "around h key ?t i c'"
        unfolding around_def using n2 n(3) b c31 sib vl True x lt' gt es1 ks1
        by (intro exI [of _ "fs1 @ [x]"] exI [of _ es2] exI [of _ "ls1 @ [l']"] exI [of _ ks2]) (auto simp: order_arith)
      then show ?thesis using f io' t2 n2 by auto
    qed
  qed
qed

end
