(* ===== verification/XBTreeRemove.thy ===== *)
theory XBTreeRemove
  imports XBTreeDel
begin

text \<open>
  The recursion of the deletion: on a valid node it always finds the children it follows, keeps the
  shape, and removes exactly the entry of the key.
\<close>

section \<open>The neighbours of a key\<close>

lemma predecessor_ok:
  "\<lbrakk>valid h t; 1 \<le> nkeys t\<rbrakk> \<Longrightarrow> inorder t \<noteq> [] \<and> btree_predecessor_key t = Some (fst (last (inorder t)))"
proof (induction h arbitrary: t)
  case 0
  obtain es where t: "t = BNode True es []" using 0 by (cases t) auto
  have "es \<noteq> []" using 0 t by auto
  then show ?case unfolding t by (simp add: btree_predecessor_key.simps [of "BNode True es []"] last_conv_nth)
next
  case (Suc h)
  obtain es1 es2 ks1 c ks2 where t: "t = BNode False (es1 @ es2) (ks1 @ c # ks2)" "length es1 = nkeys t" "length ks2 = length es2"
    and c: "child t (nkeys t) = Some c" "valid h c" "min_keys \<le> nkeys c"
    and io: "inorder t = ipre ks1 es1 @ inorder c @ ipost es2 ks2"
    using node_at [OF Suc.prems(1) order_refl] by metis
  have e: "es2 = []" "\<not> is_leaf t" using t(1,2) by simp_all
  have "inorder c \<noteq> [] \<and> btree_predecessor_key c = Some (fst (last (inorder c)))"
    using Suc.IH [OF c(2)] c(3) by (simp add: order_arith)
  then show ?case using c(1) e unfolding io by (simp add: btree_predecessor_key.simps [of t])
qed

lemma successor_ok:
  "\<lbrakk>valid h t; 1 \<le> nkeys t\<rbrakk> \<Longrightarrow> inorder t \<noteq> [] \<and> btree_successor_key t = Some (fst (hd (inorder t)))"
proof (induction h arbitrary: t)
  case 0
  obtain es where t: "t = BNode True es []" using 0 by (cases t) auto
  have "es \<noteq> []" using 0 t by auto
  then show ?case unfolding t by (simp add: btree_successor_key.simps [of "BNode True es []"] hd_conv_nth)
next
  case (Suc h)
  obtain es1 es2 ks1 c ks2 where t: "t = BNode False (es1 @ es2) (ks1 @ c # ks2)" "length es1 = 0"
    and c: "child t 0 = Some c" "valid h c" "min_keys \<le> nkeys c"
    and io: "inorder t = ipre ks1 es1 @ inorder c @ ipost es2 ks2"
    using node_at [OF Suc.prems(1), of 0] by (metis le0)
  have e: "ipre ks1 es1 = []" "\<not> is_leaf t" using t(1,2) by (simp_all)
  have "inorder c \<noteq> [] \<and> btree_successor_key c = Some (fst (hd (inorder c)))"
    using Suc.IH [OF c(2)] c(3) by (simp add: order_arith)
  then show ?case using c(1) e unfolding io by (simp add: btree_successor_key.simps [of t])
qed

section \<open>One step down\<close>

definition del_ok :: "nat \<Rightarrow> int \<Rightarrow> 'r bnode \<Rightarrow> 'r bnode \<times> int \<Rightarrow> bool" where
  "del_ok h key t r \<longleftrightarrow> valid h (fst r) \<and> inorder (fst r) = del key (inorder t) \<and>
     snd r = (if key \<in> fst ` set (inorder t) then 0 else -1) \<and> nkeys t - 1 \<le> nkeys (fst r) \<and> nkeys (fst r) \<le> nkeys t"

definition deletes :: "nat \<Rightarrow> int \<Rightarrow> 'r bnode \<Rightarrow> bool" where
  "deletes h key t \<longleftrightarrow> (\<exists>r. btree_delete_recursive t key = Some r \<and> del_ok h key t r)"

lemma around_step:
  assumes a: "around h key t j c" and d: "del_ok h key c r"
  shows "del_ok (Suc h) key t (set_child t j (fst r), snd r) \<and> nkeys (set_child t j (fst r)) = nkeys t"
proof -
  obtain es1 es2 ks1 ks2 where t: "t = BNode False (es1 @ es2) (ks1 @ c # ks2)" and n: "length es1 = j" "length ks1 = j" "length ks2 = length es2"
    and v: "valid h c" "32 \<le> nkeys c" "nkeys c < XSDB_ORDER"
      "\<forall>k \<in> set ks1 \<union> set ks2. valid h k \<and> min_keys \<le> nkeys k \<and> nkeys k < XSDB_ORDER"
    and lt: "\<forall>x \<in> set (ipre ks1 es1). fst x < key" and gt: "\<forall>x \<in> set (ipost es2 ks2). key < fst x"
    using a by (auto simp: around_def)
  have n': "length ks1 = length es1" using n by simp
  have s: "set_child t j (fst r) = BNode False (es1 @ es2) (ks1 @ fst r # ks2)" unfolding t by (rule set_child_mid [OF n(2)])
  have io: "inorder (set_child t j (fst r)) = del key (inorder t)"
    using d unfolding s unfolding t inorder_mid [OF n'] del_mid [OF lt gt] by (simp add: del_ok_def)
  have mem: "key \<in> fst ` set (inorder t) \<longleftrightarrow> key \<in> fst ` set (inorder c)"
    unfolding t inorder_mid [OF n'] using lt gt by auto
  have "valid (Suc h) (set_child t j (fst r))"
    unfolding s using d v n by (auto simp: del_ok_def order_arith)
  then show ?thesis using io mem d s by (simp add: del_ok_def t)
qed

lemma around_deletes:
  assumes "around h key t j c" and "deletes h key c"
  shows "\<exists>r. map_option (\<lambda>(c', rc). (set_child t j c', rc)) (btree_delete_recursive c key) = Some r \<and> del_ok (Suc h) key t r"
  using assms around_step [OF assms(1)] by (fastforce simp: deletes_def split_beta)

lemma ksorted_butlast_last: "\<lbrakk>ksorted xs; xs \<noteq> []\<rbrakk> \<Longrightarrow> del (fst (last xs)) xs = butlast xs"
  using del_at [of "butlast xs" "last xs" "[]"] by simp

lemma ksorted_hd_tl: "\<lbrakk>ksorted xs; xs \<noteq> []\<rbrakk> \<Longrightarrow> del (fst (hd xs)) xs = tl xs"
  using del_at [of "[]" "hd xs" "tl xs"] by simp

lemma search_mem:
  assumes "valid h t" "ksorted (inorder t)" "e \<in> set (inorder t)"
  shows "xsdb_btree_search t (fst e) = Some (snd e)"
  using search_map_of [OF assms(1,2)] assms(3) ksorted_distinct [OF assms(2)]
  by (metis map_of_eq_Some_iff prod.collapse)

section \<open>Deletion\<close>

lemma delete_leaf:
  assumes "valid 0 t" and "ksorted (inorder t)"
  shows "deletes 0 key t"
proof -
  obtain es where t: "t = BNode True es []" using assms by (cases t) auto
  have s: "ksorted es" using assms t by simp
  note sp = slot_spec [of es key]
  show ?thesis
  proof (cases "slot es key < length es \<and> key = fst (es ! slot es key)")
    case True
    then have e: "es = take (slot es key) es @ es ! slot es key # drop (Suc (slot es key)) es"
      by (simp add: id_take_nth_drop)
    have "del key es = take (slot es key) es @ drop (Suc (slot es key)) es"
      using del_at [of "take (slot es key) es" "es ! slot es key" "drop (Suc (slot es key)) es"] s True e by metis
    moreover have "key \<in> fst ` set es" using True by auto
    moreover have "btree_delete_recursive t key = Some (BNode True (take (slot es key) es @ drop (Suc (slot es key)) es) [], 0)"
      using True unfolding t by (simp add: btree_delete_recursive.simps [of "BNode True es []"] Let_def)
    ultimately show ?thesis using True by (auto simp: deletes_def del_ok_def t)
  next
    case False
    then have "map_of es key = None" using map_of_slot [OF s, of key] by auto
    then have ab: "key \<notin> fst ` set es" by (simp add: map_of_eq_None_iff)
    then have "del key es = es" by (intro del_absent) force
    moreover have "btree_delete_recursive t key = Some (t, -1)"
      using False unfolding t by (simp add: btree_delete_recursive.simps [of "BNode True es []"] Let_def)
    ultimately show ?thesis using ab by (simp add: deletes_def del_ok_def t)
  qed
qed

lemma delete_found:
  assumes IH: "\<And>(t :: 'r bnode) k. \<lbrakk>valid h t; 32 \<le> nkeys t; ksorted (inorder t)\<rbrakk> \<Longrightarrow> deletes h k t"
    and v: "valid (Suc h) (t :: 'r bnode)" and s: "ksorted (inorder t)"
    and t: "t = BNode False (es1 @ e # es2) (ks1 @ c # b # ks2)"
    and n: "length es1 = slot (ents t) key" "length ks1 = slot (ents t) key" "length ks2 = length es2"
    and key: "fst e = key"
  shows "deletes (Suc h) key t"
proof -
  let ?i = "slot (ents t) key"
  have n': "length ks1 = length es1" using n by simp
  have lf: "\<not> is_leaf t" using t by simp
  have ch: "child t ?i = Some c" "child t (Suc ?i) = Some b" using n by (auto simp: child_def t nth_append)
  have vk: "valid h c" "valid h b" "31 \<le> nkeys c" "31 \<le> nkeys b" "nkeys c < 64" "nkeys b < 64"
    "\<forall>k \<in> set ks1 \<union> set ks2. valid h k \<and> min_keys \<le> nkeys k \<and> nkeys k < XSDB_ORDER"
    using v by (auto simp: t order_arith)
  have io: "inorder t = (ipre ks1 es1 @ inorder c) @ e # (inorder b @ ipost es2 ks2)"
    unfolding t inorder_mid [OF n'] by simp
  have so: "ksorted (inorder c)" "ksorted (inorder b)" using s unfolding io by (simp_all add: sorted_wrt_append)
  have dt: "del key (inorder t) = (ipre ks1 es1 @ inorder c) @ (inorder b @ ipost es2 ks2)"
    using del_at s io key by metis
  have mem: "key \<in> fst ` set (inorder t)" unfolding io using key by auto
  have ents: "ents t ! ?i = e" "?i < nkeys t" using t n(1) nth_append_length [of es1 e es2] by (simp_all flip: n(1))
  note unf = btree_delete_recursive.simps [of t key] Let_def
  consider "31 < nkeys c" | "\<not> 31 < nkeys c" "31 < nkeys b" | "\<not> 31 < nkeys c" "\<not> 31 < nkeys b" by blast
  then show ?thesis
  proof cases
    case 1
    let ?p = "last (inorder c)"
    have p: "inorder c \<noteq> []" "btree_predecessor_key c = Some (fst ?p)" using predecessor_ok [OF vk(1)] vk(3) by auto
    have sr: "xsdb_btree_search c (fst ?p) = Some (snd ?p)" using search_mem [OF vk(1) so(1)] p by simp
    obtain c' rc where d: "btree_delete_recursive c (fst ?p) = Some (c', rc)" "del_ok h (fst ?p) c (c', rc)"
      using IH [OF vk(1), of "fst ?p"] so(1) 1 unfolding deletes_def by force
    let ?t = "BNode False (es1 @ (fst ?p, snd ?p) # es2) (ks1 @ c' # b # ks2)"
    have "btree_delete_recursive t key = Some (?t, rc)"
      unfolding unf using 1 ents key lf ch p(2) sr d(1) n
      by (simp add: order_arith) (simp add: t list_update_append)
    moreover have "inorder ?t = del key (inorder t)"
      unfolding dt inorder_mid [OF n'] using d(2) ksorted_butlast_last [OF so(1) p(1)] p(1) by (simp add: del_ok_def)
    moreover have "valid (Suc h) ?t" using d(2) vk n 1 by (auto simp: del_ok_def order_arith)
    moreover have "rc = 0" using d(2) p(1) by (auto simp: del_ok_def)
    ultimately show ?thesis using mem unfolding deletes_def del_ok_def by (simp add: t)
  next
    case 2
    let ?p = "hd (inorder b)"
    have p: "inorder b \<noteq> []" "btree_successor_key b = Some (fst ?p)" using successor_ok [OF vk(2)] vk(4) by auto
    have sr: "xsdb_btree_search b (fst ?p) = Some (snd ?p)" using search_mem [OF vk(2) so(2)] p by simp
    obtain b' rc where d: "btree_delete_recursive b (fst ?p) = Some (b', rc)" "del_ok h (fst ?p) b (b', rc)"
      using IH [OF vk(2), of "fst ?p"] so(2) 2 unfolding deletes_def by force
    let ?t = "BNode False (es1 @ (fst ?p, snd ?p) # es2) (ks1 @ c # b' # ks2)"
    have "btree_delete_recursive t key = Some (?t, rc)"
      unfolding unf using 2 ents key lf ch p(2) sr d(1) n
      by (simp add: order_arith) (simp add: t list_update_append)
    moreover have "inorder ?t = del key (inorder t)"
      unfolding dt inorder_mid [OF n'] using d(2) ksorted_hd_tl [OF so(2) p(1)] p(1) by (simp add: del_ok_def)
    moreover have "valid (Suc h) ?t" using d(2) vk n 2 by (auto simp: del_ok_def order_arith)
    moreover have "rc = 0" using d(2) p(1) by (auto simp: del_ok_def)
    ultimately show ?thesis using mem unfolding deletes_def del_ok_def by (simp add: t)
  next
    case 3
    let ?m = "join_nodes c e b"
    let ?t = "BNode False (es1 @ es2) (ks1 @ ?m # ks2)"
    have mg: "btree_merge t (int ?i) = Some ?t" by (rule merge_at [OF t n(1,2) vk(1,2)]) (use 3 in simp)
    have io': "inorder ?t = inorder t" unfolding io inorder_mid [OF n'] inorder_join [OF vk(1,2)] by simp
    have ar: "around h key ?t ?i ?m"
    proof -
      have "\<forall>x \<in> set (ipre ks1 es1). fst x < key" "\<forall>x \<in> set (ipost es2 ks2). key < fst x"
        using s key unfolding io by (auto simp: sorted_wrt_append)
      then show ?thesis unfolding around_def using n vk 3 valid_join [OF vk(1,2)]
        by (intro exI [of _ es1] exI [of _ es2] exI [of _ ks1] exI [of _ ks2]) (simp add: join_nodes_def order_arith)
    qed
    have "deletes h key ?m"
    proof (rule IH [OF valid_join [OF vk(1,2)]])
      show "32 \<le> nkeys ?m" using vk by (simp add: join_nodes_def)
      show "ksorted (inorder ?m)" unfolding inorder_join [OF vk(1,2)] using s by (simp add: io sorted_wrt_append)
    qed
    then obtain r where r: "map_option (\<lambda>(c', rc). (set_child ?t ?i c', rc)) (btree_delete_recursive ?m key) = Some r" "del_ok (Suc h) key ?t r"
      "nkeys (fst r) = nkeys ?t"
      using around_deletes [OF ar] by (auto simp: set_child_def)
    have "btree_delete_recursive t key = Some r"
      unfolding unf using 3 ents key lf ch mg around_child [OF ar] r(1) by (simp add: order_arith)
    moreover have "nkeys t - 1 \<le> nkeys ?t" "nkeys ?t \<le> nkeys t" using t by simp_all
    then have "del_ok (Suc h) key t r" using r(2,3) unfolding del_ok_def io' by simp
    ultimately show ?thesis by (auto simp: deletes_def)
  qed
qed

lemma delete_other:
  assumes IH: "\<And>(t :: 'r bnode) k. \<lbrakk>valid h t; 32 \<le> nkeys t; ksorted (inorder t)\<rbrakk> \<Longrightarrow> deletes h k t"
    and v: "valid (Suc h) (t :: 'r bnode)" and s: "ksorted (inorder t)" and nk: "1 \<le> nkeys t"
    and t: "t = BNode False (es1 @ es2) (ks1 @ c # ks2)"
    and n: "length es1 = slot (ents t) key" "length ks1 = slot (ents t) key" "length ks2 = length es2"
    and lt: "\<forall>x \<in> set (ipre ks1 es1). fst x < key" and es2: "es2 \<noteq> [] \<longrightarrow> key < fst (hd es2)"
  shows "deletes (Suc h) key t"
proof -
  let ?i = "slot (ents t) key"
  have n': "length ks1 = length es1" using n by simp
  have lf: "\<not> is_leaf t" using t by simp
  have ch: "child t ?i = Some c" using n by (auto simp: child_def t nth_append)
  have vk: "valid h c" "31 \<le> nkeys c" "nkeys c < 64"
    "\<forall>k \<in> set ks1 \<union> set ks2. valid h k \<and> min_keys \<le> nkeys k \<and> nkeys k < XSDB_ORDER"
    using v by (auto simp: t order_arith)
  have io: "inorder t = ipre ks1 es1 @ inorder c @ ipost es2 ks2" unfolding t by (rule inorder_mid [OF n'])
  have so: "ksorted (ipost es2 ks2)" using s unfolding io by (simp add: sorted_wrt_append)
  have gt: "\<forall>x \<in> set (ipost es2 ks2). key < fst x" by (rule post_greater [OF so es2])
  have nf: "\<not> (?i < nkeys t \<and> key = fst (ents t ! ?i))"
  proof -
    have en: "ents t = es1 @ es2" using t by simp
    have es: "slot (es1 @ es2) key = length es1" using n(1) unfolding en by simp
    show ?thesis using es2 unfolding en es by (auto simp: hd_conv_nth nth_append)
  qed
  have del: "deletes h key d" if "around h key t' j d" "inorder t' = inorder t" for t' j d
  proof (rule IH)
    obtain fs1 fs2 ls1 ls2 where a: "t' = BNode False (fs1 @ fs2) (ls1 @ d # ls2)" "length ls1 = length fs1"
      "valid h d" "32 \<le> nkeys d"
      using \<open>around h key t' j d\<close> by (auto simp: around_def)
    show "valid h d" "32 \<le> nkeys d" using a by simp_all
    have "inorder t = ipre ls1 fs1 @ inorder d @ ipost fs2 ls2"
      unfolding \<open>inorder t' = inorder t\<close> [symmetric] a(1) by (rule inorder_mid [OF a(2)])
    then show "ksorted (inorder d)" using s by (simp add: sorted_wrt_append)
  qed
  note unf = btree_delete_recursive.simps [of t key] Let_def
  show ?thesis
  proof (cases "nkeys c \<le> min_keys")
    case False
    have ar: "around h key t ?i c"
      unfolding around_def using t n vk False lt gt
      by (intro exI [of _ es1] exI [of _ es2] exI [of _ ks1] exI [of _ ks2]) (simp add: order_arith)
    obtain r where r: "map_option (\<lambda>(c', rc). (set_child t ?i c', rc)) (btree_delete_recursive c key) = Some r" "del_ok (Suc h) key t r"
      using around_deletes [OF ar del [OF ar refl]] by blast
    have "btree_delete_recursive t key = Some r"
      unfolding unf using nf lf ch False r(1) by (simp only: if_False option.case)
    then show ?thesis using r(2) by (auto simp: deletes_def)
  next
    case True
    obtain t' d where f: "btree_fill t ?i = Some t'" and ar: "around h key t' (if nkeys t' < ?i then ?i - 1 else ?i) d"
      and io': "inorder t' = inorder t" and nk': "nkeys t - 1 \<le> nkeys t'" "nkeys t' \<le> nkeys t"
      using btree_fill_ok [OF t n vk(1) _ True vk(4) io lt gt nk s] vk(2) by (auto simp: order_arith)
    let ?j = "if nkeys t' < ?i then ?i - 1 else ?i"
    obtain r where r: "map_option (\<lambda>(c', rc). (set_child t' ?j c', rc)) (btree_delete_recursive d key) = Some r"
      "del_ok (Suc h) key t' r" "nkeys (fst r) = nkeys t'"
      using around_deletes [OF ar del [OF ar io']] by (auto simp: set_child_def)
    have "btree_delete_recursive t key = Some r"
      unfolding unf using nf lf ch True f around_child [OF ar] r(1) by (simp only: if_False if_True option.case simp_thms)
    moreover have "del_ok (Suc h) key t r" using r(2,3) io' nk' unfolding del_ok_def by auto
    ultimately show ?thesis by (auto simp: deletes_def)
  qed
qed

lemma delete_ok:
  "\<lbrakk>valid h t; h = 0 \<or> 1 \<le> nkeys t; ksorted (inorder t)\<rbrakk> \<Longrightarrow> deletes h key t"
proof (induction h arbitrary: t key)
  case 0
  then show ?case using delete_leaf by blast
next
  case (Suc h)
  have IH: "deletes h k t" if "valid h t" "32 \<le> nkeys t" "ksorted (inorder t)" for t :: "'a bnode" and k
    using Suc.IH [of t k] that by simp
  obtain es1 es2 ks1 c ks2 where t: "t = BNode False (es1 @ es2) (ks1 @ c # ks2)"
    and n: "length es1 = slot (ents t) key" "length ks1 = slot (ents t) key" "length ks2 = length es2"
    and lt: "\<forall>x \<in> set (ipre ks1 es1). fst x < key" and es2: "es2 \<noteq> [] \<longrightarrow> \<not> fst (hd es2) < key"
    using node_for [OF Suc.prems(1,3)] by metis
  show ?case
  proof (cases "es2 \<noteq> [] \<and> fst (hd es2) = key")
    case True
    then obtain e fs2 where e: "es2 = e # fs2" "fst e = key" by (cases es2) auto
    then obtain b ls2 where b: "ks2 = b # ls2" using n(3) by (cases ks2) auto
    show ?thesis
      by (rule delete_found [OF IH Suc.prems(1,3) t [unfolded e(1) b] n(1,2) _ e(2)]) (use n(3) e b in auto)
  next
    case False
    then have "es2 \<noteq> [] \<longrightarrow> key < fst (hd es2)" using es2 by auto
    then show ?thesis using delete_other [OF IH Suc.prems(1,3) _ t n lt] Suc.prems(2) by simp
  qed
qed

end
