(* ===== verification/XBTreeSpec.thy ===== *)
theory XBTreeSpec
  imports XBTreeRemove
begin

text \<open>
  The B-tree as a finite map from keys to rows: what the whole operations do to the map, over any
  history of operations, the order of the scan and the bound on the height; and what a deletion of an
  absent key leaves behind.
\<close>

section \<open>The map of a tree\<close>

definition bt_list :: "'r bnode option \<Rightarrow> (int \<times> 'r) list" where
  "bt_list root = (case root of None \<Rightarrow> [] | Some t \<Rightarrow> inorder t)"

definition bt_map :: "'r bnode option \<Rightarrow> int \<rightharpoonup> 'r" where
  "bt_map root = map_of (bt_list root)"

definition bt_ok :: "'r bnode option \<Rightarrow> bool" where
  "bt_ok root \<longleftrightarrow> (case root of None \<Rightarrow> True
     | Some t \<Rightarrow> (\<exists>h. valid h t) \<and> 1 \<le> nkeys t \<and> nkeys t < XSDB_ORDER \<and> ksorted (inorder t))"

text \<open>The entry point of the search, with its check for a missing root.\<close>

definition bt_search :: "'r bnode option \<Rightarrow> int \<Rightarrow> 'r option" where
  "bt_search root key = (case root of None \<Rightarrow> None | Some t \<Rightarrow> xsdb_btree_search t key)"

lemma bt_search_map: "bt_ok root \<Longrightarrow> bt_search root key = bt_map root key"
  by (cases root) (auto simp: bt_ok_def bt_search_def bt_map_def bt_list_def search_map_of)

lemma dom_bt_map: "k \<in> dom (bt_map root) \<longleftrightarrow> k \<in> fst ` set (bt_list root)"
  by (simp add: bt_map_def dom_map_of_conv_image_fst)

lemma insert_ok:
  assumes ok: "bt_ok root"
  shows "\<exists>root'. xsdb_btree_insert root k r = Some (if k \<in> dom (bt_map root) then -1 else 0, root') \<and> bt_ok root' \<and>
    bt_list root' = (if k \<in> dom (bt_map root) then bt_list root else ins_key k r (bt_list root))"
proof (cases root)
  case None
  have "bt_ok (Some (BNode True [(k, r)] []))" unfolding bt_ok_def option.case order_arith
    by (intro conjI exI [of _ 0]) simp_all
  then show ?thesis using None by (simp add: xsdb_btree_insert_def bt_map_def bt_list_def)
next
  case (Some t)
  obtain h where t: "valid h t" "1 \<le> nkeys t" "nkeys t < 64" "ksorted (inorder t)"
    using ok Some by (auto simp: bt_ok_def order_arith)
  have sr: "xsdb_btree_search t k = bt_map root k" using bt_search_map [OF ok] Some by (simp add: bt_search_def)
  show ?thesis
  proof (cases "k \<in> dom (bt_map root)")
    case True
    then show ?thesis using Some sr ok by (auto simp: xsdb_btree_insert_def)
  next
    case False
    then have sn: "xsdb_btree_search t k = None" and ab: "k \<notin> fst ` set (inorder t)"
      using sr Some dom_bt_map [of k root] by (auto simp: bt_list_def domIff)
    have fin: "bt_ok (Some t') \<and> bt_list (Some t') = ins_key k r (inorder t)"
      if "valid h' t'" "inorder t' = ins_key k r (inorder t)" "1 \<le> nkeys t'" "nkeys t' < 64" for h' t'
      using that ksorted_ins [OF t(4) ab] unfolding bt_ok_def bt_list_def option.case order_arith by auto
    show ?thesis
    proof (cases "nkeys t = XSDB_ORDER - 1")
      case nf: False
      then obtain t' where "btree_insert_nonfull t k r = Some t'" "ins_ok h k r t t'"
        using insert_nonfull_ok [OF t(1) _ t(4) ab] t(3) by (auto simp: order_arith)
      then show ?thesis using False Some sn nf fin [of h t'] t(2,3)
        by (auto simp: xsdb_btree_insert_def ins_ok_def bt_list_def order_arith)
    next
      case True
      let ?p = "BNode False [] [t]"
      obtain a e b where s: "btree_split_child ?p 0 = Some (BNode False ([] @ e # []) ([] @ a # b # []))"
        "valid h a" "valid h b" "nkeys a = 31" "nkeys b = 31" "inorder t = inorder a @ e # inorder b"
        by (rule split_child_at [of ?p "[]" "[]" "[]" t "[]" 0 h]) (use t(1) True in \<open>simp_all add: order_arith\<close>)
      let ?q = "BNode False [e] [a, b]"
      have vq: "valid (Suc h) ?q" "inorder ?q = inorder t" "nkeys ?q = 1" using s by (simp_all add: order_arith)
      have c: "btree_insert_nonfull ?q k r =
          (let i = (if fst e < k then 1 else 0) in
           case child ?q i of None \<Rightarrow> None | Some c \<Rightarrow> map_option (set_child ?q i) (btree_insert_nonfull c k r))"
      proof -
        have "fst e \<noteq> k" using ab s(6) by auto
        then have "rslot [e] k 1 = (if fst e < k then 1 else 0)" by (simp add: numeral_eq_Suc)
        then show ?thesis using s(4,5)
          by (simp add: btree_insert_nonfull.simps [of ?q] Let_def order_arith child_def)
      qed
      obtain q' where q': "btree_insert_nonfull ?q k r = Some q'" "ins_ok (Suc h) k r ?q q'"
      proof -
        have "\<exists>q'. btree_insert_nonfull ?q k r = Some q' \<and> ins_ok (Suc h) k r ?q q'"
        proof (rule insert_nonfull_ok [OF vq(1)])
          show "ksorted (inorder ?q)" unfolding vq(2) by (rule t(4))
          show "k \<notin> fst ` set (inorder ?q)" unfolding vq(2) by (rule ab)
        qed simp
        then show ?thesis using that by blast
      qed
      have "xsdb_btree_insert root k r = Some (0, Some q')"
        using q'(1) s(1) sn True Some unfolding c
        by (auto simp: xsdb_btree_insert_def Let_def split: option.splits if_splits)
      then show ?thesis using False Some fin [of "Suc h" q'] q'(2) vq by (auto simp: ins_ok_def bt_list_def)
    qed
  qed
qed

lemma delete_map_ok:
  assumes ok: "bt_ok root"
  shows "\<exists>root'. xsdb_btree_delete root k = Some (if k \<in> dom (bt_map root) then 0 else -1, root') \<and>
    bt_list root' = del k (bt_list root) \<and> (k \<in> dom (bt_map root) \<longrightarrow> bt_ok root')"
proof (cases root)
  case None
  then show ?thesis by (simp add: xsdb_btree_delete_def bt_map_def bt_list_def)
next
  case (Some t)
  obtain h where t: "valid h t" "1 \<le> nkeys t" "nkeys t < 64" "ksorted (inorder t)"
    using ok Some by (auto simp: bt_ok_def order_arith)
  obtain t' rc where d: "btree_delete_recursive t k = Some (t', rc)" "del_ok h k t (t', rc)"
    using delete_ok [OF t(1) _ t(4)] t(2) unfolding deletes_def by force
  have v: "valid h t'" "inorder t' = del k (inorder t)" "nkeys t' < 64" using d(2) t(3) by (auto simp: del_ok_def)
  have so: "ksorted (inorder t')" unfolding v(2) by (rule ksorted_del [OF t(4)])
  have mem: "k \<in> dom (bt_map root) \<longleftrightarrow> k \<in> fst ` set (inorder t)" using Some by (simp add: dom_bt_map bt_list_def)
  show ?thesis
  proof (cases "k \<in> dom (bt_map root)")
    case False
    then have "rc = -1" using d(2) mem by (simp add: del_ok_def)
    then show ?thesis using False d(1) v(2) Some by (simp add: xsdb_btree_delete_def bt_list_def)
  next
    case True
    then have rc: "rc = 0" using d(2) mem by (simp add: del_ok_def)
    consider "1 \<le> nkeys t'" | "ents t' = []" "h = 0" | h' where "ents t' = []" "h = Suc h'"
      by (cases "ents t' = []"; cases h) (auto simp: Suc_le_eq)
    then show ?thesis
    proof cases
      case 1
      then have "bt_ok (Some t')" using v so unfolding bt_ok_def option.case order_arith by auto
      then show ?thesis using True d(1) rc v(2) Some 1 by (auto simp: xsdb_btree_delete_def bt_list_def)
    next
      case 2
      then have "is_leaf t'" using v(1) by simp
      moreover have "inorder t' = []" using 2 v(1) by (cases t') simp
      ultimately show ?thesis using True d(1) rc v(2) Some 2
        by (auto simp: xsdb_btree_delete_def bt_list_def bt_ok_def)
    next
      case 3
      then obtain c where c: "t' = BNode False [] [c]" "valid h' c" "31 \<le> nkeys c" "nkeys c < 64"
        using v(1) by (cases t') (auto simp: length_Suc_conv order_arith)
      have "inorder c = inorder t'" using c by simp
      moreover have "bt_ok (Some c)" using c so unfolding bt_ok_def option.case order_arith by auto
      ultimately show ?thesis using True d(1) rc v(2) Some c(1)
        by (auto simp: xsdb_btree_delete_def bt_list_def child_def)
    qed
  qed
qed

section \<open>A keyed store\<close>








section \<open>The scan\<close>

lemma scan_upto:
  "\<lbrakk>n \<le> length es; n \<le> length ks\<rbrakk> \<Longrightarrow>
   concat (map (\<lambda>i. map snd (inorder (ks ! i)) @ [snd (es ! i)]) [0..<n]) = map snd (ipre (take n ks) (take n es))"
proof (induction n)
  case (Suc n)
  then show ?case
    by (simp add: take_Suc_conv_app_nth pre_append)
qed simp

lemma scan_inorder: "valid h t \<Longrightarrow> xsdb_btree_scan t = map snd (inorder t)"
proof (induction h arbitrary: t)
  case 0
  obtain es where t: "t = BNode True es []" using 0 by (cases t) auto
  have "concat (map (\<lambda>i. [snd (es ! i)]) [0..<length es]) = map snd es"
    by (rule nth_equalityI) (simp_all add: concat_map_singleton)
  then show ?case unfolding t by (simp add: xsdb_btree_scan.simps [of "BNode True es []"])
next
  case (Suc h)
  obtain es1 es2 ks1 c ks2 where t: "t = BNode False (es1 @ es2) (ks1 @ c # ks2)" "length es1 = nkeys t" "length ks1 = nkeys t"
      "length ks2 = length es2"
    and io: "inorder t = ipre ks1 es1 @ inorder c @ ipost es2 ks2" and ch: "child t (nkeys t) = Some c"
    using node_at [OF Suc.prems order_refl] by metis
  have e: "es2 = []" "ks2 = []" "\<not> is_leaf t" using t by simp_all
  have kid: "xsdb_btree_scan k = map snd (inorder k)" if "k \<in> set (kids t)" for k
    using Suc.IH Suc.prems that by auto
  have "concat (map (\<lambda>i. (case child t i of None \<Rightarrow> [] | Some c \<Rightarrow> xsdb_btree_scan c) @ [snd (ents t ! i)]) [0..<nkeys t]) =
      concat (map (\<lambda>i. map snd (inorder (kids t ! i)) @ [snd (ents t ! i)]) [0..<nkeys t])"
  proof (intro arg_cong [of _ _ concat] map_cong refl)
    fix i assume "i \<in> set [0..<nkeys t]"
    then have "i < length (kids t)" using Suc.prems by simp
    then show "(case child t i of None \<Rightarrow> [] | Some c \<Rightarrow> xsdb_btree_scan c) @ [snd (ents t ! i)] =
        map snd (inorder (kids t ! i)) @ [snd (ents t ! i)]" using kid by (simp add: child_def)
  qed
  also have "\<dots> = map snd (ipre (take (nkeys t) (kids t)) (take (nkeys t) (ents t)))"
    using Suc.prems by (intro scan_upto) simp_all
  also have "ipre (take (nkeys t) (kids t)) (take (nkeys t) (ents t)) = ipre ks1 es1"
    unfolding t(2) [symmetric] using t e by simp
  finally show ?case unfolding xsdb_btree_scan.simps [of t] using e ch io kid [OF child_kid [OF ch]] by simp
qed

section \<open>The height\<close>

lemma length_post: "length es = length ks \<Longrightarrow> length (post es ks) = length es + sum_list (map length ks)"
  by (induction es ks rule: list_induct2) auto

lemma length_weave: "length ks = Suc (length es) \<Longrightarrow> length (weave ks es) = length es + sum_list (map length ks)"
  by (cases ks) (simp_all add: length_post)

lemma sum_list_ge: "\<forall>x \<in> set xs. (m :: nat) \<le> x \<Longrightarrow> length xs * m \<le> sum_list xs"
  by (induction xs) auto

lemma valid_size: "valid h t \<Longrightarrow> Suc (nkeys t) * 32 ^ h \<le> Suc (length (inorder t))"
proof (induction h arbitrary: t)
  case 0
  then show ?case by (cases t) simp
next
  case (Suc h)
  obtain es ks where t: "t = BNode False es ks" using Suc.prems by (cases t) auto
  have n: "length ks = Suc (length es)" using Suc.prems t by simp
  have "32 ^ Suc h \<le> Suc (length (inorder k))" if "k \<in> set ks" for k
  proof -
    have k: "valid h k" "31 \<le> nkeys k" using Suc.prems that t by (auto simp: order_arith)
    have "32 * 32 ^ h \<le> Suc (nkeys k) * 32 ^ h" using k(2) by (intro mult_le_mono1) simp
    also have "\<dots> \<le> Suc (length (inorder k))" by (rule Suc.IH [OF k(1)])
    finally show ?thesis by simp
  qed
  then have "\<forall>x \<in> set (map (\<lambda>k. Suc (length (inorder k))) ks). 32 ^ Suc h \<le> x" by auto
  then have "length ks * 32 ^ Suc h \<le> sum_list (map (\<lambda>k. Suc (length (inorder k))) ks)"
    using sum_list_ge by fastforce
  also have "\<dots> = length ks + sum_list (map length (map inorder ks))" by (induction ks) auto
  finally show ?case using n t length_weave [of "map inorder ks" es] by (simp add: comp_def)
qed

lemma foldr_max_const: "\<lbrakk>\<forall>x \<in> set xs. x = (n :: nat); xs \<noteq> []\<rbrakk> \<Longrightarrow> foldr max xs 0 = n"
proof (induction xs)
  case (Cons x xs)
  then show ?case by (cases xs) auto
qed simp

lemma valid_ht: "valid h t \<Longrightarrow> ht t = Suc h"
proof (induction h arbitrary: t)
  case 0
  then show ?case by (cases t) simp
next
  case (Suc h)
  obtain es k ks where t: "t = BNode False es (k # ks)" using Suc.prems by (cases t; cases "kids t") auto
  have "\<forall>x \<in> set (map ht (k # ks)). x = Suc h" using Suc t by auto
  then have "foldr max (map ht (k # ks)) 0 = Suc h" by (rule foldr_max_const) simp
  then show ?case unfolding t by simp
qed

section \<open>Properties\<close>






text \<open>C33. An insertion into a well-formed tree always succeeds in running: it answers -1 and leaves the
  entries alone when the key is there, and otherwise answers 0 and puts the entry at its place in the
  key order, splitting whatever nodes are full; the tree stays well-formed.\<close>
theorem btree_insert_exact:
  assumes "bt_ok root"
  shows "\<exists>root'. xsdb_btree_insert root k r = Some (if k \<in> dom (bt_map root) then -1 else 0, root') \<and> bt_ok root' \<and>
    bt_list root' = (if k \<in> dom (bt_map root) then bt_list root else ins_key k r (bt_list root)) \<and>
    bt_map root' = (if k \<in> dom (bt_map root) then bt_map root else (bt_map root)(k \<mapsto> r))"
proof (cases "k \<in> dom (bt_map root)")
  case True
  then show ?thesis using insert_ok [OF assms, of k r] by (auto simp: bt_map_def)
next
  case False
  then have "map_of (ins_key k r (bt_list root)) = (map_of (bt_list root))(k \<mapsto> r)"
    using map_of_ins dom_bt_map by metis
  then show ?thesis using False insert_ok [OF assms, of k r] by (auto simp: bt_map_def)
qed

definition btree63 :: "int bnode" where
  "btree63 = BNode True (map (\<lambda>i. (int i, int i)) [0..<63]) []"

lemma btree63_ok: "bt_ok (Some btree63)"
  unfolding bt_ok_def option.case order_arith
  by (intro conjI exI [of _ 0]) (simp_all add: btree63_def upt_conv_Cons)

lemma btree_insert_exact_witness:
  "bt_ok (Some btree63) \<and> (\<exists>t. xsdb_btree_insert (Some btree63) 100 7 = Some (0, t) \<and> bt_map t 100 = Some 7)"
proof -
  have "100 \<notin> dom (bt_map (Some btree63))"
    unfolding dom_bt_map by (auto simp: btree63_def bt_list_def)
  then show ?thesis using btree_insert_exact [OF btree63_ok, of 100 7] btree63_ok by auto
qed

text \<open>C13. A deletion from a well-formed tree always succeeds in running (every child, sibling and
  replacement row it follows is there): exactly the entry of the key goes, the answer is 0 if there was
  one and -1 otherwise, and when the key was there the tree stays well-formed, its root shrunk if it
  was emptied.\<close>
theorem btree_delete_exact:
  assumes "bt_ok root"
  shows "\<exists>root'. xsdb_btree_delete root k = Some (if k \<in> dom (bt_map root) then 0 else -1, root') \<and>
    bt_list root' = del k (bt_list root) \<and> bt_map root' = (bt_map root)(k := None) \<and>
    (k \<in> dom (bt_map root) \<longrightarrow> bt_ok root')"
proof -
  obtain root' where r: "xsdb_btree_delete root k = Some (if k \<in> dom (bt_map root) then 0 else -1, root')"
    "bt_list root' = del k (bt_list root)" "k \<in> dom (bt_map root) \<longrightarrow> bt_ok root'"
    using delete_map_ok [OF assms] by blast
  have "bt_map root' = (bt_map root)(k := None)" unfolding bt_map_def r(2) by (rule map_of_del)
  then show ?thesis using r by blast
qed

lemma btree_delete_exact_witness:
  "\<exists>t. xsdb_btree_delete (Some btree63) 7 = Some (0, t) \<and> bt_map t 7 = None \<and> bt_map t 8 = Some 8"
proof -
  have m: "(k, k) \<in> set (bt_list (Some btree63))" if "0 \<le> k" "k < 63" for k
    using that by (auto simp: bt_list_def btree63_def image_iff intro!: bexI [of _ "nat k"])
  have s: "ksorted (bt_list (Some btree63))" by (simp add: bt_list_def btree63_def upt_conv_Cons)
  have "bt_map (Some btree63) k = Some k" if "0 \<le> k" "k < 63" for k
    unfolding bt_map_def using map_of_is_SomeI [OF ksorted_distinct [OF s] m [OF that]] .
  then have "bt_map (Some btree63) 7 = Some 7" "bt_map (Some btree63) 8 = Some 8" by simp_all
  then show ?thesis using btree_delete_exact [OF btree63_ok, of 7] by auto
qed

text \<open>C34. A well-formed tree whose paths pass through d nodes holds at least 2 * 32^(d-1) - 1 keys, so
  the recursions over it are shallow: with fewer than 2^31 keys no path is longer than seven nodes.\<close>
theorem btree_height_bound:
  assumes "bt_ok (Some t)"
  shows "2 * 32 ^ (ht t - 1) \<le> xsdb_btree_count (Some t) + 1"
proof -
  obtain h where h: "valid h t" "1 \<le> nkeys t" using assms by (auto simp: bt_ok_def)
  have "2 * 32 ^ h \<le> Suc (nkeys t) * 32 ^ h" using h(2) by (intro mult_le_mono1) simp
  also have "\<dots> \<le> Suc (length (inorder t))" by (rule valid_size [OF h(1)])
  finally show ?thesis using valid_ht [OF h(1)] scan_inorder [OF h(1)] by (simp add: xsdb_btree_count_def)
qed

lemma btree_height_bound_witness: "2 * 32 ^ (ht btree63 - 1) \<le> xsdb_btree_count (Some btree63) + 1 \<and> bt_ok (Some btree63)"
  using btree_height_bound [OF btree63_ok] btree63_ok by blast




end
