(* ===== verification/XLike.thy ===== *)
theory XLike
  imports XPrelude
begin

text \<open>
  The LIKE operator of the database's WHERE clauses (\<open>like_match\<close> in \<open>src/db/xsdb.c\<close>): a C string is
  the list of its bytes before the terminating zero. The standard matching of \<open>%\<close> (any characters) and
  \<open>_\<close> (one character) is stated beside it.
\<close>

definition tolower :: "u8 \<Rightarrow> u8" where
  "tolower c = (if 65 \<le> c \<and> c \<le> 90 then c + 32 else c)"

fun like_match :: "u8 list \<Rightarrow> u8 list \<Rightarrow> bool"
  and like_rest :: "u8 list \<Rightarrow> u8 list \<Rightarrow> bool" where
  "like_match [] s \<longleftrightarrow> s = []"
| "like_match (p # ps) s \<longleftrightarrow>
     (if p = 37 then (if ps = [] then True else like_rest ps s)
      else case s of
             [] \<Rightarrow> False
           | c # cs \<Rightarrow> (if p = 95 then like_match ps cs
                       else if tolower p \<noteq> tolower c then False else like_match ps cs))"
| "like_rest ps [] \<longleftrightarrow> False"
| "like_rest ps (c # cs) \<longleftrightarrow> (if like_match ps (c # cs) then True else like_rest ps cs)"

fun like_spec :: "u8 list \<Rightarrow> u8 list \<Rightarrow> bool" where
  "like_spec [] s \<longleftrightarrow> s = []"
| "like_spec (p # ps) s \<longleftrightarrow>
     (if p = 37 then \<exists>n \<le> length s. like_spec ps (drop n s)
      else s \<noteq> [] \<and> (p = 95 \<or> tolower p = tolower (hd s)) \<and> like_spec ps (tl s))"

lemma like_rest_iff: "like_rest ps s \<longleftrightarrow> (\<exists>n < length s. like_match ps (drop n s))"
proof (induction s)
  case (Cons c cs)
  have "(\<exists>n < length (c # cs). like_match ps (drop n (c # cs))) \<longleftrightarrow>
      like_match ps (c # cs) \<or> (\<exists>n < length cs. like_match ps (drop n cs))"
    by (simp add: Ex_less_Suc2)
  then show ?case using Cons by simp
qed simp

lemma like_match_Cons:
  "p \<noteq> 37 \<Longrightarrow> like_match (p # ps) s \<longleftrightarrow> s \<noteq> [] \<and> (p = 95 \<or> tolower p = tolower (hd s)) \<and> like_match ps (tl s)"
  "ps \<noteq> [] \<Longrightarrow> like_match (37 # ps) s \<longleftrightarrow> (\<exists>n < length s. like_match ps (drop n s))"
  by (cases s; simp) (simp add: like_rest_iff)

lemma like_spec_Nil: "like_spec ps [] \<longleftrightarrow> (\<forall>p \<in> set ps. p = 37)"
  by (induction ps) auto

text \<open>Where the rest of the pattern needs a character, it is enough to try the suffixes that have one.\<close>

lemma ex_proper_suffix:
  "\<not> like_spec ps [] \<Longrightarrow> (\<exists>n \<le> length s. like_spec ps (drop n s)) \<longleftrightarrow> (\<exists>n < length s. like_spec ps (drop n s))"
  by (auto simp: le_less)

lemma like_match_plain:
  "\<not> (\<exists>q. ps = q @ [37, 37]) \<Longrightarrow> like_match ps s = like_spec ps s"
proof (induction ps arbitrary: s)
  case (Cons p ps)
  have ne: "\<not> (\<exists>q. ps = q @ [37, 37])"
  proof
    assume "\<exists>q. ps = q @ [37, 37]"
    then obtain q where "p # ps = (p # q) @ [37, 37]" by auto
    then show False using Cons.prems by blast
  qed
  show ?case
  proof (cases "p = 37 \<and> ps \<noteq> []")
    case True
    have "\<not> like_spec ps []"
    proof
      assume "like_spec ps []"
      then have a: "\<forall>x \<in> set ps. x = 37" by (simp add: like_spec_Nil)
      then have "\<forall>x \<in> set (p # ps). x = 37" using True by simp
      moreover obtain n where "length (p # ps) = Suc (Suc n)" using True by (cases ps) auto
      ultimately have "p # ps = replicate (Suc (Suc n)) 37" by (metis replicate_eqI)
      also have "\<dots> = replicate n 37 @ [37, 37]" by (metis append_Cons append_Nil replicate_Suc replicate_append_same append.assoc)
      finally show False using Cons.prems by blast
    qed
    then show ?thesis using True Cons.IH [OF ne] by (simp add: like_match_Cons ex_proper_suffix del: like_match.simps)
  next
    case False
    then show ?thesis using Cons.IH [OF ne] by (cases "p = 37") (auto simp: like_match_Cons simp del: like_match.simps(2), auto)
  qed
qed simp

lemma like_match_double:
  "like_match (q @ [37, 37]) s = like_spec (q @ [95, 37]) s"
proof (induction q arbitrary: s)
  case Nil
  have "like_match [37, 37] s \<longleftrightarrow> (\<exists>n < length s. True)" by (simp add: like_rest_iff)
  then show ?case by auto
next
  case (Cons p q)
  have "\<not> like_spec (q @ [95, 37]) []" by (simp add: like_spec_Nil)
  then show ?case using Cons by (cases "p = 37") (simp_all add: like_match_Cons ex_proper_suffix del: like_match.simps)
qed

text \<open>C36. The LIKE matcher agrees with standard matching on every pattern that does not end in two
  percent signs; one that does requires one more character than it should, as if the first of the two
  were an underscore.\<close>
theorem like_match_exact:
  "(if \<exists>q. ps = q @ [37, 37] then like_match ps s = like_spec (take (length ps - 2) ps @ [95, 37]) s
    else like_match ps s = like_spec ps s)"
  using like_match_plain [of ps s] like_match_double [of _ s] by auto

text \<open>With a doubled percent sign the empty string, and a string that ends where the percent signs
  begin, are not matched, although a percent sign stands for any characters, none included.\<close>
theorem like_double_percent:
  "\<not> like_match [37, 37] [] \<and> like_spec [37, 37] [] \<and> \<not> like_match [97, 37, 37] [97] \<and> like_spec [97, 37, 37] [97]"
proof -
  have "like_spec [97, 37, 37] [97]" by (simp add: exI [of _ 0])
  then show ?thesis by simp
qed

end
