(* ===== verification/XOperator.thy ===== *)
theory XOperator
  imports XValue
begin

text \<open>
  The operators of the language on evaluated operands: the part of \<open>eval_binop\<close> and of the unary case
  of \<open>interp_eval\<close> (\<open>src/runtime/interp.c\<close>) after the operands have been evaluated, with
  \<open>value_truthy\<close>, \<open>value_equal\<close> and \<open>value_cmp\<close> (\<open>src/core/value.c\<close>) on scalars: null, booleans,
  integers of either size, doubles, durations, strings and characters.

  Collections and user objects are outside: their operators call methods or compare object identities.
  Doubles are bit patterns computed by the parameter \<open>F\<close>, and \<open>L\<close> is the C library's conversion between
  doubles and text. Signed overflow is undefined in C, except that a left shift of a negative number
  multiplies it, as GCC documents.
\<close>

datatype outcome =
    Ret value_t
  | Raise string
  | Undef
  | Outside

section \<open>Truth, equality and order\<close>

fun value_truthy :: "value_t \<Rightarrow> bool" where
  "value_truthy VNull = False"
| "value_truthy (VBool b) = b"
| "value_truthy (VInt i) = (i \<noteq> 0)"
| "value_truthy (VBig b) = (\<not> bigint_is_zero b)"
| "value_truthy (VFloat f) = (\<not> fbits_eq f 0)"
| "value_truthy (VDuration i) = (i \<noteq> 0)"
| "value_truthy (VStr s) = (s \<noteq> [])"
| "value_truthy (VChar s p) = (s \<noteq> [])"
| "value_truthy (VArray vs) = (vs \<noteq> [])"
| "value_truthy (VTuple vs) = (vs \<noteq> [])"
| "value_truthy (VMap m) = (m \<noteq> [])"
| "value_truthy _ = True"

fun is_scalar :: "value_t \<Rightarrow> bool" where
  "is_scalar VNull = True"
| "is_scalar (VBool b) = True"
| "is_scalar (VInt i) = True"
| "is_scalar (VBig b) = True"
| "is_scalar (VFloat f) = True"
| "is_scalar (VDuration i) = True"
| "is_scalar (VStr s) = True"
| "is_scalar (VChar s p) = True"
| "is_scalar _ = False"

text \<open>Only the sign of \<open>strcmp\<close> is used.\<close>

fun strcmp :: "string \<Rightarrow> string \<Rightarrow> int" where
  "strcmp [] [] = 0"
| "strcmp [] (d # ds) = -1"
| "strcmp (c # cs) [] = 1"
| "strcmp (c # cs) (d # ds) =
     (if (of_char c :: nat) < of_char d then -1 else if (of_char d :: nat) < of_char c then 1 else strcmp cs ds)"

definition str_or_char :: "value_t \<Rightarrow> string option" where
  "str_or_char v = (case v of VStr s \<Rightarrow> Some s | VChar s p \<Rightarrow> Some s | _ \<Rightarrow> None)"

definition same_text :: "string \<Rightarrow> value_t \<Rightarrow> bool" where
  "same_text s v = (case str_or_char v of Some t \<Rightarrow> strcmp s t = 0 | None \<Rightarrow> False)"

definition value_equal :: "(u64, 'x) fpu_scheme \<Rightarrow> value_t \<Rightarrow> value_t \<Rightarrow> bool" where
  "value_equal F a b =
     (case a of
        VNull \<Rightarrow> (case b of VNull \<Rightarrow> True | _ \<Rightarrow> False)
      | VBool x \<Rightarrow> (case b of VBool y \<Rightarrow> x = y | _ \<Rightarrow> False)
      | VInt x \<Rightarrow> (case b of VInt y \<Rightarrow> x = y | VFloat y \<Rightarrow> fbits_eq (f_of_int F x) y
                   | VBig y \<Rightarrow> bigint_cmp_i64 y x = 0 | _ \<Rightarrow> False)
      | VDuration x \<Rightarrow> (case b of VDuration y \<Rightarrow> x = y | _ \<Rightarrow> False)
      | VFloat x \<Rightarrow> (case b of VFloat y \<Rightarrow> fbits_eq x y | VInt y \<Rightarrow> fbits_eq x (f_of_int F y)
                   | VBig y \<Rightarrow> fbits_eq x (bigint_to_double F y) | _ \<Rightarrow> False)
      | VBig x \<Rightarrow> (case b of VBig y \<Rightarrow> bigint_cmp x y = 0 | VInt y \<Rightarrow> bigint_cmp_i64 x y = 0
                   | VFloat y \<Rightarrow> fbits_eq (bigint_to_double F x) y | _ \<Rightarrow> False)
      | VStr s \<Rightarrow> same_text s b
      | VChar s p \<Rightarrow> same_text s b
      | _ \<Rightarrow> False)"

text \<open>The place of a scalar's tag in the enumeration.\<close>

fun value_tag :: "value_t \<Rightarrow> nat" where
  "value_tag VNull = 0"
| "value_tag (VBool b) = 1"
| "value_tag (VInt i) = 2"
| "value_tag (VBig b) = 3"
| "value_tag (VFloat f) = 4"
| "value_tag (VStr s) = 5"
| "value_tag (VChar s p) = 6"
| "value_tag _ = 22"

definition double_cmp :: "u64 \<Rightarrow> u64 \<Rightarrow> int" where
  "double_cmp x y = (if fbits_lt x y then -1 else if fbits_lt y x then 1 else 0)"

definition int_cmp :: "int \<Rightarrow> int \<Rightarrow> int" where
  "int_cmp x y = (if x < y then -1 else if y < x then 1 else 0)"

definition tag_cmp :: "value_t \<Rightarrow> value_t \<Rightarrow> int" where
  "tag_cmp a b = (if value_tag b < value_tag a then 1 else if value_tag a < value_tag b then -1 else 0)"

definition value_cmp :: "(u64, 'x) fpu_scheme \<Rightarrow> value_t \<Rightarrow> value_t \<Rightarrow> int" where
  "value_cmp F a b =
     (case a of
        VInt x \<Rightarrow> (case b of VInt y \<Rightarrow> int_cmp x y | VBig y \<Rightarrow> - bigint_cmp_i64 y x
                   | VFloat y \<Rightarrow> double_cmp (f_of_int F x) y | _ \<Rightarrow> tag_cmp a b)
      | VDuration x \<Rightarrow> (case b of VDuration y \<Rightarrow> int_cmp x y | _ \<Rightarrow> tag_cmp a b)
      | VBig x \<Rightarrow> (case b of VBig y \<Rightarrow> bigint_cmp x y | VInt y \<Rightarrow> bigint_cmp_i64 x y
                   | VFloat y \<Rightarrow> double_cmp (bigint_to_double F x) y | _ \<Rightarrow> tag_cmp a b)
      | VFloat x \<Rightarrow> (case b of VBig y \<Rightarrow> double_cmp x (bigint_to_double F y) | VInt y \<Rightarrow> double_cmp x (f_of_int F y)
                   | VFloat y \<Rightarrow> double_cmp x y | _ \<Rightarrow> tag_cmp a b)
      | VStr s \<Rightarrow> (case b of VStr t \<Rightarrow> strcmp s t | _ \<Rightarrow> tag_cmp a b)
      | _ \<Rightarrow> tag_cmp a b)"

section \<open>The characters of an operator\<close>

text \<open>The code tests an operator by its first characters; after the last comes the terminating zero.\<close>

definition op_at :: "string \<Rightarrow> nat \<Rightarrow> char" where
  "op_at op k = (if k < length op then op ! k else CHR 0x00)"

definition op_is :: "string \<Rightarrow> char \<Rightarrow> bool" where
  "op_is op c \<longleftrightarrow> op_at op 0 = c \<and> op_at op 1 = CHR 0x00"

definition op_two :: "string \<Rightarrow> char \<Rightarrow> char \<Rightarrow> bool" where
  "op_two op c d \<longleftrightarrow> op_at op 0 = c \<and> op_at op 1 = d"

abbreviation ret_bool :: "bool \<Rightarrow> outcome" where
  "ret_bool b \<equiv> Ret (VBool b)"

text \<open>The result of an operation on numbers, undefined where an \<open>int64_t\<close> overflows.\<close>

fun num_out :: "u64 num option \<Rightarrow> outcome" where
  "num_out None = Undef"
| "num_out (Some (NInt i)) = Ret (VInt i)"
| "num_out (Some (NFloat f)) = Ret (VFloat f)"
| "num_out (Some (NBig b)) = Ret (VBig b)"
| "num_out (Some NOther) = Outside"

fun to_num :: "value_t \<Rightarrow> u64 num" where
  "to_num (VInt i) = NInt i"
| "to_num (VFloat f) = NFloat f"
| "to_num (VBig b) = NBig b"
| "to_num _ = NOther"

section \<open>Integers\<close>

definition int_shl :: "int \<Rightarrow> int \<Rightarrow> outcome" where
  "int_shl a b =
     (if b < 0 then Raise ''ValueError''
      else if 64 \<le> b then Ret (VInt 0)
      else let top = drop_bit (nat (63 - b)) a
           in if 0 < b \<and> top \<noteq> 0 \<and> top \<noteq> -1
              then num_out (map_option xs_bigint_val (bigint_shl (bigint_from_i64 a) b))
              else Ret (VInt (a * 2 ^ nat b)))"

definition int_shr :: "int \<Rightarrow> int \<Rightarrow> outcome" where
  "int_shr a b =
     (if b < 0 then Raise ''ValueError''
      else if 64 \<le> b then Ret (VInt (if a < 0 then -1 else 0))
      else Ret (VInt (drop_bit (nat b) a)))"

definition int_floor :: "int \<Rightarrow> int \<Rightarrow> outcome" where
  "int_floor a b =
     (let q = c_div a b in num_out (xs_int_of (if a XOR b < 0 \<and> c_mod a b \<noteq> 0 then q - 1 else q)))"

text \<open>Both operands are \<open>int64_t\<close>; \<open>None\<close> where no test succeeds.\<close>

definition int_binop :: "(u64, 'x) fpu_scheme \<Rightarrow> string \<Rightarrow> int \<Rightarrow> int \<Rightarrow> outcome option" where
  "int_binop F op a b =
     (if op_two op CHR ''='' CHR ''='' then Some (ret_bool (a = b))
      else if op_is op CHR ''<'' then Some (ret_bool (a < b))
      else if op_is op CHR ''>'' then Some (ret_bool (b < a))
      else if op_two op CHR ''<'' CHR ''='' then Some (ret_bool (a \<le> b))
      else if op_two op CHR ''>'' CHR ''='' then Some (ret_bool (b \<le> a))
      else if op_two op CHR ''!'' CHR ''='' then Some (ret_bool (a \<noteq> b))
      else if op_is op CHR ''+'' then Some (num_out (xs_safe_add a b))
      else if op_is op CHR ''-'' then Some (num_out (xs_safe_sub a b))
      else if op_is op CHR ''*'' then Some (num_out (xs_safe_mul a b))
      else if op_is op CHR ''/'' then
        Some (if b = 0 then Raise ''division by zero'' else num_out (xs_int_of (c_div a b)))
      else if op_is op CHR ''%'' then
        Some (if b = 0 then Raise ''modulo by zero''
              else if in_i64 (c_div a b) then Ret (VInt (c_mod a b)) else Undef)
      else if op_two op CHR ''*'' CHR ''*'' then
        Some (if b < 0 then Ret (VFloat (f_pow F (f_of_int F a) (f_of_int F b))) else num_out (xs_safe_pow F a b))
      else if op_two op CHR ''/'' CHR ''/'' then
        Some (if b = 0 then Raise ''division by zero''
              else if in_i64 (c_div a b) then int_floor a b else Undef)
      else if op_is op CHR ''&'' then Some (Ret (VInt (a AND b)))
      else if op_is op CHR ''|'' then Some (Ret (VInt (a OR b)))
      else if op_is op CHR ''^'' then Some (Ret (VInt (a XOR b)))
      else if op_two op CHR ''<'' CHR ''<'' then Some (int_shl a b)
      else if op_two op CHR ''>'' CHR ''>'' then Some (int_shr a b)
      else None)"

text \<open>One operand at least is a big integer, the other an integer.\<close>

definition big_binop :: "(u64, 'x) fpu_scheme \<Rightarrow> string \<Rightarrow> value_t \<Rightarrow> value_t \<Rightarrow> outcome option" where
  "big_binop F op a b =
     (let x = to_num a; y = to_num b; c = value_cmp F a b
      in if op_is op CHR ''+'' then Some (num_out (xs_numeric_add F x y))
         else if op_is op CHR ''-'' then Some (num_out (xs_numeric_sub F x y))
         else if op_is op CHR ''*'' then Some (num_out (xs_numeric_mul F x y))
         else if op_is op CHR ''/'' then Some (num_out (xs_numeric_div F x y))
         else if op_is op CHR ''%'' then Some (num_out (xs_numeric_mod F x y))
         else if op_two op CHR ''*'' CHR ''*'' then Some (num_out (xs_numeric_pow F x y))
         else if op_two op CHR ''/'' CHR ''/'' then Some (num_out (xs_numeric_floordiv F x y))
         else if op_two op CHR ''='' CHR ''='' then Some (ret_bool (value_equal F a b))
         else if op_two op CHR ''!'' CHR ''='' then Some (ret_bool (\<not> value_equal F a b))
         else if op_is op CHR ''<'' then Some (ret_bool (c < 0))
         else if op_is op CHR ''>'' then Some (ret_bool (0 < c))
         else if op_two op CHR ''<'' CHR ''='' then Some (ret_bool (c \<le> 0))
         else if op_two op CHR ''>'' CHR ''='' then Some (ret_bool (0 \<le> c))
         else None)"

section \<open>Doubles and durations\<close>

fun val_to_double :: "(u64, 'x) fpu_scheme \<Rightarrow> value_t \<Rightarrow> u64 option" where
  "val_to_double F (VFloat f) = Some f"
| "val_to_double F (VBig b) = Some (bigint_to_double F b)"
| "val_to_double F (VInt i) = Some (f_of_int F i)"
| "val_to_double F _ = None"

definition float_binop :: "(u64, 'x) fpu_scheme \<Rightarrow> string \<Rightarrow> u64 \<Rightarrow> u64 \<Rightarrow> outcome option" where
  "float_binop F op a b =
     (if op_at op 0 = CHR ''+'' then Some (Ret (VFloat (f_add F a b)))
      else if op_at op 0 = CHR ''-'' then Some (Ret (VFloat (f_sub F a b)))
      else if op_is op CHR ''*'' then Some (Ret (VFloat (f_mul F a b)))
      else if op_is op CHR ''/'' then Some (Ret (VFloat (f_div F a b)))
      else if op_at op 0 = CHR ''%'' then Some (Ret (VFloat (f_fmod F a b)))
      else if op_two op CHR ''*'' CHR ''*'' then Some (Ret (VFloat (f_pow F a b)))
      else if op_two op CHR ''/'' CHR ''/'' then Some (Ret (VFloat (f_floor F (f_div F a b))))
      else if op_two op CHR ''='' CHR ''='' then Some (ret_bool (fbits_eq a b))
      else if op_two op CHR ''!'' CHR ''='' then Some (ret_bool (\<not> fbits_eq a b))
      else if op_is op CHR ''<'' then Some (ret_bool (fbits_lt a b))
      else if op_is op CHR ''>'' then Some (ret_bool (fbits_lt b a))
      else if op_two op CHR ''<'' CHR ''='' then Some (ret_bool (fbits_lt a b \<or> fbits_eq a b))
      else if op_two op CHR ''>'' CHR ''='' then Some (ret_bool (fbits_lt b a \<or> fbits_eq a b))
      else None)"

text \<open>A cast of a double to \<open>int64_t\<close> outside its range is undefined.\<close>

definition to_duration :: "(u64, 'x) fpu_scheme \<Rightarrow> u64 \<Rightarrow> outcome" where
  "to_duration F f = (if f_in_i64 F f then Ret (VDuration (f_to_i64 F f)) else Undef)"

definition duration_out :: "int \<Rightarrow> outcome" where
  "duration_out i = (if in_i64 i then Ret (VDuration i) else Undef)"

fun scale_of :: "(u64, 'x) fpu_scheme \<Rightarrow> value_t \<Rightarrow> u64 option" where
  "scale_of F (VFloat f) = Some f"
| "scale_of F (VInt i) = Some (f_of_int F i)"
| "scale_of F _ = None"

text \<open>One operand at least is a duration.\<close>

definition as_duration :: "value_t \<Rightarrow> int option" where
  "as_duration v = (case v of VDuration i \<Rightarrow> Some i | _ \<Rightarrow> None)"

definition durations_binop :: "(u64, 'x) fpu_scheme \<Rightarrow> string \<Rightarrow> int \<Rightarrow> int \<Rightarrow> outcome" where
  "durations_binop F op x y =
     (if op_is op CHR ''<'' then ret_bool (x < y)
      else if op_is op CHR ''>'' then ret_bool (y < x)
      else if op_two op CHR ''<'' CHR ''='' then ret_bool (x \<le> y)
      else if op_two op CHR ''>'' CHR ''='' then ret_bool (y \<le> x)
      else if op_is op CHR ''+'' then duration_out (x + y)
      else if op_is op CHR ''-'' then duration_out (x - y)
      else if op_is op CHR ''/'' then
        (if y = 0 then Raise ''division by zero'' else Ret (VFloat (f_div F (f_of_int F x) (f_of_int F y))))
      else if op_is op CHR ''%'' then
        (if y = 0 then Raise ''modulo by zero''
         else if in_i64 (c_div x y) then Ret (VDuration (c_mod x y)) else Undef)
      else Raise ''type mismatch'')"

definition duration_binop :: "(u64, 'x) fpu_scheme \<Rightarrow> string \<Rightarrow> value_t \<Rightarrow> value_t \<Rightarrow> outcome" where
  "duration_binop F op a b =
     (let da = as_duration a; db = as_duration b; same = (da \<noteq> None \<and> db \<noteq> None \<and> da = db)
      in if op_two op CHR ''='' CHR ''='' then ret_bool same
         else if op_two op CHR ''!'' CHR ''='' then ret_bool (\<not> same)
         else if da \<noteq> None \<and> db \<noteq> None then durations_binop F op (the da) (the db)
         else if da \<noteq> None \<and> scale_of F b \<noteq> None \<and> op_is op CHR ''*'' then
           to_duration F (f_mul F (f_of_int F (the da)) (the (scale_of F b)))
         else if scale_of F a \<noteq> None \<and> db \<noteq> None \<and> op_is op CHR ''*'' then
           to_duration F (f_mul F (the (scale_of F a)) (f_of_int F (the db)))
         else if da \<noteq> None \<and> scale_of F b \<noteq> None \<and> op_is op CHR ''/'' then
           (if fbits_eq (the (scale_of F b)) 0 then Raise ''division by zero''
            else to_duration F (f_div F (f_of_int F (the da)) (the (scale_of F b))))
         else Raise ''type mismatch'')"

section \<open>Strings\<close>

text \<open>The count is cast to \<open>int\<close>, and the size of the buffer is computed in \<open>int\<close>.\<close>

definition repeat_str :: "string \<Rightarrow> int \<Rightarrow> outcome" where
  "repeat_str s i =
     (let n = sint (word_of_int i :: 32 word); k = (if n < 0 then 0 else n); size = int (length s) * k + 1
      in if size < 2147483648 then Ret (VStr (concat (replicate (nat k) s))) else Undef)"

text \<open>The left operand is a string.\<close>

definition str_binop :: "libc_float \<Rightarrow> (u64, 'x) fpu_scheme \<Rightarrow> string \<Rightarrow> string \<Rightarrow> value_t \<Rightarrow> outcome option" where
  "str_binop L F op s b =
     (if op_at op 0 = CHR ''+'' then Some (Ret (VStr (s @ value_str L b)))
      else if op_two op CHR ''='' CHR ''='' then Some (ret_bool (case b of VStr t \<Rightarrow> strcmp s t = 0 | _ \<Rightarrow> False))
      else if op_two op CHR ''!'' CHR ''='' then Some (ret_bool (case b of VStr t \<Rightarrow> strcmp s t \<noteq> 0 | _ \<Rightarrow> True))
      else if op_two op CHR ''<'' CHR ''='' then Some (ret_bool (value_cmp F (VStr s) b \<le> 0))
      else if op_two op CHR ''>'' CHR ''='' then Some (ret_bool (0 \<le> value_cmp F (VStr s) b))
      else if op_at op 0 = CHR ''<'' then Some (ret_bool (value_cmp F (VStr s) b < 0))
      else if op_at op 0 = CHR ''>'' then Some (ret_bool (0 < value_cmp F (VStr s) b))
      else if op_at op 0 = CHR ''*'' then (case b of VInt i \<Rightarrow> Some (repeat_str s i) | _ \<Rightarrow> None)
      else None)"

fun strstr :: "string \<Rightarrow> string \<Rightarrow> bool" where
  "strstr [] t = (t = [])"
| "strstr (c # cs) t = (take (length t) (c # cs) = t \<or> strstr cs t)"

text \<open>The names the \<open>is\<close> operator knows for scalars.\<close>

definition is_type :: "value_t \<Rightarrow> string \<Rightarrow> bool" where
  "is_type v t =
     (if t = ''int'' \<or> t = ''i64'' then (case v of VInt _ \<Rightarrow> True | _ \<Rightarrow> False)
      else if t = ''float'' \<or> t = ''f64'' then (case v of VFloat _ \<Rightarrow> True | _ \<Rightarrow> False)
      else if t = ''str'' \<or> t = ''string'' then (case v of VStr _ \<Rightarrow> True | _ \<Rightarrow> False)
      else if t = ''bool'' then (case v of VBool _ \<Rightarrow> True | _ \<Rightarrow> False)
      else if t = ''null'' then (case v of VNull \<Rightarrow> True | _ \<Rightarrow> False)
      else False)"

section \<open>All operators\<close>

definition as_int :: "value_t \<Rightarrow> int option" where
  "as_int v = (case v of VInt i \<Rightarrow> Some i | _ \<Rightarrow> None)"

definition as_str :: "value_t \<Rightarrow> string option" where
  "as_str v = (case v of VStr s \<Rightarrow> Some s | _ \<Rightarrow> None)"

definition is_integer :: "value_t \<Rightarrow> bool" where
  "is_integer v = (case v of VInt i \<Rightarrow> True | VBig b \<Rightarrow> True | _ \<Rightarrow> False)"

definition spaceship :: "(u64, 'x) fpu_scheme \<Rightarrow> value_t \<Rightarrow> value_t \<Rightarrow> int" where
  "spaceship F a b =
     (if as_int a \<noteq> None \<and> as_int b \<noteq> None then - int_cmp (the (as_int b)) (the (as_int a))
      else if scale_of F a \<noteq> None \<and> scale_of F b \<noteq> None
      then double_cmp (the (scale_of F a)) (the (scale_of F b))
      else if as_str a \<noteq> None \<and> as_str b \<noteq> None then strcmp (the (as_str a)) (the (as_str b))
      else 0)"

text \<open>The tests in the order of the code, each \<open>None\<close> falling through to the next.\<close>

definition first_of :: "outcome option \<Rightarrow> outcome \<Rightarrow> outcome" where
  "first_of o1 o2 = (case o1 of Some r \<Rightarrow> r | None \<Rightarrow> o2)"

definition last_resort :: "(u64, 'x) fpu_scheme \<Rightarrow> string \<Rightarrow> value_t \<Rightarrow> value_t \<Rightarrow> outcome" where
  "last_resort F op a b =
     (if op_two op CHR ''='' CHR ''='' then ret_bool (value_equal F a b)
      else if op_two op CHR ''!'' CHR ''='' then ret_bool (\<not> value_equal F a b)
      else if op_at op 0 \<in> set ''+-*/%<>'' then Raise ''type mismatch''
      else Ret VNull)"

definition number_binop :: "(u64, 'x) fpu_scheme \<Rightarrow> string \<Rightarrow> value_t \<Rightarrow> value_t \<Rightarrow> outcome option" where
  "number_binop F op a b =
     (if as_int a \<noteq> None \<and> as_int b \<noteq> None then int_binop F op (the (as_int a)) (the (as_int b))
      else if is_integer a \<and> is_integer b then big_binop F op a b
      else None)"

definition mixed_binop :: "(u64, 'x) fpu_scheme \<Rightarrow> string \<Rightarrow> value_t \<Rightarrow> value_t \<Rightarrow> outcome option" where
  "mixed_binop F op a b =
     (case val_to_double F a of None \<Rightarrow> None
      | Some x \<Rightarrow> (case val_to_double F b of None \<Rightarrow> None | Some y \<Rightarrow> float_binop F op x y))"

definition text_binop :: "libc_float \<Rightarrow> (u64, 'x) fpu_scheme \<Rightarrow> string \<Rightarrow> value_t \<Rightarrow> value_t \<Rightarrow> outcome option" where
  "text_binop L F op a b =
     (if (as_str a \<noteq> None \<or> as_str b \<noteq> None) \<and> op_is op CHR ''+''
      then Some (Ret (VStr (value_str L a @ value_str L b)))
      else case as_str a of
        Some s \<Rightarrow> str_binop L F op s b
      | None \<Rightarrow>
          if op_is op CHR ''*'' \<and> as_int a \<noteq> None \<and> as_str b \<noteq> None
          then Some (repeat_str (the (as_str b)) (the (as_int a))) else None)"

definition eval_strict :: "libc_float \<Rightarrow> (u64, 'x) fpu_scheme \<Rightarrow> string \<Rightarrow> value_t \<Rightarrow> value_t \<Rightarrow> outcome" where
  "eval_strict L F op a b =
     (if \<not> (is_scalar a \<and> is_scalar b) then Outside
      else if op = ''<=>'' then Ret (VInt (spaceship F a b))
      else if as_duration a \<noteq> None \<or> as_duration b \<noteq> None then duration_binop F op a b
      else first_of (number_binop F op a b)
        (first_of (mixed_binop F op a b)
        (first_of (text_binop L F op a b)
        (if op = ''is'' then ret_bool (is_type a (case as_str b of Some t \<Rightarrow> t | None \<Rightarrow> []))
         else if op = ''in'' then
           ret_bool (case as_str b of Some t \<Rightarrow> (case as_str a of Some s \<Rightarrow> strstr t s | None \<Rightarrow> False) | None \<Rightarrow> False)
         else last_resort F op a b))))"

definition eval_unary :: "(u64, 'x) fpu_scheme \<Rightarrow> string \<Rightarrow> value_t \<Rightarrow> outcome" where
  "eval_unary F op v =
     (if op_at op 0 = CHR ''?'' then (case v of VEnum _ _ _ _ _ _ \<Rightarrow> Outside | _ \<Rightarrow> Ret v)
      else if op_at op 0 = CHR ''-'' then
        (case v of
           VInt i \<Rightarrow> num_out (xs_safe_neg i)
         | VBig b \<Rightarrow> num_out (xs_numeric_neg F (NBig b))
         | VFloat f \<Rightarrow> Ret (VFloat (f_neg F f))
         | _ \<Rightarrow> Ret VNull)
      else if op_at op 0 = CHR ''!'' then ret_bool (\<not> value_truthy v)
      else if op_at op 0 = CHR ''~'' then (case v of VInt i \<Rightarrow> Ret (VInt (NOT i)) | _ \<Rightarrow> Ret VNull)
      else Ret v)"

end
