(* ===== verification/XAst.thy ===== *)
theory XAst
  imports XOperator
begin

text \<open>
  The syntax tree (\<open>src/core/ast.h\<close>), as far as the optimizer looks into it. Positions, node ids and
  reference counts are left out. A pattern with its guard, and a node no pass looks into, is a number.
  \<open>checked\<close> says that a binding has a type annotation or a contract, which only the interpreter reads.
  A block's \<open>has_decls\<close> is \<open>None\<close> while it is not known.
\<close>

datatype node =
    LitInt int
  | LitBigint string
  | LitFloat u64
  | LitString bool string "node list"
  | LitBool bool
  | LitNull
  | LitChar string
  | Ident string
  | Binop string node node
  | Unary string node
  | Assign string node node
  | Call node "node list"
  | MethodCall node string "node list"
  | Index node node
  | Field node string
  | IfExpr node node "node list" "node list" "node option"
  | Match node "nat list" "node list"
  | While "string option" node node
  | For "string option" nat node node
  | Loop "string option" node
  | Break "string option" "node option"
  | Continue "string option"
  | Return "node option"
  | Block "bool option" "node list" "node option"
  | Let bool "string option" bool bool "node option"
  | Const string bool node
  | ExprStmt node
  | FnDecl string "node option"
  | Lambda "node option"
  | Cast node string
  | Program "node list"
  | Opaque nat

text \<open>A \<open>Let\<close> is: declared by \<open>var\<close>, its name (or a pattern), mutable, checked, its value.\<close>

section \<open>Constants\<close>

datatype cval =
    CV_NONE
  | CV_INT int
  | CV_FLOAT u64
  | CV_BOOL bool
  | CV_STRING string

fun const_val :: "node \<Rightarrow> cval" where
  "const_val (LitInt i) = CV_INT i"
| "const_val (LitFloat f) = CV_FLOAT f"
| "const_val (LitBool b) = CV_BOOL b"
| "const_val (LitString interpolated s parts) = (if interpolated then CV_NONE else CV_STRING s)"
| "const_val _ = CV_NONE"

definition make_string :: "string \<Rightarrow> node" where
  "make_string s = LitString False s []"

section \<open>Comparing expressions\<close>

fun is_pure :: "node \<Rightarrow> bool" where
  "is_pure (LitInt i) = True"
| "is_pure (LitBigint s) = True"
| "is_pure (LitFloat f) = True"
| "is_pure (LitBool b) = True"
| "is_pure LitNull = True"
| "is_pure (LitString i s ps) = True"
| "is_pure (LitChar s) = True"
| "is_pure (Ident x) = True"
| "is_pure (Binop op l r) = (is_pure l \<and> is_pure r)"
| "is_pure (Unary op e) = is_pure e"
| "is_pure (Index e i) = (is_pure e \<and> is_pure i)"
| "is_pure (Field e x) = is_pure e"
| "is_pure _ = False"

text \<open>
  Structural equality, short of the pointer comparison: nodes of other kinds differ, and a double is
  equal to itself unless it is NaN.
\<close>

fun expr_equal :: "node \<Rightarrow> node \<Rightarrow> bool"
  and exprs_equal :: "node list \<Rightarrow> node list \<Rightarrow> bool" where
  "expr_equal (LitInt i) b = (case b of LitInt j \<Rightarrow> i = j | _ \<Rightarrow> False)"
| "expr_equal (LitBigint s) b = (case b of LitBigint t \<Rightarrow> s = t | _ \<Rightarrow> False)"
| "expr_equal (LitFloat x) b = (case b of LitFloat y \<Rightarrow> fbits_eq x y | _ \<Rightarrow> False)"
| "expr_equal (LitBool x) b = (case b of LitBool y \<Rightarrow> x = y | _ \<Rightarrow> False)"
| "expr_equal (Ident x) b = (case b of Ident y \<Rightarrow> x = y | _ \<Rightarrow> False)"
| "expr_equal (Binop op l r) b =
     (case b of Binop op' l' r' \<Rightarrow> op = op' \<and> expr_equal l l' \<and> expr_equal r r' | _ \<Rightarrow> False)"
| "expr_equal (Unary op e) b = (case b of Unary op' e' \<Rightarrow> op = op' \<and> expr_equal e e' | _ \<Rightarrow> False)"
| "expr_equal (Index e i) b = (case b of Index e' i' \<Rightarrow> expr_equal e e' \<and> expr_equal i i' | _ \<Rightarrow> False)"
| "expr_equal (Field e x) b = (case b of Field e' x' \<Rightarrow> x = x' \<and> expr_equal e e' | _ \<Rightarrow> False)"
| "expr_equal (Call f as) b =
     (case b of Call f' as' \<Rightarrow> expr_equal f f' \<and> exprs_equal as as' | _ \<Rightarrow> False)"
| "expr_equal _ b = False"
| "exprs_equal [] bs = (bs = [])"
| "exprs_equal (a # as) bs = (case bs of b # bs' \<Rightarrow> expr_equal a b \<and> exprs_equal as bs' | [] \<Rightarrow> False)"

end
