(* ===== verification/XInterp.thy ===== *)
theory XInterp
  imports XAst
begin

text \<open>
  The tree-walking interpreter (\<open>src/runtime/interp.c\<close>) on scalar programs: literals, names,
  operators, assignment to a name, conditionals, loops and their exits, blocks and declarations, with the
  environment of \<open>src/core/env.c\<close>.

  An environment is the list of its frames, the innermost first; a reference to an outer environment is
  never kept, since closures are outside the model. Plugin hooks, coverage, the tracer, resource limits and
  reactive bindings are off. A step returns \<open>None\<close> where C leaves the behaviour undefined, where the
  program leaves the model (collections, calls, patterns, checked declarations), or where the fuel ends.
\<close>

section \<open>State\<close>

datatype signal_t =
    CF_NONE
  | CF_RETURN
  | CF_BREAK
  | CF_CONTINUE
  | CF_THROW
  | CF_ERROR

text \<open>The value a signal carries: one of the program's, or the error map of a run-time error of a kind.\<close>

datatype cargo =
    Carried value_t
  | ErrorOf string

type_synonym env_frame = "(string \<times> value_t \<times> bool) list"

record interp =
  frames :: "env_frame list"
  cf_signal :: signal_t
  cf_value :: "cargo option"
  cf_label :: "string option"
  last_expr_value :: "value_t option"

definition CF_CLEAR :: "interp \<Rightarrow> interp" where
  "CF_CLEAR s = s\<lparr>cf_signal := CF_NONE, cf_value := None, cf_label := None\<rparr>"

text \<open>A run-time error is thrown; an earlier throw is not overwritten.\<close>

definition xs_runtime_error :: "string \<Rightarrow> interp \<Rightarrow> interp" where
  "xs_runtime_error kind s =
     (if cf_signal s = CF_THROW then s else s\<lparr>cf_signal := CF_THROW, cf_value := Some (ErrorOf kind)\<rparr>)"

section \<open>Environments\<close>

fun env_get :: "env_frame list \<Rightarrow> string \<Rightarrow> value_t option" where
  "env_get [] x = None"
| "env_get (fr # frs) x = (case map_of fr x of Some (v, m) \<Rightarrow> Some v | None \<Rightarrow> env_get frs x)"

fun env_define :: "env_frame list \<Rightarrow> string \<Rightarrow> value_t \<Rightarrow> bool \<Rightarrow> env_frame list" where
  "env_define [] x v m = []"
| "env_define (fr # frs) x v m = AList.update x (v, m) fr # frs"

text \<open>The result is 0, or -1 where the name is not found, or -2 where it is immutable.\<close>

fun env_set :: "env_frame list \<Rightarrow> string \<Rightarrow> value_t \<Rightarrow> int \<times> env_frame list" where
  "env_set [] x v = (-1, [])"
| "env_set (fr # frs) x v =
     (case map_of fr x of
        Some (w, m) \<Rightarrow> (if m then (0, AList.update x (v, m) fr # frs) else (-2, fr # frs))
      | None \<Rightarrow> (let (r, frs') = env_set frs x v in (r, fr # frs')))"

definition push_env :: "interp \<Rightarrow> interp" where
  "push_env s = s\<lparr>frames := [] # frames s\<rparr>"

definition pop_env :: "interp \<Rightarrow> interp" where
  "pop_env s = s\<lparr>frames := tl (frames s)\<rparr>"

section \<open>One node\<close>

type_synonym evaluator = "node \<Rightarrow> interp \<Rightarrow> (value_t \<times> interp) option"

definition out_result :: "interp \<Rightarrow> outcome \<Rightarrow> (value_t \<times> interp) option" where
  "out_result s r =
     (case r of Ret v \<Rightarrow> Some (v, s) | Raise kind \<Rightarrow> Some (VNull, xs_runtime_error kind s)
      | Undef \<Rightarrow> None | Outside \<Rightarrow> None)"

definition eval_opt :: "evaluator \<Rightarrow> node option \<Rightarrow> interp \<Rightarrow> (value_t \<times> interp) option" where
  "eval_opt ev no s = (case no of None \<Rightarrow> Some (VNull, s) | Some n \<Rightarrow> ev n s)"

text \<open>Both operands, the left one first; a signal ends the operation with the operand that raised it.\<close>

definition operands ::
    "evaluator \<Rightarrow> node \<Rightarrow> node \<Rightarrow> (value_t \<Rightarrow> value_t \<Rightarrow> interp \<Rightarrow> (value_t \<times> interp) option)
     \<Rightarrow> interp \<Rightarrow> (value_t \<times> interp) option" where
  "operands ev l r f s =
     (case ev l s of None \<Rightarrow> None
      | Some (a, s1) \<Rightarrow>
          if cf_signal s1 \<noteq> CF_NONE then Some (a, s1)
          else (case ev r s1 of None \<Rightarrow> None
                | Some (b, s2) \<Rightarrow> if cf_signal s2 \<noteq> CF_NONE then Some (b, s2) else f a b s2))"

text \<open>\<open>not in\<close> evaluates its operands once more, as those of \<open>in\<close>.\<close>

definition eval_binop :: "libc_float \<Rightarrow> (u64, 'x) fpu_scheme \<Rightarrow> evaluator \<Rightarrow> string \<Rightarrow> node \<Rightarrow> node \<Rightarrow> interp
     \<Rightarrow> (value_t \<times> interp) option" where
  "eval_binop L F ev op l r s =
     (if op = ''&&'' \<or> op = ''and'' then
        (case ev l s of None \<Rightarrow> None
         | Some (a, s1) \<Rightarrow> if \<not> value_truthy a then Some (a, s1) else ev r s1)
      else if op = ''||'' \<or> op = ''or'' then
        (case ev l s of None \<Rightarrow> None
         | Some (a, s1) \<Rightarrow> if value_truthy a then Some (a, s1) else ev r s1)
      else if op = ''??'' then
        (case ev l s of None \<Rightarrow> None
         | Some (a, s1) \<Rightarrow> if a \<noteq> VNull then Some (a, s1) else ev r s1)
      else operands ev l r (\<lambda>a b s2.
        if op = ''not in'' \<and> is_scalar a \<and> is_scalar b \<and> as_duration a = None \<and> as_duration b = None then
          (case operands ev l r (\<lambda>c d s3. out_result s3 (eval_strict L F ''in'' c d)) s2 of
             None \<Rightarrow> None
           | Some (v, s4) \<Rightarrow> Some (VBool (\<not> value_truthy v), s4))
        else out_result s2 (eval_strict L F op a b)) s)"

text \<open>
  The operator a compound assignment computes with. Both operands integers: \<open>int64_t\<close> arithmetic, which
  overflows; an integer and a double, or two doubles; a string on the left of \<open>+\<close>; all else stores the
  right operand.
\<close>

definition compound_op :: "string \<Rightarrow> string" where
  "compound_op aop =
     (if aop = ''+='' then ''+'' else if aop = ''-='' then ''-'' else if aop = ''*='' then ''*''
      else if aop = ''/='' then ''/'' else if aop = ''%='' then ''%'' else if aop = ''&='' then ''&''
      else if aop = ''|='' then ''|'' else if aop = ''^='' then ''^'' else if aop = ''**='' then ''**''
      else ''='')"

definition compound_ints :: "string \<Rightarrow> int \<Rightarrow> int \<Rightarrow> outcome" where
  "compound_ints op a b =
     (if op_at op 0 = CHR ''+'' then num_out (xs_int_of (a + b))
      else if op_at op 0 = CHR ''-'' then num_out (xs_int_of (a - b))
      else if op_is op CHR ''*'' then num_out (xs_int_of (a * b))
      else if op_is op CHR ''/'' then
        (if b = 0 then Raise ''division by zero'' else num_out (xs_int_of (c_div a b)))
      else if op_at op 0 = CHR ''%'' then
        (if b = 0 then Raise ''modulo by zero''
         else if in_i64 (c_div a b) then Ret (VInt (c_mod a b)) else Undef)
      else if op_at op 0 = CHR ''&'' then Ret (VInt (a AND b))
      else if op_at op 0 = CHR ''|'' then Ret (VInt (a OR b))
      else if op_at op 0 = CHR ''^'' then Ret (VInt (a XOR b))
      else Ret (VInt b))"

definition compound_doubles :: "(u64, 'x) fpu_scheme \<Rightarrow> string \<Rightarrow> u64 \<Rightarrow> u64 \<Rightarrow> value_t \<Rightarrow> outcome" where
  "compound_doubles F op a b val =
     (if op_at op 0 = CHR ''+'' then Ret (VFloat (f_add F a b))
      else if op_at op 0 = CHR ''-'' then Ret (VFloat (f_sub F a b))
      else if op_at op 0 = CHR ''*'' then Ret (VFloat (f_mul F a b))
      else if op_at op 0 = CHR ''/'' then Ret (VFloat (if fbits_eq b 0 then 0 else f_div F a b))
      else Ret val)"

definition compound :: "libc_float \<Rightarrow> (u64, 'x) fpu_scheme \<Rightarrow> string \<Rightarrow> value_t \<Rightarrow> value_t \<Rightarrow> outcome" where
  "compound L F aop old val =
     (let op = compound_op aop
      in if as_int old \<noteq> None \<and> as_int val \<noteq> None then compound_ints op (the (as_int old)) (the (as_int val))
         else if scale_of F old \<noteq> None \<and> scale_of F val \<noteq> None
         then compound_doubles F op (the (scale_of F old)) (the (scale_of F val)) val
         else case as_str old of
           Some s \<Rightarrow> if op_at op 0 = CHR ''+'' then Ret (VStr (s @ value_str L val)) else Ret val
         | None \<Rightarrow> Ret val)"

text \<open>The label of the error for an assignment to an immutable name.\<close>

definition immutable_label :: string where
  "immutable_label = ''cannot assign: declared with '' @ [CHR 0x27] @ ''let'' @ [CHR 0x27]"

definition store_name :: "string \<Rightarrow> value_t \<times> interp \<Rightarrow> value_t \<times> interp" where
  "store_name x vs =
     (let v = fst vs; s = snd vs; (r, frs) = env_set (frames s) x v
      in if r = -1 then (v, s\<lparr>frames := env_define (frames s) x v True\<rparr>)
         else if r = -2 then (VNull, (xs_runtime_error immutable_label s)\<lparr>cf_signal := CF_ERROR\<rparr>)
         else (v, s\<lparr>frames := frs\<rparr>))"

text \<open>The right-hand side is evaluated first; the store happens even where it raised a signal.\<close>

definition eval_assign :: "libc_float \<Rightarrow> (u64, 'x) fpu_scheme \<Rightarrow> evaluator \<Rightarrow> string \<Rightarrow> node \<Rightarrow> node \<Rightarrow> interp
     \<Rightarrow> (value_t \<times> interp) option" where
  "eval_assign L F ev aop target val s =
     (case target of
        Ident x \<Rightarrow>
          (case ev val s of None \<Rightarrow> None
           | Some (v, s1) \<Rightarrow>
               if aop = ''='' then Some (store_name x (v, s1))
               else (case ev target s1 of None \<Rightarrow> None
                     | Some (old, s2) \<Rightarrow>
                         if \<not> (is_scalar old \<and> is_scalar v) then None
                         else map_option (store_name x) (out_result s2 (compound L F aop old v))))
      | _ \<Rightarrow> None)"

fun eval_branches :: "evaluator \<Rightarrow> node list \<Rightarrow> node list \<Rightarrow> node option \<Rightarrow> interp \<Rightarrow> (value_t \<times> interp) option" where
  "eval_branches ev (c # cs) (t # ts) els s =
     (case ev c s of None \<Rightarrow> None
      | Some (v, s1) \<Rightarrow> if value_truthy v then ev t s1 else eval_branches ev cs ts els s1)"
| "eval_branches ev _ _ els s = eval_opt ev els s"

text \<open>A \<open>break\<close> or \<open>continue\<close> without a label, or with the loop's own, is taken here.\<close>

definition mine :: "string option \<Rightarrow> interp \<Rightarrow> bool" where
  "mine label s \<longleftrightarrow> cf_label s = None \<or> cf_label s = label"

fun run_while :: "nat \<Rightarrow> evaluator \<Rightarrow> string option \<Rightarrow> node \<Rightarrow> node \<Rightarrow> value_t \<Rightarrow> interp
     \<Rightarrow> (value_t \<times> interp) option" where
  "run_while 0 ev label cond body result s = None"
| "run_while (Suc k) ev label cond body result s =
     (case ev cond s of None \<Rightarrow> None
      | Some (c, s1) \<Rightarrow>
          if \<not> value_truthy c then Some (result, s1)
          else (case ev body s1 of None \<Rightarrow> None
            | Some (v, s2) \<Rightarrow>
                if cf_signal s2 = CF_BREAK then Some (v, if mine label s2 then CF_CLEAR s2 else s2)
                else if cf_signal s2 = CF_CONTINUE \<and> mine label s2
                then run_while k ev label cond body v (CF_CLEAR s2)
                else if cf_signal s2 \<noteq> CF_NONE then Some (v, s2)
                else run_while k ev label cond body v s2))"

section \<open>Statements\<close>

text \<open>A declaration binds its name even where its value raised a signal.\<close>

definition exec_node :: "evaluator \<Rightarrow> node \<Rightarrow> interp \<Rightarrow> interp option" where
  "exec_node ev n s =
     (case n of
        ExprStmt e \<Rightarrow> (case ev e s of None \<Rightarrow> None | Some (v, s1) \<Rightarrow> Some (s1\<lparr>last_expr_value := Some v\<rparr>))
      | Let is_var (Some x) mutable checked val \<Rightarrow>
          if checked then None
          else (case eval_opt ev val s of None \<Rightarrow> None
                | Some (v, s1) \<Rightarrow> Some (s1\<lparr>frames := env_define (frames s1) x v (is_var \<or> mutable)\<rparr>))
      | Const x checked val \<Rightarrow>
          if checked then None
          else (case ev val s of None \<Rightarrow> None
                | Some (v, s1) \<Rightarrow> Some (s1\<lparr>frames := env_define (frames s1) x v False\<rparr>))
      | _ \<Rightarrow> None)"

definition is_statement :: "node \<Rightarrow> bool" where
  "is_statement n = (case n of ExprStmt e \<Rightarrow> True | Let a b c d e \<Rightarrow> True | Const a b c \<Rightarrow> True | _ \<Rightarrow> False)"

definition interp_exec :: "evaluator \<Rightarrow> node \<Rightarrow> interp \<Rightarrow> interp option" where
  "interp_exec ev n s =
     (if cf_signal s \<noteq> CF_NONE then Some s
      else if is_statement n then exec_node ev n s else map_option snd (ev n s))"

fun exec_all :: "evaluator \<Rightarrow> node list \<Rightarrow> interp \<Rightarrow> interp option" where
  "exec_all ev [] s = Some s"
| "exec_all ev (n # ns) s =
     (case interp_exec ev n s of None \<Rightarrow> None
      | Some s1 \<Rightarrow> if cf_signal s1 \<noteq> CF_NONE then Some s1 else exec_all ev ns s1)"

definition declares :: "node \<Rightarrow> bool" where
  "declares n = (case n of Let a b c d e \<Rightarrow> True | Const a b c \<Rightarrow> True | FnDecl a b \<Rightarrow> True | _ \<Rightarrow> False)"

definition has_decls_of :: "bool option \<Rightarrow> node list \<Rightarrow> bool" where
  "has_decls_of known stmts = (case known of Some b \<Rightarrow> b | None \<Rightarrow> list_ex declares stmts)"

definition eval_block :: "evaluator \<Rightarrow> bool option \<Rightarrow> node list \<Rightarrow> node option \<Rightarrow> interp
     \<Rightarrow> (value_t \<times> interp) option" where
  "eval_block ev known stmts expr s =
     (let own = has_decls_of known stmts
      in case exec_all ev stmts (if own then push_env s else s) of None \<Rightarrow> None
         | Some s1 \<Rightarrow>
             (case if cf_signal s1 \<noteq> CF_NONE then Some (VNull, s1) else eval_opt ev expr s1 of None \<Rightarrow> None
              | Some (v, s2) \<Rightarrow> Some (v, if own then pop_env s2 else s2)))"

fun run_loop :: "nat \<Rightarrow> evaluator \<Rightarrow> string option \<Rightarrow> node \<Rightarrow> interp \<Rightarrow> (value_t \<times> interp) option" where
  "run_loop 0 ev label body s = None"
| "run_loop (Suc k) ev label body s =
     (case interp_exec ev body s of None \<Rightarrow> None
      | Some s1 \<Rightarrow>
          if cf_signal s1 = CF_BREAK then
            (if mine label s1
             then (case cf_value s1 of
                     Some (ErrorOf kind) \<Rightarrow> None
                   | Some (Carried v) \<Rightarrow> Some (v, CF_CLEAR s1)
                   | None \<Rightarrow> Some (VNull, CF_CLEAR s1))
             else Some (VNull, s1))
          else if cf_signal s1 = CF_CONTINUE \<and> mine label s1 then run_loop k ev label body (CF_CLEAR s1)
          else if cf_signal s1 \<noteq> CF_NONE then Some (VNull, s1)
          else run_loop k ev label body s1)"

section \<open>The interpreter\<close>

definition eval_node :: "libc_float \<Rightarrow> (u64, 'x) fpu_scheme \<Rightarrow> nat \<Rightarrow> evaluator \<Rightarrow> node \<Rightarrow> interp
     \<Rightarrow> (value_t \<times> interp) option" where
  "eval_node L F k ev n s =
     (case n of
        LitInt i \<Rightarrow> Some (VInt i, s)
      | LitBigint ds \<Rightarrow> out_result s (num_out (Some (xs_bigint_val (bigint_from_str ds 0))))
      | LitFloat f \<Rightarrow> Some (VFloat f, s)
      | LitBool b \<Rightarrow> Some (VBool b, s)
      | LitNull \<Rightarrow> Some (VNull, s)
      | LitString i t ps \<Rightarrow> Some (VStr t, s)
      | Ident x \<Rightarrow>
          (case env_get (frames s) x of
             Some v \<Rightarrow> Some (v, s)
           | None \<Rightarrow> Some (VNull, xs_runtime_error ''not found in this scope'' s))
      | Binop op l r \<Rightarrow> eval_binop L F ev op l r s
      | Unary op e \<Rightarrow> (case ev e s of None \<Rightarrow> None | Some (v, s1) \<Rightarrow> out_result s1 (eval_unary F op v))
      | Assign op t v \<Rightarrow> eval_assign L F ev op t v s
      | IfExpr c t cs ts els \<Rightarrow> eval_branches ev (c # cs) (t # ts) els s
      | While label c b \<Rightarrow> run_while k ev label c b VNull s
      | Loop label b \<Rightarrow> run_loop k ev label b s
      | Break label val \<Rightarrow>
          (case eval_opt ev val s of None \<Rightarrow> None
           | Some (v, s1) \<Rightarrow>
               Some (VNull, s1\<lparr>cf_signal := CF_BREAK, cf_value := Some (Carried v), cf_label := label\<rparr>))
      | Continue label \<Rightarrow> Some (VNull, s\<lparr>cf_signal := CF_CONTINUE, cf_label := label\<rparr>)
      | Return val \<Rightarrow>
          (case eval_opt ev val s of None \<Rightarrow> None
           | Some (v, s1) \<Rightarrow>
               if cf_signal s1 \<noteq> CF_NONE then Some (VNull, s1)
               else Some (VNull, s1\<lparr>cf_signal := CF_RETURN, cf_value := Some (Carried v)\<rparr>))
      | Block known stmts expr \<Rightarrow> eval_block ev known stmts expr s
      | ExprStmt e \<Rightarrow> ev e s
      | _ \<Rightarrow> if is_statement n then map_option (Pair VNull) (exec_node ev n s) else None)"

text \<open>The fuel bounds the depth of the tree and the rounds of a loop.\<close>

fun interp_eval :: "libc_float \<Rightarrow> (u64, 'x) fpu_scheme \<Rightarrow> nat \<Rightarrow> evaluator" where
  "interp_eval L F 0 n s = None"
| "interp_eval L F (Suc k) n s =
     (if cf_signal s \<noteq> CF_NONE then Some (VNull, s)
      else eval_node L F k (interp_eval L F k) n s)"

end
