(* ===== verification/XTyped.thy ===== *)
theory XTyped
  imports XInterp XNumericProofs
begin

text \<open>
  Integer and boolean expressions, their types and their meaning over unbounded integers, and that the
  interpreter's operators compute that meaning: whichever of the two sizes its integers have. The meaning
  says where the program throws and where C leaves the behaviour undefined.
\<close>

section \<open>Types\<close>

datatype ty = TInt | TBool

definition binop_type :: "string \<Rightarrow> ty \<Rightarrow> ty \<Rightarrow> ty option" where
  "binop_type op a b =
     (if op \<in> {''+'', ''-'', ''*'', ''/'', ''%'', ''//''} then (if a = TInt \<and> b = TInt then Some TInt else None)
      else if op \<in> {''<'', ''>'', ''<='', ''>=''} then (if a = TInt \<and> b = TInt then Some TBool else None)
      else if op \<in> {''=='', ''!=''} then (if a = b then Some TBool else None)
      else if op \<in> {''&&'', ''||''} then (if a = TBool \<and> b = TBool then Some TBool else None)
      else None)"

definition unary_type :: "string \<Rightarrow> ty \<Rightarrow> ty option" where
  "unary_type op a =
     (if op = ''-'' \<and> a = TInt then Some TInt else if op = ''!'' \<and> a = TBool then Some TBool else None)"

fun type_of :: "(string \<times> ty) list \<Rightarrow> node \<Rightarrow> ty option" where
  "type_of G (LitInt i) = (if in_i64 i then Some TInt else None)"
| "type_of G (LitBool b) = Some TBool"
| "type_of G (Ident x) = map_of G x"
| "type_of G (Binop op l r) =
     (case type_of G l of None \<Rightarrow> None
      | Some a \<Rightarrow> (case type_of G r of None \<Rightarrow> None | Some b \<Rightarrow> binop_type op a b))"
| "type_of G (Unary op e) = (case type_of G e of None \<Rightarrow> None | Some a \<Rightarrow> unary_type op a)"
| "type_of G _ = None"

section \<open>Meaning\<close>

datatype sval = SInt int | SBool bool

datatype meaning = Means sval | Throws | Undefined

definition sval_type :: "sval \<Rightarrow> ty" where
  "sval_type v = (case v of SInt i \<Rightarrow> TInt | SBool b \<Rightarrow> TBool)"

lemma sval_type_simps [simp]: "sval_type (SInt i) = TInt" "sval_type (SBool b) = TBool"
  by (simp_all add: sval_type_def)

text \<open>
  The computations on 64 bits whose overflow the code does not catch are undefined. Division of a big integer
  by zero does not throw but gives zero.
\<close>

definition ints_meaning :: "string \<Rightarrow> int \<Rightarrow> int \<Rightarrow> meaning" where
  "ints_meaning op x y =
     (if op = ''+'' then Means (SInt (x + y))
      else if op = ''-'' then Means (SInt (x - y))
      else if op = ''*'' then (if x = -1 \<and> y = INT64_MIN then Undefined else Means (SInt (x * y)))
      else if op \<in> {''/'', ''%'', ''//''} then
        (if y = 0 then (if in_i64 x then Throws else Means (SInt 0))
         else if x = INT64_MIN \<and> y = -1 then Undefined
         else Means (SInt (if op = ''/'' then c_div x y else if op = ''%'' then c_mod x y else x div y)))
      else if op = ''<'' then Means (SBool (x < y))
      else if op = ''>'' then Means (SBool (y < x))
      else if op = ''<='' then Means (SBool (x \<le> y))
      else if op = ''>='' then Means (SBool (y \<le> x))
      else if op = ''=='' then Means (SBool (x = y))
      else Means (SBool (x \<noteq> y)))"

fun strict_meaning :: "string \<Rightarrow> sval \<Rightarrow> sval \<Rightarrow> meaning" where
  "strict_meaning op (SInt x) (SInt y) = ints_meaning op x y"
| "strict_meaning op (SBool x) (SBool y) = Means (SBool (if op = ''=='' then x = y else x \<noteq> y))"
| "strict_meaning op _ _ = Undefined"

definition then_mean :: "meaning \<Rightarrow> (sval \<Rightarrow> meaning) \<Rightarrow> meaning" where
  "then_mean m f = (case m of Means v \<Rightarrow> f v | _ \<Rightarrow> m)"

fun expr_meaning :: "(string \<Rightarrow> sval) \<Rightarrow> node \<Rightarrow> meaning" where
  "expr_meaning \<rho> (LitInt i) = Means (SInt i)"
| "expr_meaning \<rho> (LitBool b) = Means (SBool b)"
| "expr_meaning \<rho> (Ident x) = Means (\<rho> x)"
| "expr_meaning \<rho> (Binop op l r) =
     then_mean (expr_meaning \<rho> l) (\<lambda>v.
       if op = ''&&'' then (if v = SBool True then expr_meaning \<rho> r else Means v)
       else if op = ''||'' then (if v = SBool True then Means v else expr_meaning \<rho> r)
       else then_mean (expr_meaning \<rho> r) (strict_meaning op v))"
| "expr_meaning \<rho> (Unary op e) =
     then_mean (expr_meaning \<rho> e) (\<lambda>v.
       case v of SInt i \<Rightarrow> Means (SInt (- i)) | SBool b \<Rightarrow> Means (SBool (\<not> b)))"
| "expr_meaning \<rho> _ = Undefined"

section \<open>Values\<close>

definition sval_of :: "value_t \<Rightarrow> sval" where
  "sval_of v = (case v of VBool b \<Rightarrow> SBool b | _ \<Rightarrow> SInt (num_val (to_num v)))"

definition has_type :: "value_t \<Rightarrow> ty \<Rightarrow> bool" where
  "has_type v t = (case t of TInt \<Rightarrow> is_integer v \<and> num_ok (to_num v) | TBool \<Rightarrow> (\<exists>b. v = VBool b))"

text \<open>A value and its meaning determine each other.\<close>

definition denotes :: "value_t \<Rightarrow> sval \<Rightarrow> bool" where
  "denotes v m \<longleftrightarrow> has_type v (sval_type m) \<and> sval_of v = m"

lemma is_integer_cases:
  "is_integer v \<longleftrightarrow> (\<exists>i. v = VInt i) \<or> (\<exists>b. v = VBig b)"
  by (cases v) (simp_all add: is_integer_def)

lemma denotes_SBool [simp]: "denotes v (SBool b) \<longleftrightarrow> v = VBool b"
  by (cases v) (auto simp: denotes_def has_type_def sval_type_def sval_of_def)

lemma denotes_SInt: "denotes v (SInt i) \<longleftrightarrow> is_integer v \<and> is_num i (to_num v)"
  by (cases v) (auto simp: denotes_def has_type_def sval_type_def sval_of_def is_integer_def is_num_def)

lemma denotes_VInt [simp]: "denotes (VInt i) (SInt j) \<longleftrightarrow> i = j \<and> in_i64 i"
  by (auto simp: denotes_SInt is_integer_def)

lemma denotes_VBig [simp]: "denotes (VBig b) (SInt j) \<longleftrightarrow> bi_wf b \<and> bi_val b = j \<and> \<not> in_i64 j"
  by (auto simp: denotes_SInt is_integer_def is_num_def)

lemma denotes_VBool [simp]: "denotes (VBool b) m \<longleftrightarrow> m = SBool b"
  by (cases m) (auto simp: denotes_SInt is_integer_def)

lemma denotes_int_cases:
  assumes "denotes v (SInt i)"
  obtains "v = VInt i" "in_i64 i" | b where "v = VBig b" "bi_wf b" "bi_val b = i" "\<not> in_i64 i"
  using assms by (cases v) (auto simp: denotes_SInt is_integer_def is_num_def)

lemma denotes_unique: "denotes v m \<Longrightarrow> denotes w m \<Longrightarrow> v = w"
  by (cases m) (auto elim!: denotes_int_cases intro: bi_val_inj)

lemma denotes_has_type: "denotes v m \<Longrightarrow> sval_type m = t \<Longrightarrow> has_type v t"
  by (simp add: denotes_def)

lemma has_type_denotes: "has_type v t \<Longrightarrow> denotes v (sval_of v) \<and> sval_type (sval_of v) = t"
  by (cases t; cases v)
    (auto simp: has_type_def denotes_def sval_of_def sval_type_def is_integer_def)

lemma sval_of_denotes: "denotes v m \<Longrightarrow> sval_of v = m"
  by (simp add: denotes_def)

section \<open>Operators\<close>

text \<open>The outcome of an operator that a meaning allows.\<close>

definition matches :: "outcome \<Rightarrow> meaning \<Rightarrow> bool" where
  "matches out m =
     (case m of Means v \<Rightarrow> (\<exists>w. out = Ret w \<and> denotes w v) | Throws \<Rightarrow> (\<exists>k. out = Raise k) | Undefined \<Rightarrow> out = Undef)"

lemma matches_num:
  assumes "\<exists>v. res = Some v \<and> is_num z v"
  shows "matches (num_out res) (Means (SInt z))"
proof -
  obtain v where v: "res = Some v" "is_num z v" using assms by blast
  then show ?thesis
    by (cases v) (auto simp: matches_def denotes_SInt is_integer_def is_num_def)
qed

lemma matches_simps [simp]:
  "matches (ret_bool b) (Means (SBool c)) \<longleftrightarrow> b = c"
  "matches (Ret (VInt i)) (Means (SInt j)) \<longleftrightarrow> i = j \<and> in_i64 i"
  "matches (Raise k) Throws"
  "matches Undef Undefined"
  by (auto simp: matches_def)

lemma op_tests:
  "op_at [] n = CHR 0x00" "op_at (c # cs) 0 = c" "op_at (c # cs) (Suc n) = op_at cs n"
  by (simp_all add: op_at_def)

lemmas op_simps = op_is_def op_two_def op_tests

lemma INT64_MIN_over: "\<not> in_i64 (- INT64_MIN)"
  by (simp add: i64_defs)

lemma div_fits:
  assumes "in_i64 x" "in_i64 y" "y \<noteq> 0"
  shows "in_i64 (c_div x y) \<longleftrightarrow> \<not> (x = INT64_MIN \<and> y = -1)"
  using div_in_i64(1) [OF assms(1,2) _ assms(3)] by (auto simp: c_div_def i64_defs)

lemma int_floor_matches:
  assumes "in_i64 x" "in_i64 y" "y \<noteq> 0" "\<not> (x = INT64_MIN \<and> y = -1)"
  shows "matches (int_floor x y) (Means (SInt (x div y)))"
proof -
  have "int_floor x y = num_out (int_floordiv_op x y :: u64 num option)"
    unfolding int_floor_def int_floordiv_op_def Let_def
      if_not_P [OF assms(3)] if_not_P [OF assms(4)] by (simp only: conj_commute)
  then show ?thesis
    by (simp add: matches_num int_div_ops_correct(2) assms(1-3))
qed

lemma safe_mul_meaning:
  assumes "in_i64 x" "in_i64 y"
  shows "matches (num_out (xs_safe_mul x y)) (ints_meaning ''*'' x y)"
proof (cases "x = -1 \<and> y = INT64_MIN")
  case True
  then show ?thesis
    by (simp add: ints_meaning_def xs_safe_mul_def safe_mul_overflow_def xs_int_of_eq INT64_MIN_over)
       (simp add: i64_defs)
next
  case False
  then show ?thesis
    using xs_safe_mul_correct [OF assms] by (auto simp: ints_meaning_def intro!: matches_num)
qed

definition typed_ops :: "string list" where
  "typed_ops = [''+'', ''-'', ''*'', ''/'', ''%'', ''//'', ''<'', ''>'', ''<='', ''>='', ''=='', ''!='']"

lemma int_binop_matches:
  assumes x: "in_i64 x" and y: "in_i64 y" and op: "op \<in> set typed_ops"
  shows "\<exists>out. int_binop F op x y = Some out \<and> matches out (ints_meaning op x y)"
proof -
  note quot = div_fits [OF x y] c_mod_in_i64 [OF _ y]
  have "int_binop F ''+'' x y = Some (num_out (xs_safe_add x y))"
       "int_binop F ''-'' x y = Some (num_out (xs_safe_sub x y))"
       "int_binop F ''*'' x y = Some (num_out (xs_safe_mul x y))"
    by (simp_all add: int_binop_def op_simps)
  moreover have "matches (num_out (xs_safe_add x y)) (ints_meaning ''+'' x y)"
       "matches (num_out (xs_safe_sub x y)) (ints_meaning ''-'' x y)"
    by (simp_all add: ints_meaning_def matches_num xs_safe_add_correct xs_safe_sub_correct x y)
  moreover have "\<exists>out. int_binop F ''/'' x y = Some out \<and> matches out (ints_meaning ''/'' x y)"
    using quot x by (auto simp: int_binop_def op_simps ints_meaning_def xs_int_of_eq)
  moreover have "\<exists>out. int_binop F ''%'' x y = Some out \<and> matches out (ints_meaning ''%'' x y)"
    using quot x by (auto simp: int_binop_def op_simps ints_meaning_def)
  moreover have "\<exists>out. int_binop F ''//'' x y = Some out \<and> matches out (ints_meaning ''//'' x y)"
    using quot x int_floor_matches [OF x y] by (auto simp: int_binop_def op_simps ints_meaning_def)
  moreover have "\<forall>op \<in> {''<'', ''>'', ''<='', ''>='', ''=='', ''!=''}.
      \<exists>out. int_binop F op x y = Some out \<and> matches out (ints_meaning op x y)"
    by (simp add: int_binop_def op_simps ints_meaning_def)
  ultimately show ?thesis
    using op safe_mul_meaning [OF x y] unfolding typed_ops_def by auto
qed

lemma value_cmp_sign:
  assumes "denotes a (SInt x)" "denotes b (SInt y)"
  shows "(value_cmp F a b < 0 \<longleftrightarrow> x < y) \<and> (0 < value_cmp F a b \<longleftrightarrow> y < x)"
  using assms
  by (elim denotes_int_cases)
     (auto simp: value_cmp_def int_cmp_def bigint_cmp_correct bigint_cmp_i64_correct)

lemma value_equal_denotes:
  assumes "denotes a m" "denotes b n" "sval_type m = sval_type n"
  shows "value_equal F a b \<longleftrightarrow> m = n"
proof (cases m)
  case (SInt x)
  then obtain y where y: "n = SInt y" using assms(3) by (cases n) (auto simp: sval_type_def)
  show ?thesis
    using assms(1,2) unfolding SInt y
    by (elim denotes_int_cases)
       (auto simp: value_equal_def bigint_cmp_correct bigint_cmp_i64_correct sgn_if)
next
  case (SBool x)
  then obtain y where y: "n = SBool y" using assms(3) by (cases n) (auto simp: sval_type_def)
  show ?thesis using assms(1,2) unfolding SBool y by (simp add: value_equal_def)
qed

lemma in_i64_zero [simp]: "in_i64 0"
  by (simp add: i64_defs)

lemma big_zero: "bigint_is_zero (bigint_from_i64 0)" "xs_bigint_val (bigint_from_i64 0) = NInt 0"
proof -
  show "bigint_is_zero (bigint_from_i64 0)" by code_simp
  show "xs_bigint_val (bigint_from_i64 0) = NInt 0"
    by (rule is_num_unique [of 0]) (auto simp: bigint_from_i64_correct)
qed

lemma big_by_zero:
  "xs_numeric_div F (NBig b) (NInt 0) = Some (NInt 0)"
  "xs_numeric_mod F (NBig b) (NInt 0) = Some (NInt 0)"
  "xs_numeric_floordiv F (NBig b) (NInt 0) = Some (NInt 0)"
  by (simp_all add: xs_numeric_div_def xs_numeric_mod_def xs_numeric_floordiv_def numeric_op_def
      bigint_div_def bigint_mod_def bigint_floordiv_def bigint_divmod_def big_zero)

lemma big_binop_matches:
  assumes a: "denotes a (SInt x)" and b: "denotes b (SInt y)" and op: "op \<in> set typed_ops"
    and big: "as_int a = None \<or> as_int b = None"
  shows "\<exists>out. big_binop F op a b = Some out \<and> matches out (ints_meaning op x y)"
proof -
  let ?a = "to_num a" and ?b = "to_num b"
  have ok: "num_ok ?a" "num_ok ?b" and val: "num_val ?a = x" "num_val ?b = y"
    using a b by (auto simp: denotes_SInt is_num_def)
  have min: "x \<noteq> INT64_MIN \<or> y \<noteq> -1" "x \<noteq> -1 \<or> y \<noteq> INT64_MIN"
    and nums: "?a \<noteq> NInt INT64_MIN \<or> ?b \<noteq> NInt (- 1)" "?a \<noteq> NInt (- 1) \<or> ?b \<noteq> NInt INT64_MIN"
    using a b big by (auto elim!: denotes_int_cases simp: as_int_def i64_defs)
  have zero: "y = 0 \<Longrightarrow> as_int a = None \<and> b = VInt 0"
    using b big by (auto elim!: denotes_int_cases simp: as_int_def i64_defs)
  have div0: "xs_numeric_div F ?a ?b = Some (NInt 0)" "xs_numeric_mod F ?a ?b = Some (NInt 0)"
      "xs_numeric_floordiv F ?a ?b = Some (NInt 0)" "\<not> in_i64 x" if "y = 0"
    using a zero [OF that]
    by (auto elim!: denotes_int_cases simp: as_int_def big_by_zero)
  have arith: "big_binop F ''+'' a b = Some (num_out (xs_numeric_add F ?a ?b))"
      "big_binop F ''-'' a b = Some (num_out (xs_numeric_sub F ?a ?b))"
      "big_binop F ''*'' a b = Some (num_out (xs_numeric_mul F ?a ?b))"
      "big_binop F ''/'' a b = Some (num_out (xs_numeric_div F ?a ?b))"
      "big_binop F ''%'' a b = Some (num_out (xs_numeric_mod F ?a ?b))"
      "big_binop F ''//'' a b = Some (num_out (xs_numeric_floordiv F ?a ?b))"
    by (simp_all add: big_binop_def op_simps Let_def)
  moreover have "matches (num_out (xs_numeric_add F ?a ?b)) (ints_meaning ''+'' x y)"
      "matches (num_out (xs_numeric_sub F ?a ?b)) (ints_meaning ''-'' x y)"
      "matches (num_out (xs_numeric_mul F ?a ?b)) (ints_meaning ''*'' x y)"
    unfolding ints_meaning_def
    using min(2) matches_num [OF xs_numeric_add_correct [OF ok]] matches_num [OF xs_numeric_sub_correct [OF ok]]
      matches_num [OF xs_numeric_mul_correct [OF ok nums(2)]]
    by (auto simp: val)
  moreover have "matches (num_out (xs_numeric_div F ?a ?b)) (ints_meaning ''/'' x y)"
    using min(1) div0 matches_num [OF xs_numeric_div_correct [OF ok, unfolded val]]
    by (auto simp: ints_meaning_def)
  moreover have "matches (num_out (xs_numeric_mod F ?a ?b)) (ints_meaning ''%'' x y)"
    using min(1) div0 matches_num [OF xs_numeric_mod_correct [OF ok, unfolded val, OF _ nums(1)]]
    by (auto simp: ints_meaning_def)
  moreover have "matches (num_out (xs_numeric_floordiv F ?a ?b)) (ints_meaning ''//'' x y)"
    using min(1) div0 matches_num [OF xs_numeric_floordiv_correct [OF ok, unfolded val]]
    by (auto simp: ints_meaning_def)
  moreover have "\<forall>op \<in> {''<'', ''>'', ''<='', ''>='', ''=='', ''!=''}.
      \<exists>out. big_binop F op a b = Some out \<and> matches out (ints_meaning op x y)"
    using value_cmp_sign [OF a b, of F] value_equal_denotes [OF a b, of F]
    by (auto simp: big_binop_def op_simps ints_meaning_def Let_def sval_type_def not_less [symmetric])
  ultimately show ?thesis
    using op unfolding typed_ops_def by auto
qed

lemma number_binop_matches:
  assumes a: "denotes a (SInt x)" and b: "denotes b (SInt y)" and op: "op \<in> set typed_ops"
  shows "\<exists>out. number_binop F op a b = Some out \<and> matches out (ints_meaning op x y)"
proof (cases "as_int a = None \<or> as_int b = None")
  case True
  then show ?thesis
    using big_binop_matches [OF a b op True, of F] a b by (auto simp: number_binop_def denotes_SInt)
next
  case False
  then have "a = VInt x" "b = VInt y" "in_i64 x" "in_i64 y"
    using a b by (auto elim!: denotes_int_cases simp: as_int_def)
  then show ?thesis
    using int_binop_matches [of x y op F] op by (simp add: number_binop_def as_int_def)
qed

lemma typed_strict_ops:
  assumes "binop_type op t u = Some w" "op \<notin> {''&&'', ''||''}"
  shows "op \<in> set typed_ops" "t = u" "t = TBool \<Longrightarrow> op = ''=='' \<or> op = ''!=''"
  using assms by (auto simp: binop_type_def typed_ops_def split: if_splits)

lemma eval_strict_matches:
  assumes a: "denotes a m" and b: "denotes b n"
    and op: "binop_type op (sval_type m) (sval_type n) = Some t" "op \<notin> {''&&'', ''||''}"
  shows "matches (eval_strict L F op a b) (strict_meaning op m n)"
proof -
  note typed = typed_strict_ops [OF op]
  then have special: "op \<noteq> ''<=>''" "op \<noteq> ''is''" "op \<noteq> ''in''"
    by (auto simp: typed_ops_def)
  show ?thesis
  proof (cases m)
    case (SInt x)
    then obtain y where n: "n = SInt y" using typed(2) by (cases n) (auto simp: sval_type_def)
    have "is_scalar a \<and> is_scalar b \<and> as_duration a = None \<and> as_duration b = None"
      using a b unfolding SInt n by (auto elim!: denotes_int_cases simp: as_duration_def)
    then show ?thesis
      using number_binop_matches [OF a [unfolded SInt] b [unfolded n] typed(1), of F] special
      by (auto simp: eval_strict_def first_of_def SInt n)
  next
    case (SBool x)
    then obtain y where n: "n = SBool y" using typed(2) by (cases n) (auto simp: sval_type_def)
    have ab: "a = VBool x" "b = VBool y" using a b unfolding SBool n by simp_all
    have "op = ''=='' \<or> op = ''!=''" using typed(3) SBool by (simp add: sval_type_def)
    then show ?thesis
      unfolding SBool n ab
      by (elim disjE)
        (simp_all add: eval_strict_def first_of_def number_binop_def mixed_binop_def text_binop_def as_int_def
          as_str_def as_duration_def is_integer_def last_resort_def op_simps value_equal_def)
  qed
qed

lemma eval_unary_matches:
  assumes "denotes a m" and "unary_type op (sval_type m) = Some t"
  shows "matches (eval_unary F op a) (case m of SInt i \<Rightarrow> Means (SInt (- i)) | SBool b \<Rightarrow> Means (SBool (\<not> b)))"
proof (cases m)
  case (SInt i)
  then have op: "op = ''-''" using assms(2) by (auto simp: unary_type_def sval_type_def split: if_splits)
  have "matches (num_out (xs_safe_neg i)) (Means (SInt (- i)))" if "in_i64 i"
    by (rule matches_num) (rule xs_safe_neg_correct [OF that])
  moreover have "matches (num_out (xs_numeric_neg F (NBig b))) (Means (SInt (- i)))"
    if "bi_wf b" "bi_val b = i" "\<not> in_i64 i" for b
    using matches_num [OF xs_numeric_neg_correct [of "NBig b" F]] that by simp
  ultimately show ?thesis
    using assms(1) unfolding SInt op
    by (elim denotes_int_cases) (simp_all add: eval_unary_def op_simps)
next
  case (SBool b)
  then have op: "op = ''!''" using assms(2) by (auto simp: unary_type_def sval_type_def split: if_splits)
  then show ?thesis using assms(1) unfolding SBool by (simp add: eval_unary_def op_simps)
qed

end
