(* ===== verification/XOptimize.thy ===== *)
theory XOptimize
  imports XAst
begin

text \<open>
  Four passes of the syntax-tree optimizer (\<open>src/optimizer/optimizer.c\<close>): constant folding, algebraic
  simplification, dead code elimination and strength reduction. The tree is rewritten in place there and
  rebuilt here, and the counters, which only feed a report, are left out.

  Folding computes in C arithmetic, so it is \<open>None\<close> where a literal result overflows or a shift is out
  of range.
\<close>

section \<open>The children of a node\<close>

text \<open>The children the passes descend into; a pass may leave out some kinds of node.\<close>

fun walk :: "(node \<Rightarrow> node) \<Rightarrow> node \<Rightarrow> node" where
  "walk f (Binop op l r) = Binop op (f l) (f r)"
| "walk f (Unary op e) = Unary op (f e)"
| "walk f (Assign op t v) = Assign op (f t) (f v)"
| "walk f (Call c as) = Call (f c) (map f as)"
| "walk f (MethodCall ob m as) = MethodCall (f ob) m (map f as)"
| "walk f (Index ob i) = Index (f ob) (f i)"
| "walk f (Field ob x) = Field (f ob) x"
| "walk f (IfExpr c t cs ts els) = IfExpr (f c) (f t) (map f cs) (map f ts) (map_option f els)"
| "walk f (Match e pats bodies) = Match (f e) pats (map f bodies)"
| "walk f (While lb c b) = While lb (f c) (f b)"
| "walk f (For lb p it b) = For lb p (f it) (f b)"
| "walk f (Loop lb b) = Loop lb (f b)"
| "walk f (Return v) = Return (map_option f v)"
| "walk f (Block d stmts expr) = Block d (map f stmts) (map_option f expr)"
| "walk f (Let a x m c v) = Let a x m c (map_option f v)"
| "walk f (Const x c v) = Const x c (f v)"
| "walk f (ExprStmt e) = ExprStmt (f e)"
| "walk f (FnDecl g b) = FnDecl g (map_option f b)"
| "walk f (Lambda b) = Lambda (map_option f b)"
| "walk f (Cast e t) = Cast (f e) t"
| "walk f (Program stmts) = Program (map f stmts)"
| "walk f n = n"

lemma size_in_option: "x \<in> set_option xo \<Longrightarrow> size x \<le> size_option size xo"
  by (cases xo) auto

lemma size_in_list: "x \<in> set xs \<Longrightarrow> size x \<le> size_list size xs"
  by (rule size_list_estimation' [OF _ order_refl])

lemma walk_cong [fundef_cong]:
  assumes "n = n'" "\<And>m. size m < size n' \<Longrightarrow> f m = g m"
  shows "walk f n = walk g n'"
  unfolding assms(1)
  using assms(2)
  by (cases n')
    (auto intro!: map_cong option.map_cong dest!: size_in_option size_in_list)

fun children :: "node \<Rightarrow> node list" where
  "children (Assign op t v) = [t, v]"
| "children (Call c as) = c # as"
| "children (MethodCall ob m as) = ob # as"
| "children (Index ob i) = [ob, i]"
| "children (Field ob x) = [ob]"
| "children (IfExpr c t cs ts els) = c # t # cs @ ts @ (case els of Some e \<Rightarrow> [e] | None \<Rightarrow> [])"
| "children (Match e pats bodies) = e # bodies"
| "children (While lb c b) = [c, b]"
| "children (For lb p it b) = [it, b]"
| "children (Loop lb b) = [b]"
| "children (Return v) = (case v of Some e \<Rightarrow> [e] | None \<Rightarrow> [])"
| "children (Block d stmts expr) = stmts @ (case expr of Some e \<Rightarrow> [e] | None \<Rightarrow> [])"
| "children (Let a x m c v) = (case v of Some e \<Rightarrow> [e] | None \<Rightarrow> [])"
| "children (Const x c v) = [v]"
| "children (ExprStmt e) = [e]"
| "children (FnDecl g b) = (case b of Some e \<Rightarrow> [e] | None \<Rightarrow> [])"
| "children (Lambda b) = (case b of Some e \<Rightarrow> [e] | None \<Rightarrow> [])"
| "children (Cast e t) = [e]"
| "children (Program stmts) = stmts"
| "children (Binop op l r) = [l, r]"
| "children (Unary op e) = [e]"
| "children n = []"

lemma children_size: "m \<in> set (children n) \<Longrightarrow> size m < size n"
  by (cases n) (auto split: option.splits dest!: size_in_list)

text \<open>A pass that can leave C's defined behaviour.\<close>

definition walk_opt :: "(node \<Rightarrow> node option) \<Rightarrow> node \<Rightarrow> node option" where
  "walk_opt f n = (if list_all (\<lambda>m. f m \<noteq> None) (children n) then Some (walk (\<lambda>m. the (f m)) n) else None)"

lemma walk_opt_cong [fundef_cong]:
  assumes n: "n = n'" and f: "\<And>m. size m < size n' \<Longrightarrow> f m = g m"
  shows "walk_opt f n = walk_opt g n'"
proof -
  have "walk (\<lambda>m. the (f m)) n = walk (\<lambda>m. the (g m)) n'"
    by (rule walk_cong [OF n]) (simp add: f)
  moreover have "list_all (\<lambda>m. f m \<noteq> None) (children n) = list_all (\<lambda>m. g m \<noteq> None) (children n')"
    unfolding n by (rule list.pred_cong) (auto simp: f children_size)
  ultimately show ?thesis
    by (simp add: walk_opt_def)
qed

section \<open>Constant folding\<close>

text \<open>
  \<open>None\<close> where the operator is not folded. The left shift drops what it shifts out, as GCC documents.
\<close>

definition fold_int :: "(u64, 'x) fpu_scheme \<Rightarrow> string \<Rightarrow> int \<Rightarrow> int \<Rightarrow> int option option" where
  "fold_int F op l r =
     (if op = ''+'' then Some (i64_chk (l + r))
      else if op = ''-'' then Some (i64_chk (l - r))
      else if op = ''*'' then Some (i64_chk (l * r))
      else if op = ''/'' then (if r = 0 then None else Some (i64_chk (c_div l r)))
      else if op = ''%'' then
        (if r = 0 then None else Some (if in_i64 (c_div l r) then Some (c_mod l r) else None))
      else if op = ''**'' then
        (let p = f_pow F (f_of_int F l) (f_of_int F r)
         in Some (if f_in_i64 F p then Some (f_to_i64 F p) else None))
      else if op = ''&'' then Some (Some (l AND r))
      else if op = ''|'' then Some (Some (l OR r))
      else if op = ''^'' then Some (Some (l XOR r))
      else if op = ''<<'' then
        Some (if 0 \<le> r \<and> r < 64 then Some (sint (push_bit (nat r) (word_of_int l :: u64))) else None)
      else if op = ''>>'' then Some (if 0 \<le> r \<and> r < 64 then Some (drop_bit (nat r) l) else None)
      else None)"

definition fold_int_cmp :: "string \<Rightarrow> int \<Rightarrow> int \<Rightarrow> bool option" where
  "fold_int_cmp op l r =
     (if op = ''=='' then Some (l = r)
      else if op = ''!='' then Some (l \<noteq> r)
      else if op = ''<'' then Some (l < r)
      else if op = ''<='' then Some (l \<le> r)
      else if op = ''>'' then Some (r < l)
      else if op = ''>='' then Some (r \<le> l)
      else None)"

definition fold_double :: "(u64, 'x) fpu_scheme \<Rightarrow> string \<Rightarrow> u64 \<Rightarrow> u64 \<Rightarrow> node option" where
  "fold_double F op l r =
     (if op = ''+'' then Some (LitFloat (f_add F l r))
      else if op = ''-'' then Some (LitFloat (f_sub F l r))
      else if op = ''*'' then Some (LitFloat (f_mul F l r))
      else if op = ''/'' then (if fbits_eq r 0 then None else Some (LitFloat (f_div F l r)))
      else if op = ''**'' then Some (LitFloat (f_pow F l r))
      else if op = ''=='' then Some (LitBool (fbits_eq l r))
      else if op = ''!='' then Some (LitBool (\<not> fbits_eq l r))
      else if op = ''<'' then Some (LitBool (fbits_lt l r))
      else if op = ''<='' then Some (LitBool (fbits_lt l r \<or> fbits_eq l r))
      else if op = ''>'' then Some (LitBool (fbits_lt r l))
      else if op = ''>='' then Some (LitBool (fbits_lt r l \<or> fbits_eq l r))
      else None)"

definition fold_bool :: "string \<Rightarrow> bool \<Rightarrow> bool \<Rightarrow> bool option" where
  "fold_bool op l r =
     (if op = ''&&'' then Some (l \<and> r)
      else if op = ''||'' then Some (l \<or> r)
      else if op = ''=='' then Some (l = r)
      else if op = ''!='' then Some (l \<noteq> r)
      else None)"

fun const_double :: "(u64, 'x) fpu_scheme \<Rightarrow> cval \<Rightarrow> u64 option" where
  "const_double F (CV_INT i) = Some (f_of_int F i)"
| "const_double F (CV_FLOAT f) = Some f"
| "const_double F _ = None"

text \<open>Two constants: \<open>None\<close> where they stay, \<open>Some None\<close> where the computation is undefined.\<close>

definition fold_consts :: "(u64, 'x) fpu_scheme \<Rightarrow> string \<Rightarrow> cval \<Rightarrow> cval \<Rightarrow> node option option" where
  "fold_consts F op lv rv =
     (case (lv, rv) of
        (CV_INT l, CV_INT r) \<Rightarrow>
          (case fold_int F op l r of
             Some res \<Rightarrow> Some (map_option LitInt res)
           | None \<Rightarrow> map_option (Some \<circ> LitBool) (fold_int_cmp op l r))
      | (CV_BOOL l, CV_BOOL r) \<Rightarrow> map_option (Some \<circ> LitBool) (fold_bool op l r)
      | (CV_STRING l, CV_STRING r) \<Rightarrow> if op = ''++'' then Some (Some (make_string (l @ r))) else None
      | _ \<Rightarrow>
          (case const_double F lv of None \<Rightarrow> None
           | Some l \<Rightarrow> (case const_double F rv of None \<Rightarrow> None
                        | Some r \<Rightarrow> map_option Some (fold_double F op l r))))"

text \<open>Neutral and absorbing literals.\<close>

definition fold_identity :: "string \<Rightarrow> node \<Rightarrow> node \<Rightarrow> node" where
  "fold_identity op l r =
     (let lv = const_val l; rv = const_val r
      in if op = ''+'' \<and> rv = CV_INT 0 then l
         else if op = ''+'' \<and> lv = CV_INT 0 then r
         else if op = ''-'' \<and> rv = CV_INT 0 then l
         else if op = ''*'' \<and> rv = CV_INT 1 then l
         else if op = ''*'' \<and> lv = CV_INT 1 then r
         else if op = ''*'' \<and> rv = CV_INT 0 then LitInt 0
         else if op = ''*'' \<and> lv = CV_INT 0 then LitInt 0
         else if op = ''**'' \<and> rv = CV_INT 0 then LitInt 1
         else if op = ''**'' \<and> rv = CV_INT 1 then l
         else if op = ''/'' \<and> rv = CV_INT 1 then l
         else Binop op l r)"

definition fold_binop :: "(u64, 'x) fpu_scheme \<Rightarrow> string \<Rightarrow> node \<Rightarrow> node \<Rightarrow> node option" where
  "fold_binop F op l r =
     (case fold_consts F op (const_val l) (const_val r) of
        Some res \<Rightarrow> res
      | None \<Rightarrow> Some (fold_identity op l r))"

definition fold_unary :: "(u64, 'x) fpu_scheme \<Rightarrow> string \<Rightarrow> node \<Rightarrow> node option" where
  "fold_unary F op e =
     (case const_val e of
        CV_INT v \<Rightarrow> if op = ''-'' then map_option LitInt (i64_chk (- v))
                    else if op = ''~'' then Some (LitInt (NOT v)) else Some (Unary op e)
      | CV_FLOAT v \<Rightarrow> if op = ''-'' then Some (LitFloat (f_neg F v)) else Some (Unary op e)
      | CV_BOOL v \<Rightarrow> if op = ''!'' then Some (LitBool (\<not> v)) else Some (Unary op e)
      | _ \<Rightarrow> Some (Unary op e))"

fun opt_constant_fold :: "(u64, 'x) fpu_scheme \<Rightarrow> node \<Rightarrow> node option" where
  "opt_constant_fold F (Binop op l r) =
     (case opt_constant_fold F l of None \<Rightarrow> None
      | Some l' \<Rightarrow> (case opt_constant_fold F r of None \<Rightarrow> None | Some r' \<Rightarrow> fold_binop F op l' r'))"
| "opt_constant_fold F (Unary op e) =
     (case opt_constant_fold F e of None \<Rightarrow> None | Some e' \<Rightarrow> fold_unary F op e')"
| "opt_constant_fold F n = walk_opt (opt_constant_fold F) n"

section \<open>Algebraic simplification\<close>

definition is_float_lit :: "cval \<Rightarrow> u64 \<Rightarrow> bool" where
  "is_float_lit v f = (case v of CV_FLOAT x \<Rightarrow> fbits_eq x f | _ \<Rightarrow> False)"

text \<open>1.0 as a double.\<close>

abbreviation float_one :: u64 where
  "float_one \<equiv> 0x3FF0000000000000"

definition known_nonzero :: "node \<Rightarrow> bool" where
  "known_nonzero l =
     (case l of Ident x \<Rightarrow> True
      | _ \<Rightarrow> (case const_val l of CV_INT i \<Rightarrow> i \<noteq> 0 | CV_FLOAT f \<Rightarrow> \<not> fbits_eq f 0 | _ \<Rightarrow> False))"

definition algebraic_binop :: "string \<Rightarrow> node \<Rightarrow> node \<Rightarrow> node" where
  "algebraic_binop op l r =
     (let lv = const_val l; rv = const_val r
      in if op = ''+'' \<and> is_float_lit rv 0 then l
         else if op = ''+'' \<and> is_float_lit lv 0 then r
         else if op = ''*'' \<and> is_float_lit rv float_one then l
         else if op = ''*'' \<and> is_float_lit lv float_one then r
         else if op = ''*'' \<and> is_float_lit rv 0 then LitFloat 0
         else if op = ''*'' \<and> is_float_lit lv 0 then LitFloat 0
         else if op = ''-'' \<and> is_pure l \<and> expr_equal l r then LitInt 0
         else if op = ''/'' \<and> is_pure l \<and> expr_equal l r \<and> known_nonzero l then LitInt 1
         else if op = ''&&'' \<and> rv = CV_BOOL True then l
         else if op = ''&&'' \<and> lv = CV_BOOL True then r
         else if op = ''&&'' \<and> rv = CV_BOOL False then LitBool False
         else if op = ''&&'' \<and> lv = CV_BOOL False then LitBool False
         else if op = ''||'' \<and> rv = CV_BOOL False then l
         else if op = ''||'' \<and> lv = CV_BOOL False then r
         else if op = ''||'' \<and> rv = CV_BOOL True then LitBool True
         else if op = ''||'' \<and> lv = CV_BOOL True then LitBool True
         else if op = ''++'' \<and> rv = CV_STRING [] then l
         else if op = ''++'' \<and> lv = CV_STRING [] then r
         else Binop op l r)"

definition algebraic_unary :: "string \<Rightarrow> node \<Rightarrow> node" where
  "algebraic_unary op e =
     (case e of
        Unary op' inner \<Rightarrow> if op \<in> {''!'', ''-'', ''~''} \<and> op' = op then inner else Unary op e
      | _ \<Rightarrow> Unary op e)"

fun opt_algebraic_simplify :: "node \<Rightarrow> node" where
  "opt_algebraic_simplify (Binop op l r) =
     algebraic_binop op (opt_algebraic_simplify l) (opt_algebraic_simplify r)"
| "opt_algebraic_simplify (Unary op e) = algebraic_unary op (opt_algebraic_simplify e)"
| "opt_algebraic_simplify n = walk opt_algebraic_simplify n"

section \<open>Strength reduction\<close>

definition is_power2 :: "int \<Rightarrow> bool" where
  "is_power2 n \<longleftrightarrow> 0 < n \<and> n AND (n - 1) = 0"

function log2_int :: "int \<Rightarrow> int" where
  "log2_int n = (if 1 < n then 1 + log2_int (drop_bit 1 n) else 0)"
  by auto
termination
  by (relation "measure nat") (auto simp: drop_bit_eq_div)

declare log2_int.simps [simp del]

definition power2_of :: "cval \<Rightarrow> int option" where
  "power2_of v = (case v of CV_INT i \<Rightarrow> if 0 < i \<and> is_power2 i then Some (log2_int i) else None | _ \<Rightarrow> None)"

definition strength_binop :: "string \<Rightarrow> node \<Rightarrow> node \<Rightarrow> node" where
  "strength_binop op l r =
     (let lv = const_val l; rv = const_val r
      in if op = ''**'' \<and> rv = CV_INT 2 then Binop ''*'' l l
         else if op = ''*'' \<and> power2_of rv \<noteq> None then Binop ''<<'' l (LitInt (the (power2_of rv)))
         else if op = ''*'' \<and> power2_of lv \<noteq> None then Binop ''<<'' r (LitInt (the (power2_of lv)))
         else if op = ''/'' \<and> power2_of rv \<noteq> None then Binop ''>>'' l (LitInt (the (power2_of rv)))
         else if op = ''%'' \<and> rv = CV_INT 2 then Binop ''&'' l (LitInt 1)
         else Binop op l r)"

fun opt_strength_reduce :: "node \<Rightarrow> node" where
  "opt_strength_reduce (Binop op l r) =
     strength_binop op (opt_strength_reduce l) (opt_strength_reduce r)"
| "opt_strength_reduce (Unary op e) = Unary op e"
| "opt_strength_reduce (MethodCall ob m as) = MethodCall ob m as"
| "opt_strength_reduce (Index ob i) = Index ob i"
| "opt_strength_reduce (Field ob x) = Field ob x"
| "opt_strength_reduce (Assign op t v) = Assign op t v"
| "opt_strength_reduce (Cast e t) = Cast e t"
| "opt_strength_reduce n = walk opt_strength_reduce n"

section \<open>Dead code\<close>

definition is_exit :: "node \<Rightarrow> bool" where
  "is_exit n = (case n of Return v \<Rightarrow> True | Break l v \<Rightarrow> True | Continue l \<Rightarrow> True | _ \<Rightarrow> False)"

text \<open>Everything after the first exit goes, and the block's final expression with it.\<close>

fun cut_after_exit :: "node list \<Rightarrow> node list" where
  "cut_after_exit [] = []"
| "cut_after_exit (n # ns) = (if is_exit n then [n] else n # cut_after_exit ns)"

definition empty_block :: node where
  "empty_block = Block None [] None"

text \<open>
  A false condition moves the first \<open>elif\<close> up and starts again. There is a branch for every \<open>elif\<close>
  condition.
\<close>

function opt_dead_code_elim :: "node \<Rightarrow> node" where
  "opt_dead_code_elim n =
     (case n of
        Block known stmts expr \<Rightarrow>
          (let kept = cut_after_exit (map opt_dead_code_elim stmts)
           in Block known kept
                (if length kept < length stmts then None else map_option opt_dead_code_elim expr))
      | IfExpr c t cs ts els \<Rightarrow>
          (let c' = opt_dead_code_elim c
           in if const_val c' = CV_BOOL True then opt_dead_code_elim t
              else if const_val c' = CV_BOOL False then
                (case cs of
                   c2 # cs' \<Rightarrow>
                     (case ts of t2 # ts' \<Rightarrow> opt_dead_code_elim (IfExpr c2 t2 cs' ts' els) | [] \<Rightarrow> n)
                 | [] \<Rightarrow> (case els of Some e \<Rightarrow> opt_dead_code_elim e | None \<Rightarrow> empty_block))
              else IfExpr c' (opt_dead_code_elim t)
                     (map opt_dead_code_elim cs) (map opt_dead_code_elim ts) (map_option opt_dead_code_elim els))
      | While lb c b \<Rightarrow>
          (let c' = opt_dead_code_elim c
           in if const_val c' = CV_BOOL False then empty_block else While lb c' (opt_dead_code_elim b))
      | For lb p it b \<Rightarrow> walk opt_dead_code_elim n
      | Loop lb b \<Rightarrow> walk opt_dead_code_elim n
      | Return v \<Rightarrow> walk opt_dead_code_elim n
      | Let a x m c v \<Rightarrow> walk opt_dead_code_elim n
      | Const x c v \<Rightarrow> walk opt_dead_code_elim n
      | ExprStmt e \<Rightarrow> walk opt_dead_code_elim n
      | FnDecl g b \<Rightarrow> walk opt_dead_code_elim n
      | Lambda b \<Rightarrow> walk opt_dead_code_elim n
      | Match e ps bs \<Rightarrow> walk opt_dead_code_elim n
      | Program stmts \<Rightarrow> walk opt_dead_code_elim n
      | _ \<Rightarrow> n)"
  by pat_completeness auto
termination
  by (relation "measure size") (auto dest!: size_in_option size_in_list)

end
