(* ===== verification/XTypedOpt.thy ===== *)
theory XTypedOpt
  imports XTyped XOptimize
begin

text \<open>
  Evaluation of typed expressions is exact, and the optimizer's folding and simplification keep their
  types and their values.
\<close>

section \<open>Typed environments\<close>

definition env_ok :: "(string \<times> ty) list \<Rightarrow> interp \<Rightarrow> bool" where
  "env_ok G s \<longleftrightarrow> (\<forall>x t. map_of G x = Some t \<longrightarrow> (\<exists>v. env_get (frames s) x = Some v \<and> has_type v t))"

definition value_env :: "interp \<Rightarrow> string \<Rightarrow> sval" where
  "value_env s x = sval_of (the (env_get (frames s) x))"

fun expr_height :: "node \<Rightarrow> nat" where
  "expr_height (Binop op l r) = Suc (max (expr_height l) (expr_height r))"
| "expr_height (Unary op e) = Suc (expr_height e)"
| "expr_height _ = 0"

text \<open>A run that a meaning of type \<open>t\<close> allows in state \<open>s\<close>.\<close>

definition run_matches :: "(value_t \<times> interp) option \<Rightarrow> interp \<Rightarrow> meaning \<Rightarrow> ty \<Rightarrow> bool" where
  "run_matches res s m t =
     (case m of
        Means v \<Rightarrow> sval_type v = t \<and> (\<exists>w. res = Some (w, s) \<and> denotes w v)
      | Throws \<Rightarrow> (\<exists>w s'. res = Some (w, s') \<and> cf_signal s' = CF_THROW \<and> (w = VNull \<or> (\<exists>b. w = VBool b)))
      | Undefined \<Rightarrow> res = None)"

lemma run_matches_simps [simp]:
  "run_matches res s (Means v) t \<longleftrightarrow> sval_type v = t \<and> (\<exists>w. res = Some (w, s) \<and> denotes w v)"
  "run_matches res s Throws t \<longleftrightarrow>
     (\<exists>w s'. res = Some (w, s') \<and> cf_signal s' = CF_THROW \<and> (w = VNull \<or> (\<exists>b. w = VBool b)))"
  "run_matches res s Undefined t \<longleftrightarrow> res = None"
  by (simp_all add: run_matches_def)

lemma then_mean_simps [simp]:
  "then_mean (Means v) f = f v" "then_mean Throws f = Throws" "then_mean Undefined f = Undefined"
  by (simp_all add: then_mean_def)

lemma out_result_simps [simp]:
  "out_result s (Ret v) = Some (v, s)" "out_result s (Raise k) = Some (VNull, xs_runtime_error k s)"
  "out_result s Undef = None" "out_result s Outside = None"
  by (simp_all add: out_result_def)

lemma xs_runtime_error_signal [simp]: "cf_signal (xs_runtime_error k s) = CF_THROW"
  by (simp add: xs_runtime_error_def)

lemma strict_meaning_type:
  assumes "strict_meaning op m n = Means v" "binop_type op (sval_type m) (sval_type n) = Some t" "op \<notin> {''&&'', ''||''}"
  shows "sval_type v = t"
  using assms
  by (cases m; cases n)
    (auto simp: binop_type_def ints_meaning_def sval_type_def split: if_splits)

lemma out_result_matches:
  assumes "matches out m" "\<And>v. m = Means v \<Longrightarrow> sval_type v = t"
  shows "run_matches (out_result s out) s m t"
  using assms by (cases m) (auto simp: matches_def)

lemma interp_eval_quiet:
  assumes "cf_signal s \<noteq> CF_NONE" "0 < k"
  shows "interp_eval L F k n s = Some (VNull, s)"
  using assms by (cases k) simp_all

lemma denotes_truthy: "denotes w (SBool b) \<Longrightarrow> value_truthy w = b"
  by simp

lemma operands_matches:
  assumes l: "run_matches (ev l s) s ml t1" and r: "run_matches (ev r s) s mr t2"
    and quiet: "cf_signal s = CF_NONE"
    and both: "\<And>a b v w. \<lbrakk>ml = Means v; mr = Means w; denotes a v; denotes b w; sval_type v = t1; sval_type w = t2\<rbrakk>
      \<Longrightarrow> run_matches (f a b s) s (g v w) t"
  shows "run_matches (operands ev l r f s) s (then_mean ml (\<lambda>v. then_mean mr (g v))) t"
proof (cases ml)
  case (Means v)
  then obtain a where a: "ev l s = Some (a, s)" "denotes a v" "sval_type v = t1" using l by auto
  show ?thesis
  proof (cases mr)
    case (Means w)
    then obtain b where "ev r s = Some (b, s)" "denotes b w" "sval_type w = t2" using r by auto
    then show ?thesis using both [OF \<open>ml = Means v\<close> Means] a quiet Means \<open>ml = Means v\<close>
      by (simp add: operands_def)
  next
    case Throws
    then show ?thesis using r a quiet \<open>ml = Means v\<close> by (auto simp: operands_def)
  next
    case Undefined
    then show ?thesis using r a quiet \<open>ml = Means v\<close> by (auto simp: operands_def)
  qed
next
  case Throws
  then show ?thesis using l by (auto simp: operands_def)
next
  case Undefined
  then show ?thesis using l by (auto simp: operands_def)
qed

lemma logic_matches:
  assumes l: "run_matches (ev l s) s ml TBool" and r: "run_matches (ev r s) s mr TBool"
    and quiet: "\<And>s'. cf_signal s' \<noteq> CF_NONE \<Longrightarrow> ev r s' = Some (VNull, s')"
  shows "run_matches (eval_binop L F ev ''&&'' l r s) s
      (then_mean ml (\<lambda>v. if v = SBool True then mr else Means v)) TBool"
    and "run_matches (eval_binop L F ev ''||'' l r s) s
      (then_mean ml (\<lambda>v. if v = SBool True then Means v else mr)) TBool"
proof -
  have tb: "\<exists>b. v = SBool b" if "sval_type v = TBool" for v
    using that by (cases v) (simp_all add: sval_type_def)
  show "run_matches (eval_binop L F ev ''&&'' l r s) s
      (then_mean ml (\<lambda>v. if v = SBool True then mr else Means v)) TBool"
    using l r quiet by (cases ml) (auto simp: eval_binop_def dest!: tb split: if_splits)
  show "run_matches (eval_binop L F ev ''||'' l r s) s
      (then_mean ml (\<lambda>v. if v = SBool True then Means v else mr)) TBool"
    using l r quiet by (cases ml) (auto simp: eval_binop_def dest!: tb split: if_splits)
qed

section \<open>Evaluation\<close>

lemma binop_type_logic:
  "binop_type op a b = Some t \<Longrightarrow> op = ''&&'' \<or> op = ''||'' \<Longrightarrow> a = TBool \<and> b = TBool \<and> t = TBool"
  by (auto simp: binop_type_def split: if_splits)

lemma strict_not_in:
  assumes "binop_type op a b = Some t"
  shows "op \<noteq> ''not in''" "op \<noteq> ''and''" "op \<noteq> ''or''" "op \<noteq> ''??''"
  using assms by (auto simp: binop_type_def split: if_splits)

lemma typed_eval:
  assumes "type_of G e = Some t" "env_ok G s" "cf_signal s = CF_NONE" "expr_height e < k"
  shows "run_matches (interp_eval L F k e s) s (expr_meaning (value_env s) e) t"
  using assms
proof (induction e arbitrary: t k)
  case (LitInt i)
  then show ?case by (cases k) (auto simp: eval_node_def sval_type_def split: if_splits)
next
  case (LitBool b)
  then show ?case by (cases k) (auto simp: eval_node_def sval_type_def)
next
  case (Ident x)
  then obtain v where "env_get (frames s) x = Some v" "has_type v t" by (auto simp: env_ok_def)
  then show ?case using Ident has_type_denotes [of v t]
    by (cases k) (auto simp: eval_node_def value_env_def)
next
  case (Binop op l r)
  obtain j where k: "k = Suc j" using Binop.prems(4) by (cases k) auto
  obtain a b where ab: "type_of G l = Some a" "type_of G r = Some b" "binop_type op a b = Some t"
    using Binop.prems(1) by (auto split: option.splits)
  let ?ev = "interp_eval L F j"
  have l: "run_matches (?ev l s) s (expr_meaning (value_env s) l) a"
    and r: "run_matches (?ev r s) s (expr_meaning (value_env s) r) b"
    using Binop.IH Binop.prems ab k by simp_all
  have run: "interp_eval L F k (Binop op l r) s = eval_binop L F ?ev op l r s"
    using Binop.prems(3) by (simp add: k eval_node_def)
  show ?case
  proof (cases "op \<in> {''&&'', ''||''}")
    case True
    have quiet: "cf_signal s' \<noteq> CF_NONE \<Longrightarrow> ?ev r s' = Some (VNull, s')" for s'
      using Binop.prems(4) k by (intro interp_eval_quiet) auto
    have types: "a = TBool" "b = TBool" "t = TBool"
      using binop_type_logic [OF ab(3)] True by auto
    note both = logic_matches [OF l [unfolded types] r [unfolded types] quiet, of L F]
    show ?thesis
      using True both unfolding run types by (elim insertE) simp_all
  next
    case False
    have "run_matches (operands ?ev l r (\<lambda>v w s2. out_result s2 (eval_strict L F op v w)) s) s
      (then_mean (expr_meaning (value_env s) l)
        (\<lambda>v. then_mean (expr_meaning (value_env s) r) (strict_meaning op v))) t"
      using l r Binop.prems(3)
    proof (rule operands_matches)
      fix v w m n
      assume mn: "denotes v m" "denotes w n" "sval_type m = a" "sval_type n = b"
      then show "run_matches (out_result s (eval_strict L F op v w)) s (strict_meaning op m n) t"
        using eval_strict_matches [OF mn(1,2), of op t L F] strict_meaning_type [of op m n _ t] ab(3) False
        by (intro out_result_matches) auto
    qed
    then show ?thesis
      using strict_not_in [OF ab(3)] False unfolding run by (simp add: eval_binop_def)
  qed
next
  case (Unary op e)
  obtain j where k: "k = Suc j" using Unary.prems(4) by (cases k) auto
  obtain a where a: "type_of G e = Some a" "unary_type op a = Some t"
    using Unary.prems(1) by (auto split: option.splits)
  have e: "run_matches (interp_eval L F j e s) s (expr_meaning (value_env s) e) a"
    using Unary.IH Unary.prems a k by simp
  have run: "interp_eval L F k (Unary op e) s =
      (case interp_eval L F j e s of None \<Rightarrow> None | Some (v, s1) \<Rightarrow> out_result s1 (eval_unary F op v))"
    using Unary.prems(3) by (simp add: k eval_node_def)
  have op: "op = ''-'' \<and> t = TInt \<or> op = ''!'' \<and> t = TBool"
    using a(2) by (auto simp: unary_type_def split: if_splits)
  show ?case
  proof (cases "expr_meaning (value_env s) e")
    case (Means m)
    then obtain v where v: "interp_eval L F j e s = Some (v, s)" "denotes v m" "sval_type m = a"
      using e by auto
    have "sval_type m = TInt \<Longrightarrow> t = TInt" "sval_type m = TBool \<Longrightarrow> t = TBool"
      using a(2) v(3) by (auto simp: unary_type_def split: if_splits)
    then show ?thesis
      using out_result_matches [OF eval_unary_matches [OF v(2), of op t F], of t s] a(2) v Means unfolding run
      by (cases m) simp_all
  next
    case Throws
    then show ?thesis
      using e op unfolding run by (auto simp: eval_unary_def op_simps)
  next
    case Undefined
    then show ?thesis using e unfolding run by simp
  qed
qed simp_all

section \<open>Rewriting typed expressions\<close>

definition typed_env :: "(string \<times> ty) list \<Rightarrow> (string \<Rightarrow> sval) \<Rightarrow> bool" where
  "typed_env G \<rho> \<longleftrightarrow> (\<forall>x t. map_of G x = Some t \<longrightarrow> sval_type (\<rho> x) = t)"

lemma typed_env_value_env: "env_ok G s \<Longrightarrow> typed_env G (value_env s)"
  using has_type_denotes by (fastforce simp: env_ok_def typed_env_def value_env_def)

text \<open>The new expression has the type and, where the old one has a value, its value.\<close>

definition improves :: "(string \<times> ty) list \<Rightarrow> (string \<Rightarrow> sval) \<Rightarrow> ty \<Rightarrow> node \<Rightarrow> node \<Rightarrow> bool" where
  "improves G \<rho> t e e' \<longleftrightarrow>
     type_of G e' = Some t \<and> expr_height e' \<le> expr_height e \<and>
     (\<forall>v. expr_meaning \<rho> e = Means v \<longrightarrow> expr_meaning \<rho> e' = Means v)"

lemma improves_refl: "type_of G e = Some t \<Longrightarrow> improves G \<rho> t e e"
  by (simp add: improves_def)

lemma improves_trans: "improves G \<rho> t e e1 \<Longrightarrow> improves G \<rho> t e1 e2 \<Longrightarrow> improves G \<rho> t e e2"
  by (auto simp: improves_def)

lemma then_mean_Means: "then_mean m f = Means v \<longleftrightarrow> (\<exists>w. m = Means w \<and> f w = Means v)"
  by (cases m) auto

lemma improves_binop:
  assumes "improves G \<rho> a l l'" "improves G \<rho> b r r'" "binop_type op a b = Some t"
  shows "improves G \<rho> t (Binop op l r) (Binop op l' r')"
proof -
  let ?f = "\<lambda>r v. if op = ''&&'' then (if v = SBool True then expr_meaning \<rho> r else Means v)
       else if op = ''||'' then (if v = SBool True then Means v else expr_meaning \<rho> r)
       else then_mean (expr_meaning \<rho> r) (strict_meaning op v)"
  have step: "?f r w = Means v \<Longrightarrow> ?f r' w = Means v" for v w
    using assms(2) by (cases "op = ''&&''"; cases "op = ''||''") (auto simp: improves_def then_mean_Means)
  have "expr_meaning \<rho> (Binop op l' r') = Means v" if "expr_meaning \<rho> (Binop op l r) = Means v" for v
  proof -
    have "\<exists>w. expr_meaning \<rho> l = Means w \<and> ?f r w = Means v"
      using that by (simp only: expr_meaning.simps then_mean_Means)
    then obtain w where "expr_meaning \<rho> l = Means w" "?f r w = Means v" by blast
    then show ?thesis
      using step [of w v] assms(1) by (simp add: improves_def)
  qed
  then show ?thesis
    using assms max.mono [of "expr_height l'" "expr_height l" "expr_height r'" "expr_height r"]
    by (simp add: improves_def del: expr_meaning.simps)
qed

lemma improves_unary:
  assumes "improves G \<rho> a e e'" "unary_type op a = Some t"
  shows "improves G \<rho> t (Unary op e) (Unary op e')"
  using assms unfolding improves_def by (auto simp: then_mean_Means)

lemma meaning_type:
  assumes "typed_env G \<rho>" "type_of G e = Some t" "expr_meaning \<rho> e = Means v"
  shows "sval_type v = t"
  using assms(2,3)
proof (induction e arbitrary: t v)
  case (Ident x)
  then show ?case using assms(1) by (auto simp: typed_env_def)
next
  case (Binop op l r)
  obtain a b where ab: "type_of G l = Some a" "type_of G r = Some b" "binop_type op a b = Some t"
    using Binop.prems(1) by (auto split: option.splits)
  obtain m where m: "expr_meaning \<rho> l = Means m" using Binop.prems(2) by (auto simp: then_mean_Means)
  have tm: "sval_type m = a" using Binop.IH(1) ab m by blast
  show ?case
  proof (cases "op \<in> {''&&'', ''||''}")
    case True
    then have "a = TBool \<and> b = TBool \<and> t = TBool" using binop_type_logic [OF ab(3)] by auto
    then show ?thesis using True Binop tm ab m by (auto split: if_splits)
  next
    case False
    then obtain n where n: "expr_meaning \<rho> r = Means n" "strict_meaning op m n = Means v"
      using Binop.prems(2) m by (auto simp: then_mean_Means)
    then show ?thesis
      using strict_meaning_type [of op m n v t] Binop.IH(2) ab tm False by auto
  qed
next
  case (Unary op e)
  obtain a m where "type_of G e = Some a" "unary_type op a = Some t" "expr_meaning \<rho> e = Means m"
    "v = (case m of SInt i \<Rightarrow> SInt (- i) | SBool b \<Rightarrow> SBool (\<not> b))"
    using Unary.prems by (auto simp: then_mean_Means split: option.splits sval.splits)
  moreover from this have "sval_type m = a" using Unary.IH by blast
  ultimately show ?case by (cases m) (auto simp: unary_type_def split: if_splits)
qed (auto split: if_splits)

lemma expr_equal_typed:
  assumes "expr_equal l r" "type_of G l \<noteq> None"
  shows "l = r"
  using assms
proof (induction l arbitrary: r)
  case (Binop op l1 l2)
  then show ?case by (cases r) (auto split: option.splits)
next
  case (Unary op l)
  then show ?case by (cases r) (auto split: option.splits)
qed (auto split: node.splits if_splits)

section \<open>Folding\<close>

lemma const_val_int: "const_val e = CV_INT i \<longleftrightarrow> e = LitInt i"
  by (cases e) auto

lemma const_val_bool: "const_val e = CV_BOOL b \<longleftrightarrow> e = LitBool b"
  by (cases e) auto

lemma typed_const:
  assumes "type_of G e = Some t"
  shows "const_val e = CV_NONE \<or> (\<exists>i. e = LitInt i \<and> t = TInt \<and> in_i64 i) \<or> (\<exists>b. e = LitBool b \<and> t = TBool)"
  using assms by (cases e) (auto split: if_splits)

lemma fold_int_meaning:
  assumes "in_i64 i" "in_i64 j" "fold_int F op i j = Some (Some k)" "binop_type op TInt TInt = Some t"
  shows "t = TInt \<and> in_i64 k \<and> op \<notin> {''&&'', ''||''} \<and> (\<forall>v. ints_meaning op i j = Means v \<longrightarrow> v = SInt k)"
proof -
  have "op \<in> {''+'', ''-'', ''*'', ''/'', ''%''}"
    using assms(3,4) by (auto simp: binop_type_def fold_int_def split: if_splits)
  then show ?thesis
    using assms c_mod_in_i64 [OF _ assms(2)] assms(1)
    by (elim insertE) (auto simp: fold_int_def binop_type_def ints_meaning_def i64_chk_def split: if_splits)
qed

lemma fold_int_cmp_meaning:
  assumes "fold_int_cmp op i j = Some b" "binop_type op TInt TInt = Some t"
  shows "t = TBool \<and> op \<notin> {''&&'', ''||''} \<and> ints_meaning op i j = Means (SBool b)"
  using assms by (auto simp: fold_int_cmp_def binop_type_def ints_meaning_def split: if_splits)

lemma fold_consts_improves:
  assumes "type_of G (Binop op l r) = Some t" "fold_consts F op (const_val l) (const_val r) = Some (Some e')"
  shows "improves G \<rho> t (Binop op l r) e'"
proof -
  obtain a b where ab: "type_of G l = Some a" "type_of G r = Some b" "binop_type op a b = Some t"
    using assms(1) by (auto split: option.splits)
  consider i j where "l = LitInt i" "r = LitInt j" "in_i64 i" "in_i64 j" "a = TInt" "b = TInt"
    | p q where "l = LitBool p" "r = LitBool q" "a = TBool" "b = TBool"
    using typed_const [OF ab(1)] typed_const [OF ab(2)] assms(2) by (auto simp: fold_consts_def)
  then show ?thesis
  proof cases
    case 1
    then show ?thesis
      using assms(2) ab(3) fold_int_meaning [of i j F op _ t] fold_int_cmp_meaning [of op i j _ t]
      by (auto simp: fold_consts_def improves_def split: option.splits)
  next
    case 2
    then have "op \<in> {''=='', ''!='', ''&&'', ''||''}" "t = TBool"
      using ab(3) by (auto simp: binop_type_def split: if_splits)
    then show ?thesis
      using assms(2) 2 by (elim insertE) (auto simp: fold_consts_def fold_bool_def improves_def split: if_splits)
  qed
qed

lemma int_strict_Means:
  assumes "typed_env G \<rho>" "type_of G l = Some TInt" "type_of G r = Some TInt" "op \<notin> {''&&'', ''||''}"
    and "expr_meaning \<rho> (Binop op l r) = Means v"
  obtains x y where "expr_meaning \<rho> l = Means (SInt x)" "expr_meaning \<rho> r = Means (SInt y)" "ints_meaning op x y = Means v"
proof -
  obtain m n where mn: "expr_meaning \<rho> l = Means m" "expr_meaning \<rho> r = Means n" "strict_meaning op m n = Means v"
    using assms(4,5) by (auto simp: then_mean_Means)
  moreover have "sval_type m = TInt" "sval_type n = TInt"
    using meaning_type [OF assms(1)] assms(2,3) mn by blast+
  ultimately show thesis using that by (cases m; cases n) auto
qed

text \<open>An integer operation replaced by an expression of the value it has where it has one.\<close>

lemma improves_int:
  assumes "typed_env G \<rho>" "type_of G (Binop op l r) = Some TInt"
    and "type_of G e' = Some TInt" "expr_height e' \<le> expr_height (Binop op l r)"
    and "\<And>x y v. \<lbrakk>expr_meaning \<rho> l = Means (SInt x); expr_meaning \<rho> r = Means (SInt y); ints_meaning op x y = Means v\<rbrakk>
      \<Longrightarrow> expr_meaning \<rho> e' = Means v"
  shows "improves G \<rho> TInt (Binop op l r) e'"
proof -
  obtain a b where ab: "type_of G l = Some a" "type_of G r = Some b" "binop_type op a b = Some TInt"
    using assms(2) by (auto split: option.splits)
  have "op \<notin> {''&&'', ''||''}" and t: "a = TInt" "b = TInt"
    using ab(3) by (auto simp: binop_type_def split: if_splits)
  then have "expr_meaning \<rho> e' = Means v" if "expr_meaning \<rho> (Binop op l r) = Means v" for v
    using int_strict_Means [OF assms(1) ab(1,2) [unfolded t] _ that] assms(5) by metis
  then show ?thesis
    using assms(3,4) by (simp add: improves_def del: expr_meaning.simps expr_height.simps)
qed

lemma c_div_one: "c_div x 1 = x"
  by (simp add: c_div_def sgn_if)

lemma fold_identity_ops:
  "fold_identity ''+'' l r = (if r = LitInt 0 then l else if l = LitInt 0 then r else Binop ''+'' l r)"
  "fold_identity ''-'' l r = (if r = LitInt 0 then l else Binop ''-'' l r)"
  "fold_identity ''*'' l r =
     (if r = LitInt 1 then l else if l = LitInt 1 then r
      else if r = LitInt 0 \<or> l = LitInt 0 then LitInt 0 else Binop ''*'' l r)"
  "fold_identity ''/'' l r = (if r = LitInt 1 then l else Binop ''/'' l r)"
  by (simp_all add: fold_identity_def Let_def const_val_int)

lemma ints_meaning_identity:
  "ints_meaning ''+'' x 0 = Means (SInt x)" "ints_meaning ''+'' 0 x = Means (SInt x)"
  "ints_meaning ''-'' x 0 = Means (SInt x)" "ints_meaning ''*'' x 1 = Means (SInt x)"
  "ints_meaning ''*'' 1 x = Means (SInt x)" "ints_meaning ''*'' x 0 = Means (SInt 0)"
  "ints_meaning ''*'' 0 x = Means (SInt 0)" "ints_meaning ''/'' x 1 = Means (SInt x)"
  by (simp_all add: ints_meaning_def c_div_one i64_defs)

lemma fold_identity_cases:
  assumes "op \<in> {''+'', ''-'', ''*'', ''/''}"
  shows "fold_identity op l r = Binop op l r \<or>
    (\<exists>y. fold_identity op l r = l \<and> r = LitInt y \<and> (\<forall>x. ints_meaning op x y = Means (SInt x))) \<or>
    (\<exists>x. fold_identity op l r = r \<and> l = LitInt x \<and> (\<forall>y. ints_meaning op x y = Means (SInt y))) \<or>
    fold_identity op l r = LitInt 0 \<and> op = ''*'' \<and> (l = LitInt 0 \<or> r = LitInt 0)"
  using assms
  by (elim insertE; cases "r = LitInt 0"; cases "l = LitInt 0"; cases "r = LitInt 1"; cases "l = LitInt 1")
    (simp_all add: fold_identity_ops ints_meaning_identity)

lemma fold_identity_improves:
  assumes env: "typed_env G \<rho>" and ty: "type_of G (Binop op l r) = Some t"
  shows "improves G \<rho> t (Binop op l r) (fold_identity op l r)"
proof -
  obtain a b where ab: "type_of G l = Some a" "type_of G r = Some b" "binop_type op a b = Some t"
    using ty by (auto split: option.splits)
  show ?thesis
  proof (cases "op \<in> {''+'', ''-'', ''*'', ''/''}")
    case False
    moreover have "op \<noteq> ''**''" using ab(3) by (auto simp: binop_type_def split: if_splits)
    ultimately show ?thesis
      using improves_refl [OF ty] by (simp add: fold_identity_def Let_def)
  next
    case True
    then have t: "a = TInt" "b = TInt" "t = TInt"
      using ab(3) by (auto simp: binop_type_def split: if_splits)
    consider (same) "fold_identity op l r = Binop op l r"
      | (left) y where "fold_identity op l r = l" "r = LitInt y" "\<forall>x. ints_meaning op x y = Means (SInt x)"
      | (right) x where "fold_identity op l r = r" "l = LitInt x" "\<forall>y. ints_meaning op x y = Means (SInt y)"
      | (zero) "fold_identity op l r = LitInt 0" "op = ''*''" "l = LitInt 0 \<or> r = LitInt 0"
      using fold_identity_cases [OF True] by blast
    then show ?thesis
      unfolding t
    proof cases
      case same
      then show "improves G \<rho> TInt (Binop op l r) (fold_identity op l r)"
        using improves_refl [OF ty] t by simp
    next
      case left
      then show "improves G \<rho> TInt (Binop op l r) (fold_identity op l r)"
        using ab t by (intro improves_int [OF env ty [unfolded t]]) auto
    next
      case right
      then show "improves G \<rho> TInt (Binop op l r) (fold_identity op l r)"
        using ab t by (intro improves_int [OF env ty [unfolded t]]) auto
    next
      case zero
      then show "improves G \<rho> TInt (Binop op l r) (fold_identity op l r)"
        by (intro improves_int [OF env ty [unfolded t]]) (auto simp: ints_meaning_identity)
    qed
  qed
qed

lemma improves_intro:
  assumes "type_of G e' = Some t" "expr_height e' \<le> expr_height e"
    and "\<And>v. expr_meaning \<rho> e = Means v \<Longrightarrow> expr_meaning \<rho> e' = Means v"
  shows "improves G \<rho> t e e'"
  using assms by (simp add: improves_def)

lemma fold_binop_improves:
  assumes "typed_env G \<rho>" "type_of G (Binop op l r) = Some t" "fold_binop F op l r = Some e'"
  shows "improves G \<rho> t (Binop op l r) e'"
  using assms fold_consts_improves [OF assms(2), of F e'] fold_identity_improves [OF assms(1,2)]
  by (auto simp: fold_binop_def split: option.splits)

lemma fold_unary_improves:
  assumes "type_of G (Unary op e) = Some t" "fold_unary F op e = Some e'"
  shows "improves G \<rho> t (Unary op e) e'"
proof -
  obtain a where a: "type_of G e = Some a" "unary_type op a = Some t"
    using assms(1) by (auto split: option.splits)
  consider "const_val e = CV_NONE" | i where "e = LitInt i" | b where "e = LitBool b"
    using typed_const [OF a(1)] by blast
  then show ?thesis
  proof cases
    case 1
    then show ?thesis using assms improves_refl [OF assms(1)] by (simp add: fold_unary_def)
  next
    case 2
    then show ?thesis
      using assms(2) a by (auto simp: fold_unary_def unary_type_def improves_def i64_chk_def split: if_splits)
  next
    case 3
    then show ?thesis
      using assms(2) a by (auto simp: fold_unary_def unary_type_def improves_def split: if_splits)
  qed
qed

lemma opt_constant_fold_improves:
  assumes "typed_env G \<rho>" "type_of G e = Some t" "opt_constant_fold F e = Some e'"
  shows "improves G \<rho> t e e'"
  using assms(2,3)
proof (induction e arbitrary: t e')
  case (Binop op l r)
  obtain a b where ab: "type_of G l = Some a" "type_of G r = Some b" "binop_type op a b = Some t"
    using Binop.prems(1) by (auto split: option.splits)
  obtain l' r' where new: "opt_constant_fold F l = Some l'" "opt_constant_fold F r = Some r'" "fold_binop F op l' r' = Some e'"
    using Binop.prems(2) by (auto split: option.splits)
  have step: "improves G \<rho> t (Binop op l r) (Binop op l' r')"
    using Binop.IH ab new by (intro improves_binop) auto
  then have "type_of G (Binop op l' r') = Some t"
    unfolding improves_def by blast
  then show ?case
    using improves_trans [OF step fold_binop_improves [OF assms(1) _ new(3)]] by blast
next
  case (Unary op x)
  obtain a where a: "type_of G x = Some a" "unary_type op a = Some t"
    using Unary.prems(1) by (auto split: option.splits)
  obtain x' where new: "opt_constant_fold F x = Some x'" "fold_unary F op x' = Some e'"
    using Unary.prems(2) by (auto split: option.splits)
  have step: "improves G \<rho> t (Unary op x) (Unary op x')"
    using Unary.IH a new by (intro improves_unary) auto
  then have "type_of G (Unary op x') = Some t"
    unfolding improves_def by blast
  then show ?case
    using improves_trans [OF step fold_unary_improves [OF _ new(2)]] by blast
qed (auto simp: walk_opt_def intro!: improves_refl split: if_splits)

section \<open>Simplification\<close>

lemma c_div_self: "x \<noteq> 0 \<Longrightarrow> c_div x x = 1"
  by (simp add: c_div_def sgn_if)

lemma expr_equal_refl: "type_of G e \<noteq> None \<Longrightarrow> expr_equal e e"
  by (induction e) (auto split: option.splits)

lemma algebraic_typed:
  assumes "type_of G l = Some a" "type_of G r = Some b"
  shows "algebraic_binop op l r =
     (if op = ''-'' \<and> is_pure l \<and> l = r then LitInt 0
      else if op = ''/'' \<and> is_pure l \<and> l = r \<and> known_nonzero l then LitInt 1
      else if op = ''&&'' \<and> r = LitBool True then l
      else if op = ''&&'' \<and> l = LitBool True then r
      else if op = ''&&'' \<and> r = LitBool False then LitBool False
      else if op = ''&&'' \<and> l = LitBool False then LitBool False
      else if op = ''||'' \<and> r = LitBool False then l
      else if op = ''||'' \<and> l = LitBool False then r
      else if op = ''||'' \<and> r = LitBool True then LitBool True
      else if op = ''||'' \<and> l = LitBool True then LitBool True
      else Binop op l r)"
proof -
  have eq: "expr_equal l r \<longleftrightarrow> l = r"
    using expr_equal_typed [of l r G] expr_equal_refl [of G l] assms by auto
  have no: "is_float_lit (const_val e) f = False" "(const_val e = CV_STRING s) = False" if "type_of G e = Some t" for e t f s
    using typed_const [OF that] by (auto simp: is_float_lit_def)
  show ?thesis
    unfolding algebraic_binop_def Let_def const_val_bool eq
    by (simp only: no [OF assms(1)] no [OF assms(2)] simp_thms if_False)
qed

lemma both_bool_Means:
  assumes "typed_env G \<rho>" "type_of G l = Some TBool" "type_of G r = Some TBool"
    and "expr_meaning \<rho> (Binop op l r) = Means v" "op = ''&&'' \<or> op = ''||''"
  shows "\<exists>p. expr_meaning \<rho> l = Means (SBool p) \<and>
    (op = ''&&'' \<longrightarrow> (if p then expr_meaning \<rho> r = Means v else v = SBool False)) \<and>
    (op = ''||'' \<longrightarrow> (if p then v = SBool True else expr_meaning \<rho> r = Means v))"
proof -
  obtain m where m: "expr_meaning \<rho> l = Means m"
    using assms(4) unfolding expr_meaning.simps then_mean_Means by blast
  then obtain p where p: "m = SBool p" using meaning_type [OF assms(1,2) m] by (cases m) auto
  show ?thesis
    using assms(5,4) m unfolding p by (intro exI [of _ p]) (elim disjE; cases p; simp)
qed

lemma algebraic_binop_improves:
  assumes env: "typed_env G \<rho>" and ty: "type_of G (Binop op l r) = Some t"
  shows "improves G \<rho> t (Binop op l r) (algebraic_binop op l r)"
proof -
  obtain a b where ab: "type_of G l = Some a" "type_of G r = Some b" "binop_type op a b = Some t"
    using ty by (auto split: option.splits)
  note shape = algebraic_typed [OF ab(1,2), of op]
  consider (other) "op \<notin> {''-'', ''/'', ''&&'', ''||''}" | (arith) "op = ''-'' \<or> op = ''/''" | (logic) "op = ''&&'' \<or> op = ''||''"
    by auto
  then show ?thesis
  proof cases
    case other
    then have "algebraic_binop op l r = Binop op l r" unfolding shape by simp
    then show ?thesis using improves_refl [OF ty] by simp
  next
    case arith
    then have t: "t = TInt" using ab(3) by (auto simp: binop_type_def split: if_splits)
    show ?thesis
    proof (cases "algebraic_binop op l r = Binop op l r")
      case False
      then have lr: "l = r" "algebraic_binop op l r = LitInt (if op = ''-'' then 0 else 1)"
        using arith unfolding shape by (auto split: if_splits)
      show ?thesis
        unfolding t lr(2) using arith lr(1) ty t
        by (intro improves_int [OF env])
          (auto simp: ints_meaning_def c_div_self i64_defs split: if_splits)
    qed (use improves_refl [OF ty] in simp)
  next
    case logic
    then have t: "a = TBool" "b = TBool" "t = TBool" using binop_type_logic [OF ab(3)] by auto
    show ?thesis
    proof (rule improves_intro)
      show "type_of G (algebraic_binop op l r) = Some t" "expr_height (algebraic_binop op l r) \<le> expr_height (Binop op l r)"
        using ab logic unfolding t shape by (elim disjE; simp)+
      fix v assume v: "expr_meaning \<rho> (Binop op l r) = Means v"
      obtain p where "expr_meaning \<rho> l = Means (SBool p)"
        "op = ''&&'' \<longrightarrow> (if p then expr_meaning \<rho> r = Means v else v = SBool False)"
        "op = ''||'' \<longrightarrow> (if p then v = SBool True else expr_meaning \<rho> r = Means v)"
        using both_bool_Means [OF env ab(1,2) [unfolded t] v logic] by blast
      then show "expr_meaning \<rho> (algebraic_binop op l r) = Means v"
        using logic v unfolding shape by (elim disjE; cases p) auto
    qed
  qed
qed

lemma algebraic_unary_improves:
  assumes "typed_env G \<rho>" "type_of G (Unary op e) = Some t"
  shows "improves G \<rho> t (Unary op e) (algebraic_unary op e)"
proof (cases "\<exists>inner. e = Unary op inner \<and> op \<in> {''!'', ''-'', ''~''}")
  case True
  then obtain inner where e: "e = Unary op inner" "op \<in> {''!'', ''-'', ''~''}" by blast
  have "type_of G inner = Some t"
    using assms(2) e by (auto simp: unary_type_def split: option.splits if_splits)
  moreover have "expr_meaning \<rho> inner = Means v" if "expr_meaning \<rho> (Unary op e) = Means v" for v
    using that unfolding e by (cases "expr_meaning \<rho> inner") (auto split: sval.splits)
  ultimately show ?thesis
    using e by (simp add: algebraic_unary_def improves_def)
next
  case False
  then have "algebraic_unary op e = Unary op e"
    by (auto simp: algebraic_unary_def split: node.splits)
  then show ?thesis using improves_refl [OF assms(2)] by simp
qed

lemma opt_algebraic_simplify_improves:
  assumes "typed_env G \<rho>" "type_of G e = Some t"
  shows "improves G \<rho> t e (opt_algebraic_simplify e)"
  using assms(2)
proof (induction e arbitrary: t)
  case (Binop op l r)
  obtain a b where ab: "type_of G l = Some a" "type_of G r = Some b" "binop_type op a b = Some t"
    using Binop.prems by (auto split: option.splits)
  have step: "improves G \<rho> t (Binop op l r) (Binop op (opt_algebraic_simplify l) (opt_algebraic_simplify r))"
    using Binop.IH ab by (intro improves_binop) auto
  then have "type_of G (Binop op (opt_algebraic_simplify l) (opt_algebraic_simplify r)) = Some t"
    unfolding improves_def by blast
  then show ?case
    using improves_trans [OF step algebraic_binop_improves [OF assms(1)]] by simp
next
  case (Unary op x)
  obtain a where a: "type_of G x = Some a" "unary_type op a = Some t"
    using Unary.prems by (auto split: option.splits)
  have step: "improves G \<rho> t (Unary op x) (Unary op (opt_algebraic_simplify x))"
    using Unary.IH a by (intro improves_unary) auto
  then have "type_of G (Unary op (opt_algebraic_simplify x)) = Some t"
    unfolding improves_def by blast
  then show ?case
    using improves_trans [OF step algebraic_unary_improves [OF assms(1)]] by simp
qed (auto intro!: improves_refl split: if_splits)

section \<open>Strength reduction\<close>

lemma log2_int_power: "log2_int (2 ^ k) = int k"
proof (induction k)
  case 0
  then show ?case by (subst log2_int.simps) simp
next
  case (Suc k)
  have "1 < (2::int) ^ Suc k" using one_less_power [of "2::int" "Suc k"] by simp
  moreover have "drop_bit 1 ((2::int) ^ Suc k) = 2 ^ k" by (simp add: drop_bit_eq_div)
  ultimately show ?case using Suc by (subst log2_int.simps) simp
qed

text \<open>The bit test finds exactly the powers of two.\<close>

lemma is_power2_iff: "is_power2 n \<longleftrightarrow> (\<exists>k. n = 2 ^ k)"
proof (cases "0 < n")
  case True
  then show ?thesis
  proof (induction "nat n" arbitrary: n rule: less_induct)
    case less
    show ?case
    proof (cases "even n")
      case True
      then obtain m where n: "n = 2 * m" by blast
      have minus_div: "(2 * m - 1) div 2 = m - 1" by presburger
      have "n AND (n - 1) = 2 * (m AND (m - 1))"
        using minus_div unfolding n by (subst and_rec) simp
      moreover have "(\<exists>k. 2 * m = 2 ^ k) \<longleftrightarrow> (\<exists>k. m = 2 ^ k)"
      proof
        assume "\<exists>k. 2 * m = 2 ^ k"
        then obtain k where k: "2 * m = 2 ^ k" ..
        moreover have "2 * m \<noteq> 1" by presburger
        ultimately show "\<exists>k. m = 2 ^ k" by (cases k) auto
      next
        assume "\<exists>k. m = 2 ^ k"
        then obtain k where "m = 2 ^ k" ..
        then have "2 * m = 2 ^ Suc k" by simp
        then show "\<exists>k. 2 * m = 2 ^ k" ..
      qed
      moreover have "is_power2 m \<longleftrightarrow> (\<exists>k. m = 2 ^ k)"
        using less.hyps [of m] less.prems n by simp
      ultimately show ?thesis
        using less.prems n by (simp add: is_power2_def)
    next
      case False
      then obtain m where n: "n = 2 * m + 1" using oddE by blast
      have "n AND (n - 1) = 2 * m"
        unfolding n by (subst and_rec) simp
      moreover have "(\<exists>k. n = 2 ^ k) \<longleftrightarrow> m = 0"
      proof
        assume "\<exists>k. n = 2 ^ k"
        then obtain k where "n = 2 ^ k" ..
        then show "m = 0" using n False by (cases k) auto
      qed (use n in \<open>auto intro: exI [of _ 0]\<close>)
      ultimately show ?thesis
        using less.prems by (simp add: is_power2_def)
    qed
  qed
next
  case False
  moreover have "n \<noteq> 2 ^ k" for k
    using False zero_less_power [of "2::int" k] by auto
  ultimately show ?thesis by (simp add: is_power2_def)
qed

lemma power2_of_iff: "power2_of v = Some k \<longleftrightarrow> (\<exists>j. v = CV_INT (2 ^ j) \<and> k = int j)"
  by (auto simp: power2_of_def is_power2_iff log2_int_power split: cval.splits if_splits)

lemma in_i64_power2: "in_i64 (2 ^ k) \<longleftrightarrow> k < 63"
proof -
  have "x \<le> 9223372036854775807 \<longleftrightarrow> x < 9223372036854775808" for x :: int by presburger
  then have "(2::int) ^ k \<le> 9223372036854775807 \<longleftrightarrow> (2::int) ^ k < 2 ^ 63" by simp
  moreover have "- 9223372036854775808 \<le> (2::int) ^ k"
    using zero_le_power [of "2::int" k] by linarith
  moreover have "(2::int) ^ k < 2 ^ 63 \<longleftrightarrow> k < 63"
    by (rule power_strict_increasing_iff) simp
  ultimately show ?thesis
    by (simp add: i64_defs)
qed

lemma i64_limbs: "length (limbs (bigint_from_i64 a)) \<le> 2"
  by (auto simp: bigint_from_i64_def limbs_of_u64_def Let_def)

text \<open>The interpreter's left shift promotes, so it multiplies exactly; but only below 64 places.\<close>

lemma shl_exact:
  assumes a: "in_i64 a" and b: "0 \<le> b" "b < 64"
  shows "matches (int_shl a b) (Means (SInt (a * 2 ^ nat b)))"
proof -
  define top where "top = drop_bit (nat (63 - b)) a"
  show ?thesis
  proof (cases "0 < b \<and> top \<noteq> 0 \<and> top \<noteq> -1")
    case True
    have "b < 32 * (2147483647 - int (length (limbs (bigint_from_i64 a))))"
      using b of_nat_mono [OF i64_limbs [of a], where 'a = int] by simp
    then obtain r where r: "bigint_shl (bigint_from_i64 a) b = Some r" "bi_wf r" "bi_val r = a * 2 ^ nat b"
      using shl_nonneg_correct [OF b(1), of "bigint_from_i64 a"] bigint_from_i64_correct [OF a] b(1)
      by (auto simp: bigint_shl_def)
    have "int_shl a b = num_out (Some (xs_bigint_val r))"
      using True b r by (simp add: int_shl_def top_def Let_def)
    then show ?thesis
      using r by (auto intro!: matches_num)
  next
    case False
    have "in_i64 (a * 2 ^ nat b)"
    proof (cases "b = 0")
      case True
      then show ?thesis using a by simp
    next
      case pos: False
      define n where "n = nat (63 - b)"
      have eq: "(2::int) ^ n * 2 ^ nat b = 9223372036854775808"
      proof -
        have "n + nat b = 63" using b pos by (simp add: n_def)
        then show ?thesis by (simp flip: power_add)
      qed
      have "a div 2 ^ n = 0 \<or> a div 2 ^ n = -1"
        using False pos b by (auto simp: top_def n_def drop_bit_eq_div)
      then have "a = a mod 2 ^ n \<or> a = a mod 2 ^ n - 2 ^ n"
        using div_mult_mod_eq [of a "2 ^ n"] by auto
      moreover have "0 \<le> a mod 2 ^ n" "a mod 2 ^ n < 2 ^ n" "0 < (2::int) ^ n" by simp_all
      ultimately have range: "- (2 ^ n) \<le> a" "a < 2 ^ n" by linarith+
      have p: "0 < (2::int) ^ nat b" by simp
      have "- (2 ^ n * 2 ^ nat b) \<le> a * 2 ^ nat b" "a * 2 ^ nat b < 2 ^ n * 2 ^ nat b"
        using mult_right_mono [OF range(1), of "2 ^ nat b"] mult_strict_right_mono [OF range(2) p] by simp_all
      then show ?thesis unfolding eq by (simp add: i64_defs)
    qed
    moreover have "int_shl a b = Ret (VInt (a * 2 ^ nat b))"
      using False b by (auto simp: int_shl_def top_def Let_def)
    ultimately show ?thesis by simp
  qed
qed

lemma shr_nonneg_exact:
  assumes "in_i64 a" "0 \<le> a" "0 \<le> b" "b < 64"
  shows "int_shr a b = Ret (VInt (c_div a (2 ^ nat b)))"
  using assms by (simp add: int_shr_def drop_bit_eq_div c_div_nonneg)

lemma and_one_exact:
  assumes "0 \<le> a"
  shows "a AND 1 = c_mod a 2"
  using assms by (simp add: and_one_eq c_mod_def c_div_nonneg minus_div_mult_eq_mod)

lemma c_div_floor_iff:
  assumes "0 < d"
  shows "c_div a d = a div d \<longleftrightarrow> 0 \<le> a \<or> d dvd a"
proof (cases "0 \<le> a")
  case True
  then show ?thesis using assms by (simp add: c_div_nonneg)
next
  case False
  then have "c_div a d = - (- a div d)" using assms by (simp add: c_div_neg_pos)
  then show ?thesis
    using False assms by (simp add: zdiv_zminus1_eq_if dvd_eq_mod_eq_0)
qed

lemma strict_ints:
  "eval_strict L F ''<<'' (VInt a) (VInt b) = int_shl a b"
  "eval_strict L F ''>>'' (VInt a) (VInt b) = int_shr a b"
  "eval_strict L F ''&'' (VInt a) (VInt b) = Ret (VInt (a AND b))"
  "eval_strict L F ''/'' (VInt a) (VInt b) = (if b = 0 then Raise ''division by zero'' else num_out (xs_int_of (c_div a b)))"
  "eval_strict L F ''%'' (VInt a) (VInt b) =
     (if b = 0 then Raise ''modulo by zero'' else if in_i64 (c_div a b) then Ret (VInt (c_mod a b)) else Undef)"
  "eval_strict L F ''*'' (VInt a) (VInt b) = num_out (xs_safe_mul a b)"
  by (simp_all add: eval_strict_def first_of_def number_binop_def as_int_def as_duration_def int_binop_def op_simps)

lemma matches_Means_unique: "matches o1 (Means m) \<Longrightarrow> matches o2 (Means m) \<Longrightarrow> o1 = o2"
  using denotes_unique by (auto simp: matches_def)

lemma strength_mul_exact:
  assumes "in_i64 a" "j < 63"
  shows "int_shl a (int j) = num_out (xs_safe_mul a (2 ^ j))"
proof -
  have "in_i64 ((2::int) ^ j)" using assms(2) in_i64_power2 by blast
  moreover have "(2::int) ^ j \<noteq> INT64_MIN" using zero_le_power [of "2::int" j] unfolding i64_defs by linarith
  ultimately have "matches (num_out (xs_safe_mul a (2 ^ j))) (Means (SInt (a * 2 ^ j)))"
    using safe_mul_meaning [OF assms(1), of "2 ^ j"] by (simp add: ints_meaning_def)
  then show ?thesis
    using shl_exact [OF assms(1), of "int j"] assms(2) matches_Means_unique by simp
qed

lemma strength_div_exact:
  assumes "in_i64 a" "j < 63"
  shows "int_shr a (int j) = num_out (xs_int_of (c_div a (2 ^ j))) \<longleftrightarrow> 0 \<le> a \<or> 2 ^ j dvd a"
proof -
  have p: "0 < (2::int) ^ j" "in_i64 ((2::int) ^ j)" using assms(2) in_i64_power2 by simp_all
  have "in_i64 (c_div a (2 ^ j))"
    using div_fits [OF assms(1) p(2)] p(1) by auto
  then show ?thesis
    using assms(2) c_div_floor_iff [OF p(1), of a] by (auto simp: int_shr_def xs_int_of_eq drop_bit_eq_div)
qed

lemma strength_mod_exact: "a AND 1 = c_mod a 2 \<longleftrightarrow> 0 \<le> a \<or> even a"
  using c_div_floor_iff [of 2 a] by (auto simp: and_one_eq c_mod_def minus_div_mult_eq_mod [symmetric])

end
