(* ===== verification/XDeadCode.thy ===== *)
theory XDeadCode
  imports XInterp XOptimize
begin

text \<open>
  The interpreter is monotone in its fuel, and dead code elimination keeps every run of a program: each
  construct is shown once to carry a run over to its rewritten parts.
\<close>

section \<open>Carrying runs over\<close>

text \<open>What \<open>ev\<close> does on a node that satisfies \<open>P\<close>, \<open>ev'\<close> does on its image.\<close>

definition carries :: "(node \<Rightarrow> bool) \<Rightarrow> (node \<Rightarrow> node) \<Rightarrow> evaluator \<Rightarrow> evaluator \<Rightarrow> bool" where
  "carries P f ev ev' \<longleftrightarrow> (\<forall>n s r. P n \<longrightarrow> ev n s = Some r \<longrightarrow> ev' (f n) s = Some r)"

abbreviation carries_all :: "evaluator \<Rightarrow> evaluator \<Rightarrow> bool" where
  "carries_all \<equiv> carries (\<lambda>n. True) (\<lambda>n. n)"

lemma carriesD: "carries P f ev ev' \<Longrightarrow> P n \<Longrightarrow> ev n s = Some r \<Longrightarrow> ev' (f n) s = Some r"
  unfolding carries_def by blast

lemma carries_eval_opt:
  assumes "carries P f ev ev'" "eval_opt ev no s = Some r" "\<And>n. no = Some n \<Longrightarrow> P n"
  shows "eval_opt ev' (map_option f no) s = Some r"
  using assms carriesD [OF assms(1)] by (cases no) (auto simp: eval_opt_def)

lemma carries_branches:
  assumes "carries P f ev ev'"
  shows "eval_branches ev cs ts els s = Some r \<Longrightarrow> list_all P cs \<Longrightarrow> list_all P ts \<Longrightarrow> (\<And>n. els = Some n \<Longrightarrow> P n) \<Longrightarrow>
    eval_branches ev' (map f cs) (map f ts) (map_option f els) s = Some r"
proof (induction cs ts arbitrary: s rule: list_induct2')
  case (4 c cs t ts)
  obtain v s1 where c: "ev c s = Some (v, s1)" using 4(2) by (auto split: option.splits)
  then have "ev' (f c) s = Some (v, s1)" using 4(3) carriesD [OF assms] by simp
  then show ?case
    using 4 c carriesD [OF assms, of t] by (auto split: if_splits)
qed (auto intro: carries_eval_opt [OF assms])

lemma carries_while:
  assumes "carries P f ev ev'" "P cond" "P body"
  shows "run_while k ev label cond body v s = Some r \<Longrightarrow> k \<le> k' \<Longrightarrow>
    run_while k' ev' label (f cond) (f body) v s = Some r"
proof (induction k arbitrary: k' v s)
  case (Suc k)
  obtain j where k': "k' = Suc j" "k \<le> j" using Suc.prems(2) by (cases k') auto
  obtain c s1 where c: "ev cond s = Some (c, s1)" using Suc.prems(1) by (auto split: option.splits)
  then have c': "ev' (f cond) s = Some (c, s1)" using carriesD [OF assms(1,2)] by simp
  show ?case
  proof (cases "value_truthy c")
    case True
    then obtain w s2 where b: "ev body s1 = Some (w, s2)"
      using Suc.prems(1) c by (auto split: option.splits)
    then have "ev' (f body) s1 = Some (w, s2)" using carriesD [OF assms(1,3)] by simp
    then show ?thesis
      using Suc.prems(1) Suc.IH [OF _ k'(2)] c c' b True unfolding k'(1) by (auto split: if_splits)
  next
    case False
    then show ?thesis using Suc.prems(1) c c' unfolding k'(1) by simp
  qed
qed simp

section \<open>Statements\<close>

lemma carries_exec_node:
  assumes "carries P f ev ev'" "exec_node ev n s = Some s'" "list_all P (children n)"
  shows "exec_node ev' (walk f n) s = Some s'"
  using assms(2,3) carriesD [OF assms(1)]
  by (cases n) (auto simp: exec_node_def eval_opt_def split: option.splits if_splits)

text \<open>A statement is carried over by its parts, any other node as a whole.\<close>

definition carried :: "(node \<Rightarrow> bool) \<Rightarrow> (node \<Rightarrow> node) \<Rightarrow> node \<Rightarrow> bool" where
  "carried P f n \<longleftrightarrow>
     (if is_statement n then f n = walk f n \<and> list_all P (children n) else P n \<and> \<not> is_statement (f n))"

lemma walk_statement [simp]: "is_statement (walk f n) = is_statement n"
  by (cases n) (simp_all add: is_statement_def)

lemma carries_exec:
  assumes "carries P f ev ev'" "interp_exec ev n s = Some s'" "carried P f n"
  shows "interp_exec ev' (f n) s = Some s'"
proof (cases "is_statement n")
  case True
  then have "f n = walk f n" "list_all P (children n)" using assms(3) by (simp_all add: carried_def)
  then show ?thesis
    using assms(2) carries_exec_node [OF assms(1)] True
    by (auto simp: interp_exec_def split: if_splits)
next
  case False
  then show ?thesis
    using assms(2,3) carriesD [OF assms(1)] by (auto simp: interp_exec_def carried_def split: if_splits)
qed

lemma carries_exec_all:
  assumes "carries P f ev ev'"
  shows "exec_all ev ns s = Some s' \<Longrightarrow> list_all (carried P f) ns \<Longrightarrow> exec_all ev' (map f ns) s = Some s'"
proof (induction ns arbitrary: s)
  case (Cons n ns)
  obtain s1 where n: "interp_exec ev n s = Some s1" using Cons.prems(1) by (auto split: option.splits)
  then have "interp_exec ev' (f n) s = Some s1" using carries_exec [OF assms] Cons.prems(2) by simp
  then show ?case using Cons n by (auto split: if_splits)
qed simp

lemma carries_loop:
  assumes "carries P f ev ev'" "carried P f body"
  shows "run_loop k ev label body s = Some r \<Longrightarrow> k \<le> k' \<Longrightarrow> run_loop k' ev' label (f body) s = Some r"
proof (induction k arbitrary: k' s)
  case (Suc k)
  obtain j where k': "k' = Suc j" "k \<le> j" using Suc.prems(2) by (cases k') auto
  obtain s1 where b: "interp_exec ev body s = Some s1" using Suc.prems(1) by (auto split: option.splits)
  then have "interp_exec ev' (f body) s = Some s1" using carries_exec [OF assms(1) _ assms(2)] by simp
  then show ?case
    using Suc.prems(1) Suc.IH [OF _ k'(2)] b unfolding k'(1) by (auto split: if_splits)
qed simp

section \<open>Fuel\<close>

lemma walk_id [simp]: "walk (\<lambda>n. n) n = n"
  by (cases n) (simp_all add: option.map_ident)

lemma carried_id [simp]: "carried (\<lambda>n. True) (\<lambda>n. n) n"
  by (simp add: carried_def list_all_iff)

lemma mono_operands:
  assumes "carries_all ev ev'" "operands ev l r f s = Some x" "\<And>a b s x. f a b s = Some x \<Longrightarrow> f' a b s = Some x"
  shows "operands ev' l r f' s = Some x"
  using assms(2) carriesD [OF assms(1)] assms(3)
  by (cases x) (auto simp: operands_def split: option.splits prod.splits if_splits)

lemma mono_binop:
  assumes "carries_all ev ev'" "eval_binop L F ev op l r s = Some x"
  shows "eval_binop L F ev' op l r s = Some x"
proof -
  note ev = carriesD [OF assms(1)]
  show ?thesis
  proof (cases "op \<in> {''&&'', ''and'', ''||'', ''or'', ''??''}")
    case True
    then show ?thesis
      using assms(2) ev
      by (cases x; elim insertE) (auto simp: eval_binop_def split: option.splits if_splits)
  next
    case False
    then have strict: "eval_binop L F e op l r s = operands e l r (\<lambda>a b s2.
        if op = ''not in'' \<and> is_scalar a \<and> is_scalar b \<and> as_duration a = None \<and> as_duration b = None then
          (case operands e l r (\<lambda>c d s3. out_result s3 (eval_strict L F ''in'' c d)) s2 of
             None \<Rightarrow> None
           | Some (v, s4) \<Rightarrow> Some (VBool (\<not> value_truthy v), s4))
        else out_result s2 (eval_strict L F op a b)) s" for e
      by (simp add: eval_binop_def)
    show ?thesis
      using assms(2) unfolding strict
      by (rule mono_operands [OF assms(1)])
        (auto split: if_splits option.splits dest: mono_operands [OF assms(1)])
  qed
qed

lemma mono_assign:
  assumes "carries_all ev ev'" "eval_assign L F ev op t v s = Some x"
  shows "eval_assign L F ev' op t v s = Some x"
  using assms(2) carriesD [OF assms(1)]
  by (cases t) (auto simp: eval_assign_def split: option.splits if_splits)

lemma eval_block_iff:
  "eval_block ev known ns e s = Some x \<longleftrightarrow>
     (let own = has_decls_of known ns
      in \<exists>s1 v s2. exec_all ev ns (if own then push_env s else s) = Some s1 \<and>
           (if cf_signal s1 = CF_NONE then eval_opt ev e s1 = Some (v, s2) else v = VNull \<and> s2 = s1) \<and>
           x = (v, if own then pop_env s2 else s2))"
  by (cases "exec_all ev ns (if has_decls_of known ns then push_env s else s)")
    (auto simp: eval_block_def Let_def split: option.splits)

lemma mono_block:
  assumes "carries_all ev ev'" "eval_block ev known ns e s = Some x"
  shows "eval_block ev' known ns e s = Some x"
proof -
  have "exec_all ev ns s = Some s' \<Longrightarrow> exec_all ev' ns s = Some s'" for s s'
    using carries_exec_all [OF assms(1), of ns] by (simp add: list_all_iff)
  moreover have "eval_opt ev e s = Some r \<Longrightarrow> eval_opt ev' e s = Some r" for s r
    using carries_eval_opt [OF assms(1), of e] by (simp add: option.map_ident)
  ultimately show ?thesis
    using assms(2) unfolding eval_block_iff Let_def by metis
qed

lemma mono_node:
  assumes "carries_all ev ev'" "k \<le> k'" "eval_node L F k ev n s = Some r"
  shows "eval_node L F k' ev' n s = Some r"
proof -
  note ev = carriesD [OF assms(1)]
  have opt: "eval_opt ev e s = Some r \<Longrightarrow> eval_opt ev' e s = Some r" for e s r
    using carries_eval_opt [OF assms(1), of e] by (simp add: option.map_ident)
  show ?thesis
  proof (cases n)
    case (Binop op l r)
    then show ?thesis using assms(3) mono_binop [OF assms(1)] by (simp add: eval_node_def)
  next
    case (Unary op e)
    then show ?thesis using assms(3) ev [of e] by (auto simp: eval_node_def split: option.splits)
  next
    case (Assign op t v)
    then show ?thesis using assms(3) mono_assign [OF assms(1)] by (simp add: eval_node_def)
  next
    case (IfExpr c t cs ts els)
    then show ?thesis
      using assms(3) carries_branches [OF assms(1), of "c # cs" "t # ts" els]
      by (simp add: eval_node_def list_all_iff option.map_ident del: eval_branches.simps)
  next
    case (While lb c b)
    then show ?thesis using assms(2,3) carries_while [OF assms(1), where cond = c and body = b] by (simp add: eval_node_def)
  next
    case (Loop lb b)
    then show ?thesis using assms(2,3) carries_loop [OF assms(1), where body = b] by (simp add: eval_node_def)
  next
    case (Block known ns e)
    then show ?thesis using assms(3) mono_block [OF assms(1)] by (simp add: eval_node_def)
  next
    case (Let a x m c v)
    then show ?thesis
      using assms(3) carries_exec_node [OF assms(1), of n] by (auto simp: eval_node_def is_statement_def list_all_iff)
  next
    case (Const x c v)
    then show ?thesis
      using assms(3) carries_exec_node [OF assms(1), of n] by (auto simp: eval_node_def is_statement_def)
  next
    case (Break lb v)
    then show ?thesis using assms(3) opt by (auto simp: eval_node_def split: option.splits)
  next
    case (Return v)
    then show ?thesis using assms(3) opt by (auto simp: eval_node_def split: option.splits)
  qed (use assms(3) ev in \<open>simp_all add: eval_node_def is_statement_def split: option.splits\<close>)
qed

lemma interp_eval_mono: "k \<le> k' \<Longrightarrow> carries_all (interp_eval L F k) (interp_eval L F k')"
proof (induction k arbitrary: k')
  case (Suc k)
  then obtain j where k': "k' = Suc j" "k \<le> j" by (cases k') auto
  show ?case
    unfolding carries_def
  proof (intro allI impI)
    fix n s r
    assume "interp_eval L F (Suc k) n s = Some r"
    then show "interp_eval L F k' n s = Some r"
      using mono_node [OF Suc.IH [OF k'(2)] k'(2), of L F n s r] unfolding k'(1) by (simp split: if_splits)
  qed
qed (simp add: carries_def)

section \<open>Exits\<close>

lemma exit_not_statement: "is_exit n \<Longrightarrow> \<not> is_statement n"
  by (cases n) (simp_all add: is_exit_def is_statement_def)

lemma exit_signals:
  assumes "is_exit n" "interp_eval L F k n s = Some (v, s')"
  shows "cf_signal s' \<noteq> CF_NONE"
  using assms
  by (cases k; cases n)
    (auto simp: is_exit_def eval_node_def split: if_splits option.splits)

lemma exec_exit_signals:
  assumes "is_exit n" "interp_exec (interp_eval L F k) n s = Some s'"
  shows "cf_signal s' \<noteq> CF_NONE"
  using assms(2) exit_not_statement [OF assms(1)]
  by (auto simp: interp_exec_def split: if_splits dest: exit_signals [OF assms(1)])

lemma length_cut: "length (cut_after_exit ns) \<le> length ns"
  by (induction ns) simp_all

text \<open>What follows an exit is never executed.\<close>

lemma exec_all_cut:
  assumes "exec_all (interp_eval L F k) ns s = Some s'"
  shows "exec_all (interp_eval L F k) (cut_after_exit ns) s = Some s' \<and>
    (length (cut_after_exit ns) < length ns \<longrightarrow> cf_signal s' \<noteq> CF_NONE)"
  using assms
proof (induction ns arbitrary: s)
  case (Cons n ns)
  obtain s1 where n: "interp_exec (interp_eval L F k) n s = Some s1"
    using Cons.prems by (auto split: option.splits)
  show ?case
  proof (cases "is_exit n")
    case True
    then have "cf_signal s1 \<noteq> CF_NONE" using exec_exit_signals n by blast
    then show ?thesis using Cons.prems n True by simp
  next
    case False
    then show ?thesis using Cons n by (auto split: if_splits)
  qed
qed simp

section \<open>Programs the pass keeps\<close>

text \<open>
  A branch is a block or an expression, and no declaration of a block follows its first exit: the pass
  would drop it, and with it the block's own scope.
\<close>

definition plain_branch :: "node \<Rightarrow> bool" where
  "plain_branch n \<longleftrightarrow> \<not> is_statement n \<and> \<not> is_exit n \<and> \<not> declares n"

definition dce_local :: "node \<Rightarrow> bool" where
  "dce_local n =
     (case n of
        IfExpr c t cs ts els \<Rightarrow> length cs = length ts \<and> list_all plain_branch (t # ts) \<and>
          (case els of Some e \<Rightarrow> plain_branch e | None \<Rightarrow> True)
      | Block known ns e \<Rightarrow> known = None \<longrightarrow> list_ex declares (cut_after_exit ns) = list_ex declares ns
      | _ \<Rightarrow> True)"

function dce_ok :: "node \<Rightarrow> bool" where
  "dce_ok n \<longleftrightarrow> dce_local n \<and> list_all dce_ok (children n)"
  by auto
termination
  by (relation "measure size") (auto dest: children_size)

declare dce_ok.simps [simp del]
declare opt_dead_code_elim.simps [simp del]

lemma dce_okD: "dce_ok n \<Longrightarrow> dce_local n" "dce_ok n \<Longrightarrow> m \<in> set (children n) \<Longrightarrow> dce_ok m"
  by (subst (asm) dce_ok.simps, simp add: list_all_iff)+

lemma dce_ok_elif: "dce_ok (IfExpr c t (c2 # cs) (t2 # ts) els) \<Longrightarrow> dce_ok (IfExpr c2 t2 cs ts els)"
  by (subst dce_ok.simps, subst (asm) dce_ok.simps) (auto simp: dce_local_def)

abbreviation kind :: "node \<Rightarrow> bool \<times> bool \<times> bool" where
  "kind n \<equiv> (is_statement n, is_exit n, declares n)"

lemma walk_kind: "kind (walk f n) = kind n"
  by (cases n) (simp_all add: is_statement_def is_exit_def declares_def)

lemma plain_branch_kind: "plain_branch n \<longleftrightarrow> kind n = (False, False, False)"
  by (auto simp: plain_branch_def)

lemma dce_IfExpr:
  "opt_dead_code_elim (IfExpr c t cs ts els) =
     (let c' = opt_dead_code_elim c
      in if c' = LitBool True then opt_dead_code_elim t
         else if c' = LitBool False then
           (case cs of
              c2 # cs' \<Rightarrow>
                (case ts of t2 # ts' \<Rightarrow> opt_dead_code_elim (IfExpr c2 t2 cs' ts' els) | [] \<Rightarrow> IfExpr c t cs ts els)
            | [] \<Rightarrow> (case els of Some e \<Rightarrow> opt_dead_code_elim e | None \<Rightarrow> empty_block))
         else IfExpr c' (opt_dead_code_elim t)
                (map opt_dead_code_elim cs) (map opt_dead_code_elim ts) (map_option opt_dead_code_elim els))"
proof -
  have "const_val m = CV_BOOL b \<longleftrightarrow> m = LitBool b" for m b by (cases m) auto
  then show ?thesis by (subst opt_dead_code_elim.simps) (simp add: Let_def)
qed

lemma dce_Block:
  "opt_dead_code_elim (Block known ns e) =
     (let kept = cut_after_exit (map opt_dead_code_elim ns)
      in Block known kept (if length kept < length ns then None else map_option opt_dead_code_elim e))"
  by (subst opt_dead_code_elim.simps) simp

lemma dce_While:
  "opt_dead_code_elim (While lb c b) =
     (let c' = opt_dead_code_elim c in if const_val c' = CV_BOOL False then empty_block else While lb c' (opt_dead_code_elim b))"
  by (subst opt_dead_code_elim.simps) simp

definition rebuilt :: "node \<Rightarrow> bool" where
  "rebuilt n = (case n of Block a b c \<Rightarrow> True | IfExpr a b c d e \<Rightarrow> True | While a b c \<Rightarrow> True | _ \<Rightarrow> False)"

lemma dce_other: "\<not> rebuilt n \<Longrightarrow> opt_dead_code_elim n = n \<or> opt_dead_code_elim n = walk opt_dead_code_elim n"
  unfolding opt_dead_code_elim.simps [of n] rebuilt_def by (cases n) (simp_all only: node.case simp_thms)

lemma dce_IfExpr_result:
  assumes "Q (opt_dead_code_elim t)" "\<And>e. els = Some e \<Longrightarrow> Q (opt_dead_code_elim e)"
    and "\<And>c2 cs' t2 ts'. cs = c2 # cs' \<Longrightarrow> ts = t2 # ts' \<Longrightarrow> Q (opt_dead_code_elim (IfExpr c2 t2 cs' ts' els))"
    and "Q empty_block" "\<And>a b p q w. Q (IfExpr a b p q w)"
  shows "Q (opt_dead_code_elim (IfExpr c t cs ts els))"
proof -
  have "Q (case cs of
      c2 # cs' \<Rightarrow> (case ts of t2 # ts' \<Rightarrow> opt_dead_code_elim (IfExpr c2 t2 cs' ts' els) | [] \<Rightarrow> IfExpr c t cs ts els)
    | [] \<Rightarrow> (case els of Some e \<Rightarrow> opt_dead_code_elim e | None \<Rightarrow> empty_block))"
  proof (cases cs)
    case Nil
    then show ?thesis using assms(2,4) by (cases els) simp_all
  next
    case (Cons c2 cs')
    then show ?thesis using assms(3,5) by (cases ts) simp_all
  qed
  then show ?thesis
    by (subst dce_IfExpr) (simp add: Let_def assms(1,5))
qed

lemma dce_kind: "dce_ok n \<Longrightarrow> kind (opt_dead_code_elim n) = kind n"
proof (induction "size n" arbitrary: n rule: less_induct)
  case less
  have small: "kind (opt_dead_code_elim m) = kind m" if "m \<in> set (children n)" for m
    using less that dce_okD(2) children_size by blast
  consider "\<not> rebuilt n" | c t cs ts els where "n = IfExpr c t cs ts els"
    | known ns e where "n = Block known ns e" | lb c b where "n = While lb c b"
    by (cases n) (simp_all add: rebuilt_def)
  then show ?case
  proof cases
    case 1
    then show ?thesis
      using dce_other [OF 1] walk_kind [of opt_dead_code_elim n] by metis
  next
    case 2
    have none: "kind n = (False, False, False)" by (simp add: 2 is_statement_def is_exit_def declares_def)
    have t: "kind (opt_dead_code_elim t) = (False, False, False)"
      using small [of t] dce_okD(1) [OF less.prems] unfolding 2 dce_local_def by (simp add: plain_branch_kind)
    have e: "kind (opt_dead_code_elim e) = (False, False, False)" if "els = Some e" for e
      using small [of e] dce_okD(1) [OF less.prems] that unfolding 2 dce_local_def by (simp add: plain_branch_kind)
    have elif: "kind (opt_dead_code_elim (IfExpr c2 t2 cs' ts' els)) = (False, False, False)"
      if "cs = c2 # cs'" "ts = t2 # ts'" for c2 cs' t2 ts'
      using less.hyps [of "IfExpr c2 t2 cs' ts' els"] dce_ok_elif [of c t c2 cs' t2 ts' els] less.prems that 2
      by (simp add: is_statement_def is_exit_def declares_def)
    have rest: "kind empty_block = (False, False, False)" "kind (IfExpr a b p q w) = (False, False, False)" for a b p q w
      by (simp_all add: empty_block_def is_statement_def is_exit_def declares_def)
    show ?thesis
      unfolding none unfolding 2
      by (rule dce_IfExpr_result [where Q = "\<lambda>m. kind m = (False, False, False)"])
        (rule t e elif rest; assumption)+
  next
    case 3
    then show ?thesis by (simp add: dce_Block Let_def is_statement_def is_exit_def declares_def)
  next
    case 4
    then show ?thesis by (simp add: dce_While Let_def empty_block_def is_statement_def is_exit_def declares_def)
  qed
qed

section \<open>The pass keeps every run\<close>

lemma carried_dce: "dce_ok n \<Longrightarrow> carried dce_ok opt_dead_code_elim n"
proof (cases "is_statement n")
  case True
  assume ok: "dce_ok n"
  have "opt_dead_code_elim n = walk opt_dead_code_elim n"
    using True by (cases n) (simp_all add: is_statement_def opt_dead_code_elim.simps)
  then show ?thesis
    using True dce_okD(2) [OF ok] by (simp add: carried_def list_all_iff)
next
  case False
  assume ok: "dce_ok n"
  then show ?thesis using False dce_kind [OF ok] by (simp add: carried_def)
qed

lemma cut_map:
  assumes "\<And>n. n \<in> set ns \<Longrightarrow> is_exit (f n) = is_exit n"
  shows "cut_after_exit (map f ns) = map f (cut_after_exit ns)"
  using assms by (induction ns) simp_all

lemma cut_subset: "set (cut_after_exit ns) \<subseteq> set ns"
  by (induction ns) auto

text \<open>The nodes the pass does not rebuild run as before.\<close>

lemma dce_run_other:
  assumes "carries dce_ok opt_dead_code_elim ev ev" "dce_ok n" "\<not> rebuilt n" "eval_node L F k ev n s = Some r"
  shows "eval_node L F k ev (opt_dead_code_elim n) s = Some r"
proof -
  note ok = dce_okD(2) [OF assms(2)]
  have same: "opt_dead_code_elim n = n \<Longrightarrow> ?thesis" using assms(4) by simp
  show ?thesis
  proof (cases "opt_dead_code_elim n = n")
    case False
    then have walk: "opt_dead_code_elim n = walk opt_dead_code_elim n" using dce_other [OF assms(3)] by blast
    show ?thesis
      unfolding walk
    proof (cases n)
      case (Loop lb b)
      then show "eval_node L F k ev (walk opt_dead_code_elim n) s = Some r"
        using assms(4) carries_loop [OF assms(1) carried_dce [of b], where k = k and k' = k] ok
        by (simp add: eval_node_def)
    next
      case (Return v)
      then show "eval_node L F k ev (walk opt_dead_code_elim n) s = Some r"
        using assms(4) carries_eval_opt [OF assms(1), of v] ok by (auto simp: eval_node_def split: option.splits)
    next
      case (Let a x m c v)
      then show "eval_node L F k ev (walk opt_dead_code_elim n) s = Some r"
        using assms(4) carries_exec_node [OF assms(1), of n] ok
        by (auto simp: eval_node_def is_statement_def list_all_iff)
    next
      case (Const x c v)
      then show "eval_node L F k ev (walk opt_dead_code_elim n) s = Some r"
        using assms(4) carries_exec_node [OF assms(1), of n] ok
        by (auto simp: eval_node_def is_statement_def list_all_iff)
    next
      case (ExprStmt e)
      then show "eval_node L F k ev (walk opt_dead_code_elim n) s = Some r"
        using assms(4) carriesD [OF assms(1)] ok by (simp add: eval_node_def)
    qed (use False assms(3,4) in \<open>simp_all add: eval_node_def is_statement_def rebuilt_def opt_dead_code_elim.simps\<close>)
  qed (rule same)
qed

lemma dce_run_block:
  assumes "carries dce_ok opt_dead_code_elim ev ev" "ev = interp_eval L F j" "dce_ok (Block known ns e)"
    and "eval_block ev known ns e s = Some r" 
  shows "eval_node L F k ev (opt_dead_code_elim (Block known ns e)) s = Some r"
proof -
  let ?f = opt_dead_code_elim
  have ok: "\<And>n. n \<in> set ns \<Longrightarrow> dce_ok n" "\<And>n. e = Some n \<Longrightarrow> dce_ok n"
    using dce_okD(2) [OF assms(3)] by auto
  define kept where "kept = cut_after_exit (map ?f ns)"
  have kinds: "is_exit (?f n) = is_exit n" "declares (?f n) = declares n" if "n \<in> set ns" for n
    using dce_kind [OF ok(1) [OF that]] by simp_all
  have kept: "kept = map ?f (cut_after_exit ns)"
    unfolding kept_def by (rule cut_map) (rule kinds(1))
  have "list_ex declares kept = list_ex declares (cut_after_exit ns)"
    using kinds(2) cut_subset [of ns] by (auto simp: kept list_ex_iff)
  then have decls: "has_decls_of known kept = has_decls_of known ns"
    using dce_okD(1) [OF assms(3)] by (auto simp: has_decls_of_def dce_local_def split: option.splits)
  let ?s = "if has_decls_of known ns then push_env s else s"
  obtain s1 v s2 where run: "exec_all ev ns ?s = Some s1"
      "if cf_signal s1 = CF_NONE then eval_opt ev e s1 = Some (v, s2) else v = VNull \<and> s2 = s1"
      "r = (v, if has_decls_of known ns then pop_env s2 else s2)"
    using assms(4) unfolding eval_block_iff Let_def by blast
  have cut: "exec_all ev (cut_after_exit ns) ?s = Some s1"
      "length (cut_after_exit ns) < length ns \<Longrightarrow> cf_signal s1 \<noteq> CF_NONE"
    using exec_all_cut [of L F j ns ?s s1] run(1) unfolding assms(2) by auto
  have stmts: "exec_all ev kept ?s = Some s1"
    unfolding kept
    using cut_subset [of ns] ok(1) carried_dce by (intro carries_exec_all [OF assms(1) cut(1)]) (auto simp: list_all_iff)
  have expr: "if cf_signal s1 = CF_NONE
      then eval_opt ev (if length kept < length ns then None else map_option ?f e) s1 = Some (v, s2)
      else v = VNull \<and> s2 = s1"
    using run(2) cut(2) carries_eval_opt [OF assms(1), of e s1 "(v, s2)"] ok(2) by (auto simp: kept)
  show ?thesis
    using stmts expr run(3) unfolding dce_Block kept_def [symmetric] Let_def
    by (simp add: eval_node_def eval_block_iff Let_def decls)
qed

lemma literal_run:
  assumes "interp_eval L F k (LitBool b) s = Some (v, s1)" "cf_signal s = CF_NONE"
  shows "v = VBool b \<and> s1 = s"
  using assms by (cases k) (simp_all add: eval_node_def)

lemma empty_block_run: "cf_signal s = CF_NONE \<Longrightarrow> interp_eval L F (Suc k) empty_block s = Some (VNull, s)"
  by (simp add: empty_block_def eval_node_def eval_block_def has_decls_of_def eval_opt_def)

lemma run_while_first:
  "run_while k ev lb c b w s = Some r \<Longrightarrow> \<exists>v s1. ev c s = Some (v, s1) \<and> (\<not> value_truthy v \<longrightarrow> r = (w, s1))"
  by (cases k) (auto split: option.splits)

lemma dce_run_while:
  assumes "carries dce_ok opt_dead_code_elim (interp_eval L F k) (interp_eval L F k)" "dce_ok (While lb c b)"
    and "eval_node L F k (interp_eval L F k) (While lb c b) s = Some r" "cf_signal s = CF_NONE"
  shows "interp_eval L F (Suc k) (opt_dead_code_elim (While lb c b)) s = Some r"
proof (cases "const_val (opt_dead_code_elim c) = CV_BOOL False")
  case True
  then have lit: "opt_dead_code_elim c = LitBool False" by (cases "opt_dead_code_elim c") (auto split: if_splits)
  have "run_while k (interp_eval L F k) lb c b VNull s = Some r" using assms(3) by (simp add: eval_node_def)
  then obtain v s1 where k: "interp_eval L F k c s = Some (v, s1)" "\<not> value_truthy v \<longrightarrow> r = (VNull, s1)"
    using run_while_first by blast
  then have "v = VBool False \<and> s1 = s"
    using carriesD [OF assms(1), of c] dce_okD(2) [OF assms(2)] literal_run assms(4) lit by (metis children.simps(8) list.set_intros(1))
  then have "r = (VNull, s)" using k(2) by simp
  then show ?thesis using True empty_block_run [OF assms(4), of L F k] by (simp add: dce_While del: interp_eval.simps)
next
  case False
  then show ?thesis
    using assms(3,4) carries_while [OF assms(1), of c b k] dce_okD(2) [OF assms(2)]
    by (simp add: dce_While Let_def eval_node_def)
qed

lemma dce_run_if:
  assumes sim: "carries dce_ok opt_dead_code_elim (interp_eval L F k) (interp_eval L F k)"
    and ok: "dce_ok (IfExpr c t cs ts els)"
    and elif: "\<And>m. \<lbrakk>size m < size (IfExpr c t cs ts els); dce_ok m; interp_eval L F (Suc k) m s = Some r\<rbrakk>
      \<Longrightarrow> interp_eval L F (Suc k) (opt_dead_code_elim m) s = Some r"
    and up: "\<And>m s r. interp_eval L F k m s = Some r \<Longrightarrow> interp_eval L F (Suc k) m s = Some r"
    and quiet: "cf_signal s = CF_NONE"
    and run: "eval_node L F k (interp_eval L F k) (IfExpr c t cs ts els) s = Some r"
  shows "interp_eval L F (Suc k) (opt_dead_code_elim (IfExpr c t cs ts els)) s = Some r"
proof -
  let ?ev = "interp_eval L F k" and ?f = opt_dead_code_elim
  have branches: "eval_branches ?ev (c # cs) (t # ts) els s = Some r"
    using run by (simp add: eval_node_def)
  then obtain v s1 where c: "?ev c s = Some (v, s1)"
      and next_: "if value_truthy v then ?ev t s1 = Some r else eval_branches ?ev cs ts els s1 = Some r"
    by (auto split: option.splits if_splits)
  have parts: "dce_ok c" "dce_ok t" "list_all dce_ok cs" "list_all dce_ok ts" "\<And>e. els = Some e \<Longrightarrow> dce_ok e"
    using dce_okD(2) [OF ok] by (auto simp: list_all_iff)
  have lens: "length cs = length ts" using dce_okD(1) [OF ok] by (simp add: dce_local_def)
  have c': "?ev (?f c) s = Some (v, s1)" using carriesD [OF sim parts(1) c] .
  consider (true) "?f c = LitBool True" | (false) "?f c = LitBool False"
    | (unknown) "?f c \<noteq> LitBool True" "?f c \<noteq> LitBool False" by blast
  then show ?thesis
  proof cases
    case true
    then have "v = VBool True \<and> s1 = s" using literal_run [OF _ quiet] c' by metis
    then have "?ev (?f t) s = Some r" using next_ carriesD [OF sim parts(2)] by simp
    then show ?thesis using up true by (subst dce_IfExpr) simp
  next
    case false
    then have "v = VBool False \<and> s1 = s" using literal_run [OF _ quiet] c' by metis
    then have rest: "eval_branches ?ev cs ts els s = Some r" using next_ by simp
    show ?thesis
    proof (cases cs)
      case Nil
      then have "eval_opt ?ev els s = Some r" using rest by simp
      then show ?thesis
        using Nil false up carriesD [OF sim parts(5)] empty_block_run [OF quiet, of L F k]
        by (subst dce_IfExpr) (cases els; simp add: eval_opt_def del: interp_eval.simps)
    next
      case (Cons c2 cs')
      then obtain t2 ts' where ts: "ts = t2 # ts'" using lens by (cases ts) auto
      let ?m = "IfExpr c2 t2 cs' ts' els"
      have "interp_eval L F (Suc k) ?m s = Some r"
        using rest quiet unfolding Cons ts by (simp add: eval_node_def)
      then have "interp_eval L F (Suc k) (?f ?m) s = Some r"
        using elif [of ?m] dce_ok_elif ok unfolding Cons ts by simp
      then show ?thesis using false by (subst dce_IfExpr) (simp add: Cons ts)
    qed
  next
    case unknown
    have "eval_branches ?ev (map ?f (c # cs)) (map ?f (t # ts)) (map_option ?f els) s = Some r"
      using parts by (intro carries_branches [OF sim branches]) simp_all
    then show ?thesis
      using unknown quiet by (subst dce_IfExpr) (simp add: eval_node_def)
  qed
qed

lemma dce_preserves_run:
  "dce_ok n \<Longrightarrow> interp_eval L F k n s = Some r \<Longrightarrow> interp_eval L F k (opt_dead_code_elim n) s = Some r"
proof (induction k arbitrary: n s r)
  case (Suc k)
  let ?ev = "interp_eval L F k"
  have IH: "carries dce_ok opt_dead_code_elim ?ev ?ev"
    unfolding carries_def using Suc.IH by blast
  have up: "?ev m s = Some r \<Longrightarrow> interp_eval L F (Suc k) m s = Some r" for m s r
    using carriesD [OF interp_eval_mono [of k "Suc k" L F]] by simp
  show ?case
  proof (cases "cf_signal s = CF_NONE")
    case False
    then show ?thesis using Suc.prems(2) by simp
  next
    case quiet: True
    show ?thesis
      using Suc.prems
    proof (induction "size n" arbitrary: n rule: less_induct)
      case less
      note ok = dce_okD(2) [OF less.prems(1)]
      have run: "eval_node L F k ?ev n s = Some r" using less.prems(2) quiet by simp
      consider "\<not> rebuilt n" | c t cs ts els where "n = IfExpr c t cs ts els"
        | known ns e where "n = Block known ns e" | lb c b where "n = While lb c b"
        by (cases n) (simp_all add: rebuilt_def)
      then show ?case
      proof cases
        case 1
        show ?thesis using dce_run_other [OF IH less.prems(1) 1 run] quiet by simp
      next
        case 2
        then show ?thesis
          using dce_run_if [OF IH less.prems(1) [unfolded 2]] less.hyps up quiet run by simp
      next
        case 3
        show ?thesis
          using dce_run_block [OF IH refl less.prems(1) [unfolded 3]] run quiet unfolding 3
          by (simp add: eval_node_def)
      next
        case 4
        then show ?thesis
          using dce_run_while [OF IH less.prems(1) [unfolded 4]] run quiet by simp
      qed
    qed
  qed
qed simp

end
