(* ===== verification/XOptSpec.thy ===== *)
theory XOptSpec
  imports XTypedOpt XDeadCode
begin

text \<open>
  What the interpreter and the optimizer guarantee, and where they do not: evaluation of typed expressions,
  the four passes against it, and assignment.
\<close>

section \<open>Expressions\<close>

text \<open>C1. Evaluating an expression of integers and booleans gives a value of its type that is exactly its
  meaning over unbounded integers, and changes nothing; it throws exactly on a division of a 64-bit integer
  by zero, and C leaves it undefined exactly where the smallest 64-bit integer meets -1.\<close>
theorem typed_eval_exact:
  assumes "type_of G e = Some t" "env_ok G s" "cf_signal s = CF_NONE" "expr_height e < k"
  shows "case expr_meaning (value_env s) e of
      Means m \<Rightarrow> sval_type m = t \<and> (\<exists>v. interp_eval L F k e s = Some (v, s) \<and> has_type v t \<and> denotes v m)
    | Throws \<Rightarrow> (\<exists>v s'. interp_eval L F k e s = Some (v, s') \<and> cf_signal s' = CF_THROW)
    | Undefined \<Rightarrow> interp_eval L F k e s = None"
  using typed_eval [OF assms, of L F]
  by (cases "expr_meaning (value_env s) e") (auto intro: denotes_has_type)

definition start :: "env_frame \<Rightarrow> interp" where
  "start fr = \<lparr>frames = [fr], cf_signal = CF_NONE, cf_value = None, cf_label = None, last_expr_value = None\<rparr>"

lemma start_simps [simp]: "frames (start fr) = [fr]" "cf_signal (start fr) = CF_NONE"
  by (simp_all add: start_def)

lemma env_ok_start:
  "env_ok G (start fr) \<longleftrightarrow>
     (\<forall>x t. map_of G x = Some t \<longrightarrow> (\<exists>v m. map_of fr x = Some (v, m) \<and> has_type v t))"
proof -
  have get: "env_get [fr] x = Some v \<longleftrightarrow> (\<exists>m. map_of fr x = Some (v, m))" for x v
    by (auto split: option.split)
  show ?thesis unfolding env_ok_def start_simps get by blast
qed

theorem typed_eval_exact_witness:
  "\<forall>L (F :: (u64, unit) fpu_scheme). \<exists>v.
     interp_eval L F 2 (Binop ''+'' (Ident ''x'') (LitInt 1)) (start [(''x'', VInt INT64_MAX, True)]) =
       Some (v, start [(''x'', VInt INT64_MAX, True)]) \<and> denotes v (SInt 9223372036854775808)"
proof (intro allI)
  fix L :: libc_float and F :: "(u64, unit) fpu_scheme"
  let ?s = "start [(''x'', VInt INT64_MAX, True)]" and ?e = "Binop ''+'' (Ident ''x'') (LitInt 1)"
  have "env_ok [(''x'', TInt)] ?s"
    by (auto simp: env_ok_start has_type_def is_integer_def i64_defs)
  moreover have "type_of [(''x'', TInt)] ?e = Some TInt"
    by (simp add: binop_type_def i64_defs)
  moreover have "expr_meaning (value_env ?s) ?e = Means (SInt 9223372036854775808)"
    by (simp add: value_env_def sval_of_def ints_meaning_def i64_defs)
  ultimately show "\<exists>v. interp_eval L F 2 ?e ?s = Some (v, ?s) \<and> denotes v (SInt 9223372036854775808)"
    using typed_eval_exact [of "[(''x'', TInt)]" ?e TInt ?s 2 L F] by auto
qed



text \<open>C37. Strength reduction of a multiplication by a power of two is exact on 64-bit operands, promotion
  included; that of a division and of a remainder is exact on exactly the operands that are not negative or
  divide without rest.\<close>
theorem strength_reduction_exact:
  assumes "in_i64 a" "j < 63"
  shows "strength_binop ''*'' l (LitInt (2 ^ j)) = Binop ''<<'' l (LitInt (int j)) \<and>
      eval_strict L F ''<<'' (VInt a) (VInt (int j)) = eval_strict L F ''*'' (VInt a) (VInt (2 ^ j)) \<and>
      strength_binop ''/'' l (LitInt (2 ^ j)) = Binop ''>>'' l (LitInt (int j)) \<and>
      (eval_strict L F ''>>'' (VInt a) (VInt (int j)) = eval_strict L F ''/'' (VInt a) (VInt (2 ^ j)) \<longleftrightarrow>
        0 \<le> a \<or> 2 ^ j dvd a) \<and>
      strength_binop ''%'' l (LitInt 2) = Binop ''&'' l (LitInt 1) \<and>
      (eval_strict L F ''&'' (VInt a) (VInt 1) = eval_strict L F ''%'' (VInt a) (VInt 2) \<longleftrightarrow> 0 \<le> a \<or> even a)"
proof -
  have "power2_of (const_val (LitInt (2 ^ j))) = Some (int j)"
    using power2_of_iff by simp
  moreover have "in_i64 (c_div a 2)"
    using div_fits [OF assms(1), of 2] by (simp add: i64_defs)
  ultimately show ?thesis
    using strength_mul_exact [OF assms] strength_div_exact [OF assms] strength_mod_exact [of a]
    by (simp add: strength_binop_def Let_def strict_ints)
qed

theorem strength_reduction_exact_witness:
  "\<forall>L (F :: (u64, unit) fpu_scheme).
     eval_strict L F ''>>'' (VInt (- 7)) (VInt (int 1)) \<noteq> eval_strict L F ''/'' (VInt (- 7)) (VInt (2 ^ 1))"
proof (intro allI)
  fix L :: libc_float and F :: "(u64, unit) fpu_scheme"
  show "eval_strict L F ''>>'' (VInt (- 7)) (VInt (int 1)) \<noteq> eval_strict L F ''/'' (VInt (- 7)) (VInt (2 ^ 1))"
    using strength_reduction_exact [of "- 7" 1 LitNull L F] by (simp add: i64_defs)
qed


section \<open>Programs\<close>





text \<open>A declaration after an exit makes the difference: the pass drops it, the block loses its own
  scope, and a name assigned in it outlives the block.\<close>
theorem dce_leaks_scope:
  "let n = Loop None (Block None [ExprStmt (Assign ''='' (Ident ''x'') (LitInt 1)), Break None None,
             Let False (Some ''y'') False False None] None)
   in map_option (\<lambda>r. env_get (frames (snd r)) ''x'') (interp_eval L F 6 n (start [])) = Some None \<and>
      map_option (\<lambda>r. env_get (frames (snd r)) ''x'') (interp_eval L F 6 (opt_dead_code_elim n) (start [])) =
        Some (Some (VInt 1))"
  by (simp add: start_def numeral_eq_Suc eval_node_def eval_block_def has_decls_of_def declares_def
      interp_exec_def is_statement_def eval_opt_def mine_def CF_CLEAR_def Let_def exec_node_def eval_assign_def
      store_name_def push_env_def pop_env_def opt_dead_code_elim.simps is_exit_def)

section \<open>Assignment\<close>

text \<open>C39. A compound assignment of 64-bit integers is the operation where it fits and undefined where it
  does not, unlike the operator, which promotes; and it stores the right operand alone when the target is a
  big integer, and for the power and shift assignments of integers.\<close>
theorem compound_assignment_integers:
  assumes "in_i64 a" "in_i64 b"
  shows "compound L F ''+='' (VInt a) (VInt b) = (if in_i64 (a + b) then Ret (VInt (a + b)) else Undef) \<and>
    compound L F ''-='' (VInt a) (VInt b) = (if in_i64 (a - b) then Ret (VInt (a - b)) else Undef) \<and>
    compound L F ''*='' (VInt a) (VInt b) = (if in_i64 (a * b) then Ret (VInt (a * b)) else Undef) \<and>
    (in_i64 (a + b) \<longrightarrow> compound L F ''+='' (VInt a) (VInt b) = eval_strict L F ''+'' (VInt a) (VInt b)) \<and>
    (\<forall>big op. compound L F op (VBig big) (VInt b) = Ret (VInt b)) \<and>
    (\<forall>op \<in> {''**='', ''<<='', ''>>=''}. compound L F op (VInt a) (VInt b) = Ret (VInt b))"
proof -
  have "eval_strict L F ''+'' (VInt a) (VInt b) = num_out (xs_safe_add a b)"
    by (simp add: eval_strict_def first_of_def number_binop_def as_int_def as_duration_def int_binop_def op_simps)
  moreover have "in_i64 (a + b) \<Longrightarrow> xs_safe_add a b = (Some (NInt (a + b)) :: u64 num option)"
    using xs_safe_add_correct [OF assms] is_num_unique is_num_NInt by blast
  ultimately show ?thesis
    by (simp add: compound_def compound_op_def compound_ints_def as_int_def as_str_def op_simps Let_def xs_int_of_eq)
qed

theorem compound_assignment_integers_witness:
  "\<forall>L (F :: (u64, unit) fpu_scheme). compound L F ''+='' (VInt INT64_MAX) (VInt 1) = Undef"
proof (intro allI)
  fix L :: libc_float and F :: "(u64, unit) fpu_scheme"
  show "compound L F ''+='' (VInt INT64_MAX) (VInt 1) = Undef"
    using compound_assignment_integers [of INT64_MAX 1 L F] by (simp add: i64_defs)
qed

text \<open>C40. An assignment whose right-hand side throws still stores: the name is overwritten with what the
  failed expression returned, and the throw goes on.\<close>
theorem assignment_after_throw:
  assumes "interp_eval L F k e s = Some (v, s1)" "cf_signal s1 = CF_THROW" "cf_signal s = CF_NONE"
    and "frames s1 = fr # frs" "map_of fr x = Some (w, True)"
  shows "\<exists>s'. interp_eval L F (Suc k) (Assign ''='' (Ident x) e) s = Some (v, s') \<and>
    cf_signal s' = CF_THROW \<and> env_get (frames s') x = Some v"
  using assms by (simp add: eval_node_def eval_assign_def store_name_def update_conv')

theorem assignment_after_throw_witness:
  "\<forall>L (F :: (u64, unit) fpu_scheme). \<exists>u.
     interp_eval L F 3 (Assign ''='' (Ident ''x'') (Binop ''/'' (LitInt 1) (LitInt 0))) (start [(''x'', VInt 5, True)]) =
       Some (VNull, u) \<and> env_get (frames u) ''x'' = Some VNull"
proof (intro allI)
  fix L :: libc_float and F :: "(u64, unit) fpu_scheme"
  let ?s = "start [(''x'', VInt 5, True)]"
  have "interp_eval L F 2 (Binop ''/'' (LitInt 1) (LitInt 0)) ?s = Some (VNull, xs_runtime_error ''division by zero'' ?s)"
    by (simp add: numeral_eq_Suc eval_node_def eval_binop_def operands_def strict_ints)
  from assignment_after_throw [OF this, of "[(''x'', VInt 5, True)]" "[]" "''x''" "VInt 5"]
  show "\<exists>u. interp_eval L F 3 (Assign ''='' (Ident ''x'') (Binop ''/'' (LitInt 1) (LitInt 0))) ?s = Some (VNull, u) \<and>
      env_get (frames u) ''x'' = Some VNull"
    by (auto simp: xs_runtime_error_def numeral_3_eq_3 numeral_2_eq_2)
qed

end
