(* ===== verification/Spec2Isabelle.thy ===== *)
theory Spec2Isabelle
  imports XNumericSpec XMapSpec XMsgPackSpec XRaSpec XTimersSpec XUtf8Spec XPassesSpec XBTreeSpec XLike XOptSpec
begin

text \<open>
  A verification development for the XS language runtime (\<open>src/src\<close>).
\<close>

end
